(* ===== verification/C_Prelude.thy ===== *)
theory C_Prelude imports Main "HOL-Library.Word" "HOL-Library.Monad_Syntax" begin

text \<open>
  Shared vocabulary of the development: C integer types as words, raw byte buffers,
  \<open>memcpy\<close> and \<open>memset\<close>, little-endian 64-bit fields, and the counted
  loop that returns early. \<open>None\<close> of an option result always means undefined
  behaviour of the C code (a NULL or out-of-range access); ordinary error returns of the
  code are values.
\<close>

unbundle bit_operations_syntax

section \<open>Types\<close>

type_synonym u8 = "8 word"
type_synonym u16 = "16 word"
type_synonym u64 = "64 word"

text \<open>A C array of bytes, indexed from its first byte.\<close>
type_synonym buf = "nat \<Rightarrow> u8"

abbreviation (input) EXIT_SUCCESS :: int where "EXIT_SUCCESS \<equiv> 0"
abbreviation (input) EXIT_FAILURE :: int where "EXIT_FAILURE \<equiv> 1"

named_theorems frame_simps \<open>what an operation leaves unchanged\<close>

text \<open>A condition whose failure is undefined behaviour.\<close>
definition guard :: "bool \<Rightarrow> unit option" where
  "guard b = (if b then Some () else None)"

lemma guard_simps [simp]:
  "guard True = Some ()"
  "guard False = None"
  "guard b = Some u \<longleftrightarrow> b"
  "guard b = None \<longleftrightarrow> \<not> b"
  by (simp_all add: guard_def)

section \<open>Conversions between integer types\<close>

text \<open>The conversion of an unsigned 64-bit value to \<open>int\<close> keeps the low 32 bits.\<close>
definition u64_to_int :: "u64 \<Rightarrow> int" where
  "u64_to_int w = sint (ucast w :: 32 word)"

text \<open>An \<open>int\<close> used where a 64-bit unsigned value is expected is reduced modulo 2^64.\<close>
definition int_to_u64 :: "int \<Rightarrow> u64" where
  "int_to_u64 i = word_of_int i"

lemma int_to_u64_of_nat [simp]: "int_to_u64 (int n) = of_nat n"
  by (simp add: int_to_u64_def)

lemma unat_of_nat_u64 [simp]: "n < 18446744073709551616 \<Longrightarrow> unat (of_nat n :: u64) = n"
  by (simp add: unat_of_nat take_bit_nat_eq_self)

lemma u64_to_int_small:
  assumes "unat w < 2 ^ 31"
  shows "u64_to_int w = int (unat w)"
proof -
  define n where "n = unat w"
  have n: "n < 2147483648"
    using assms by (simp add: n_def)
  have "unat (ucast w :: 32 word) = n"
    using assms by (simp add: n_def unsigned_ucast_eq take_bit_nat_eq_self)
  then have 2: "uint (ucast w :: 32 word) = int n"
    by (metis uint_nat)
  show ?thesis
    unfolding u64_to_int_def sint_uint 2 n_def [symmetric]
    by (rule signed_take_bit_int_eq_self) (use n in simp_all)
qed

section \<open>Raw memory\<close>

definition memcpy :: "buf \<Rightarrow> nat \<Rightarrow> buf \<Rightarrow> nat \<Rightarrow> nat \<Rightarrow> buf" where
  "memcpy dst d src s n = (\<lambda>i. if d \<le> i \<and> i < d + n then src (s + (i - d)) else dst i)"

definition memset :: "buf \<Rightarrow> nat \<Rightarrow> u8 \<Rightarrow> nat \<Rightarrow> buf" where
  "memset dst d v n = (\<lambda>i. if d \<le> i \<and> i < d + n then v else dst i)"

lemma memcpy_in [simp]: "d \<le> i \<Longrightarrow> i < d + n \<Longrightarrow> memcpy dst d src s n i = src (s + (i - d))"
  by (simp add: memcpy_def)

lemma memcpy_out [simp]: "i < d \<or> d + n \<le> i \<Longrightarrow> memcpy dst d src s n i = dst i"
  by (auto simp: memcpy_def)

lemma memcpy_cong:
  assumes "\<And>i. i < n \<Longrightarrow> src (s + i) = src' (s' + i)"
  shows "memcpy dst d src s n = memcpy dst d src' s' n"
proof
  fix i
  show "memcpy dst d src s n i = memcpy dst d src' s' n i"
    using assms [of "i - d"] by (cases "d \<le> i \<and> i < d + n") (auto simp: memcpy_def)
qed

lemma memset_in [simp]: "d \<le> i \<Longrightarrow> i < d + n \<Longrightarrow> memset dst d v n i = v"
  by (simp add: memset_def)

lemma memset_out [simp]: "i < d \<or> d + n \<le> i \<Longrightarrow> memset dst d v n i = dst i"
  by (auto simp: memset_def)

text \<open>Little-endian 64-bit fields of a buffer.\<close>

primrec le_word :: "nat \<Rightarrow> buf \<Rightarrow> nat \<Rightarrow> u64" where
  "le_word 0 b off = 0"
| "le_word (Suc k) b off = ucast (b off) OR push_bit 8 (le_word k b (Suc off))"

definition get_u64 :: "buf \<Rightarrow> nat \<Rightarrow> u64" where
  "get_u64 b off = le_word 8 b off"

definition put_u64 :: "buf \<Rightarrow> nat \<Rightarrow> u64 \<Rightarrow> buf" where
  "put_u64 b off v =
     (\<lambda>i. if off \<le> i \<and> i < off + 8 then ucast (drop_bit (8 * (i - off)) v) else b i)"

lemma bit_le_word:
  "bit (le_word k b off) n \<longleftrightarrow> n < 8 * k \<and> n < 64 \<and> bit (b (off + n div 8)) (n mod 8)"
proof (induction k arbitrary: off n)
  case (Suc k)
  show ?case
  proof (cases "n < 8")
    case True
    then show ?thesis by (simp add: bit_simps)
  next
    case False
    then obtain m where "n = m + 8" by (metis add.commute le_Suc_ex not_less)
    then have "(n - 8) div 8 = n div 8 - 1" "(n - 8) mod 8 = n mod 8" "off + n div 8 = Suc (off + m div 8)"
      by auto
    with \<open>n = m + 8\<close> show ?thesis
      by (auto simp: bit_simps Suc.IH dest: bit_imp_le_length)
  qed
qed simp

lemma bit_get_u64:
  "bit (get_u64 b off) n \<longleftrightarrow> n < 64 \<and> bit (b (off + n div 8)) (n mod 8)"
  by (auto simp: get_u64_def bit_le_word)

lemma get_put_u64 [simp]: "get_u64 (put_u64 b off v) off = v"
  by (rule bit_word_eqI) (auto simp: bit_get_u64 put_u64_def bit_simps)

lemma get_put_u64_other:
  "off + 8 \<le> off' \<or> off' + 8 \<le> off \<Longrightarrow> get_u64 (put_u64 b off v) off' = get_u64 b off'"
  by (rule bit_word_eqI) (auto simp: bit_get_u64 put_u64_def)

lemma put_u64_apply_other: "i < off \<or> off + 8 \<le> i \<Longrightarrow> put_u64 b off v i = b i"
  by (auto simp: put_u64_def)

lemma get_u64_cong:
  "(\<And>i. i < 8 \<Longrightarrow> b (off + i) = b' (off' + i)) \<Longrightarrow> get_u64 b off = get_u64 b' off'"
  by (rule bit_word_eqI) (simp add: bit_get_u64)

lemma put_get_u64 [simp]: "put_u64 b off (get_u64 b off) = b"
proof (rule ext, rule bit_word_eqI)
  fix i n assume "n < LENGTH(8)"
  then show "bit (put_u64 b off (get_u64 b off) i) n = bit (b i) n"
    by (auto simp: put_u64_def bit_get_u64 bit_simps)
qed

section \<open>Counted loops that return early\<close>

text \<open>\<open>for(x = lo; x < hi; x++)\<close> with a body that may return.\<close>

function first_some :: "(nat \<Rightarrow> 'a option) \<Rightarrow> nat \<Rightarrow> nat \<Rightarrow> 'a option" where
  "first_some f lo hi =
     (if lo < hi then (case f lo of Some y \<Rightarrow> Some y | None \<Rightarrow> first_some f (Suc lo) hi) else None)"
  by pat_completeness auto
termination by (relation "measure (\<lambda>(f, lo, hi). hi - lo)") auto

declare first_some.simps [simp del]

lemma first_some_None:
  "(\<And>z. lo \<le> z \<Longrightarrow> z < hi \<Longrightarrow> f z = None) \<Longrightarrow> first_some f lo hi = None"
proof (induction f lo hi rule: first_some.induct)
  case (1 f lo hi)
  then show ?case by (subst first_some.simps) auto
qed

lemma first_some_hit:
  "f x = Some y \<Longrightarrow> lo \<le> x \<Longrightarrow> x < hi \<Longrightarrow> (\<And>z. lo \<le> z \<Longrightarrow> z < x \<Longrightarrow> f z = None) \<Longrightarrow>
    first_some f lo hi = Some y"
proof (induction f lo hi rule: first_some.induct)
  case (1 f lo hi)
  show ?case
  proof (cases "x = lo")
    case True
    with 1 show ?thesis by (subst first_some.simps) simp
  next
    case False
    with 1 have "f lo = None" "lo < hi" by simp_all
    with 1 False show ?thesis by (subst first_some.simps) simp
  qed
qed

lemma first_some_cong:
  "(\<And>x. lo \<le> x \<Longrightarrow> x < hi \<Longrightarrow> f x = g x) \<Longrightarrow> first_some f lo hi = first_some g lo hi"
proof (induction f lo hi rule: first_some.induct)
  case (1 f lo hi)
  then show ?case
    by (subst (1 2) first_some.simps) (auto split: option.split)
qed

text \<open>The loop returns the first hit, or runs to the end when there is none.\<close>

lemma first_some_cases:
  obtains (none) "first_some f lo hi = None" "\<And>z. lo \<le> z \<Longrightarrow> z < hi \<Longrightarrow> f z = None"
  | (hit) x y where "first_some f lo hi = Some y" "f x = Some y" "lo \<le> x" "x < hi"
      "\<And>z. lo \<le> z \<Longrightarrow> z < x \<Longrightarrow> f z = None"
proof (cases "\<exists>z. lo \<le> z \<and> z < hi \<and> f z \<noteq> None")
  case True
  define x where "x = (LEAST z. lo \<le> z \<and> z < hi \<and> f z \<noteq> None)"
  from True have x: "lo \<le> x \<and> x < hi \<and> f x \<noteq> None"
    unfolding x_def by (rule LeastI_ex)
  have before: "f z = None" if "lo \<le> z" "z < x" for z
    using not_less_Least [of z "\<lambda>z. lo \<le> z \<and> z < hi \<and> f z \<noteq> None"] that x
    by (auto simp: x_def)
  from x obtain y where "f x = Some y" by auto
  with x before have "first_some f lo hi = Some y" by (auto intro: first_some_hit)
  with x before \<open>f x = Some y\<close> show thesis by (auto intro: hit)
next
  case False
  then show thesis by (auto intro: none first_some_None)
qed

lemma first_some_None_iff: "first_some f lo hi = None \<longleftrightarrow> (\<forall>z. lo \<le> z \<and> z < hi \<longrightarrow> f z = None)"
  by (cases rule: first_some_cases [of f lo hi]) auto

end
