(* ===== verification/Storage.thy ===== *)
theory Storage imports C_Prelude begin

text \<open>
  The pseudo block device of \<open>HW4-skeleton/storage.c\<close>: one array of
  \<open>DEVICE_SIZE\<close> bytes behind the global pointer \<open>storage\<close> (\<open>None\<close> is the
  NULL pointer before or after a failed \<open>storage_init\<close>), read and written one block
  at a time. Data buffers of the callers are explicit arguments, because a failed read
  leaves the caller's buffer as it was.
\<close>

abbreviation BLOCK_SIZE :: "'a::numeral" where
  "BLOCK_SIZE \<equiv> 4096"

abbreviation NUM_BLOCKS :: "'a::numeral" where
  "NUM_BLOCKS \<equiv> 16384"

record storage_state =
  storage :: "buf option"

text \<open>\<open>malloc\<close> returns the new device memory or \<open>None\<close> (NULL).\<close>
definition storage_init :: "buf option \<Rightarrow> 'a storage_state_scheme \<Rightarrow> int \<times> 'a storage_state_scheme" where
  "storage_init malloc_result s =
     (case malloc_result of
        None \<Rightarrow> (-1, s\<lparr>storage := None\<rparr>)
      | Some m \<Rightarrow> (0, s\<lparr>storage := Some m\<rparr>))"

definition storage_read_block ::
    "'a storage_state_scheme \<Rightarrow> u64 \<Rightarrow> buf \<Rightarrow> (int \<times> buf) option" where
  "storage_read_block s block_number data =
     (if block_number \<ge> NUM_BLOCKS then Some (-1, data)
      else case storage s of
        None \<Rightarrow> None
      | Some m \<Rightarrow> Some (0, memcpy data 0 m (unat (block_number * BLOCK_SIZE)) BLOCK_SIZE))"

definition storage_write_block ::
    "'a storage_state_scheme \<Rightarrow> u64 \<Rightarrow> buf \<Rightarrow> (int \<times> 'a storage_state_scheme) option" where
  "storage_write_block s block_number data =
     (if block_number \<ge> NUM_BLOCKS then Some (-1, s)
      else case storage s of
        None \<Rightarrow> None
      | Some m \<Rightarrow>
          Some (0, s\<lparr>storage := Some (memcpy m (unat (block_number * BLOCK_SIZE)) data 0 BLOCK_SIZE)\<rparr>))"

section \<open>The device as an array of blocks\<close>

text \<open>Byte \<open>i\<close> of block \<open>b\<close>.\<close>
definition disk :: "'a storage_state_scheme \<Rightarrow> nat \<Rightarrow> buf" where
  "disk s b i = (case storage s of None \<Rightarrow> 0 | Some m \<Rightarrow> m (b * BLOCK_SIZE + i))"

definition online :: "'a storage_state_scheme \<Rightarrow> bool" where
  "online s \<longleftrightarrow> storage s \<noteq> None"

lemma block_offset: "b < NUM_BLOCKS \<Longrightarrow> unat (b * BLOCK_SIZE) = unat b * BLOCK_SIZE" for b :: u64
  by (simp add: unat_word_ariths word_less_nat_alt)

text \<open>The device with block \<open>b\<close> overwritten.\<close>
definition put_block :: "'a storage_state_scheme \<Rightarrow> nat \<Rightarrow> buf \<Rightarrow> 'a storage_state_scheme" where
  "put_block s b data =
     s\<lparr>storage := map_option (\<lambda>m. memcpy m (b * BLOCK_SIZE) data 0 BLOCK_SIZE) (storage s)\<rparr>"

lemma storage_read_block_ok:
  assumes "online s" "b < NUM_BLOCKS"
  shows "storage_read_block s b data = Some (0, \<lambda>i. if i < BLOCK_SIZE then disk s (unat b) i else data i)"
proof -
  from assms obtain m where "storage s = Some m"
    by (auto simp: online_def)
  with assms show ?thesis
    by (auto simp: storage_read_block_def disk_def block_offset memcpy_def not_le)
qed

lemma storage_write_block_ok:
  assumes "online s" "b < NUM_BLOCKS"
  shows "storage_write_block s b data = Some (0, put_block s (unat b) data)"
  using assms by (auto simp: storage_write_block_def put_block_def online_def block_offset not_le)

lemma online_put_block [frame_simps, simp]: "online (put_block s b data) = online s"
  by (simp add: online_def put_block_def)

lemma disk_put_block [frame_simps]:
  assumes "online s" "i < BLOCK_SIZE"
  shows "disk (put_block s b data) c i = (if c = b then data i else disk s c i)"
proof -
  from assms(1) obtain m where m: "storage s = Some m"
    by (auto simp: online_def)
  show ?thesis
  proof (cases "c = b")
    case True
    with m assms(2) show ?thesis by (simp add: disk_def put_block_def)
  next
    case False
    then have "c < b \<or> b < c" by arith
    with assms(2) have "c * 4096 + i < b * 4096 \<or> b * 4096 + 4096 \<le> c * 4096 + i" by linarith
    with m False show ?thesis by (simp add: disk_def put_block_def)
  qed
qed

text \<open>\<open>s'\<close> differs from \<open>s\<close> in the device contents only.\<close>
definition only_storage :: "'a storage_state_scheme \<Rightarrow> 'a storage_state_scheme \<Rightarrow> bool" where
  "only_storage s s' \<longleftrightarrow> s' = s\<lparr>storage := storage s'\<rparr>"

lemma only_storage_refl [simp, intro]: "only_storage s s"
  by (simp add: only_storage_def)

lemma only_storage_put_block [simp, intro]: "only_storage s (put_block s b d)"
  by (simp add: only_storage_def put_block_def)

lemma only_storage_trans [trans]:
  assumes "only_storage s s'" "only_storage s' s''"
  shows "only_storage s s''"
proof -
  from assms obtain m m' where "s' = s\<lparr>storage := m\<rparr>" "s'' = s'\<lparr>storage := m'\<rparr>"
    unfolding only_storage_def by blast
  then show ?thesis by (simp add: only_storage_def)
qed

lemma storage_out_of_range:
  assumes "b \<ge> NUM_BLOCKS"
  shows "storage_read_block s b data = Some (-1, data)" "storage_write_block s b data = Some (-1, s)"
  using assms by (simp_all add: storage_read_block_def storage_write_block_def)

end
