(* ===== verification/Allocator.thy ===== *)
theory Allocator imports Main begin

text \<open>
  The contract of a first-fit allocator of numbered units over a bitmap: the disk-block
  bitmap of the filesystem (\<open>HW4-skeleton/bitmap.c\<close>) and the physical-frame bitmap of the
  memory simulator (\<open>HW3-skeleton/frame.c\<close>, one frame at a time) both provide it. Their
  clients use the lemmas proved here through the interpretations in those theories.
\<close>

locale unit_allocator =
  fixes invar :: "'s \<Rightarrow> bool"
    and used :: "'s \<Rightarrow> nat \<Rightarrow> bool"
    and base :: "'s \<Rightarrow> nat"
    and cap :: nat
    and alloc :: "'s \<Rightarrow> (int \<times> 's) option"
  assumes alloc_free: "invar s \<Longrightarrow> base s \<le> b \<Longrightarrow> b < cap \<Longrightarrow> \<not> used s b \<Longrightarrow>
      \<exists>b' s'. b' \<le> b \<and> alloc s = Some (int b', s') \<and> base s \<le> b' \<and> \<not> used s b' \<and>
        invar s' \<and> used s' = (used s)(b' := True) \<and> base s' = base s"
    and alloc_full: "invar s \<Longrightarrow> (\<forall>b. base s \<le> b \<and> b < cap \<longrightarrow> used s b) \<Longrightarrow>
      alloc s = Some (-1, s)"
begin

text \<open>An allocation either hands out a fresh unit or reports exhaustion and does nothing.\<close>

lemma alloc_cases:
  assumes "invar s"
  obtains (fresh) b s' where "alloc s = Some (int b, s')" "base s \<le> b" "b < cap" "\<not> used s b"
      "invar s'" "used s' = (used s)(b := True)" "base s' = base s"
      "\<And>c. base s \<le> c \<Longrightarrow> c < b \<Longrightarrow> used s c"
  | (full) "alloc s = Some (-1, s)" "\<And>b. base s \<le> b \<Longrightarrow> b < cap \<Longrightarrow> used s b"
proof (cases "\<exists>b. base s \<le> b \<and> b < cap \<and> \<not> used s b")
  case True
  then obtain b where b: "base s \<le> b" "b < cap" "\<not> used s b" by blast
  from alloc_free [OF assms b] obtain b' s' where
    new: "b' \<le> b" "alloc s = Some (int b', s')" "base s \<le> b'" "\<not> used s b'"
      "invar s'" "used s' = (used s)(b' := True)" "base s' = base s" by blast
  have "used s c" if "base s \<le> c" "c < b'" for c
  proof (rule ccontr)
    assume "\<not> used s c"
    with alloc_free [OF assms that(1), of] that(2) b(2) new(1,2) show False
      by fastforce
  qed
  with new b(2) show thesis by (intro fresh [of b' s']) auto
next
  case False
  then show thesis using alloc_full [OF assms] by (intro full) auto
qed

lemma alloc_total: "invar s \<Longrightarrow> alloc s \<noteq> None"
  by (erule alloc_cases) simp_all

lemma alloc_keeps_invar: "invar s \<Longrightarrow> alloc s = Some (r, s') \<Longrightarrow> invar s'"
  by (rule alloc_cases [of s]) auto

lemma alloc_keeps_used: "invar s \<Longrightarrow> alloc s = Some (r, s') \<Longrightarrow> used s c \<Longrightarrow> used s' c"
  by (rule alloc_cases [of s]) auto

text \<open>Two allocations in a row never hand out the same unit.\<close>

lemma alloc_twice_distinct:
  assumes "invar s" "alloc s = Some (r1, s1)" "alloc s1 = Some (r2, s2)" "r1 \<noteq> -1" "r2 \<noteq> -1"
  shows "r1 \<noteq> r2"
proof -
  from assms(1) obtain b where b: "r1 = int b" "used s1 b" "invar s1"
    by (rule alloc_cases) (use assms(2,4) in auto)
  from b(3) obtain c where "r2 = int c" "\<not> used s1 c"
    by (rule alloc_cases) (use assms(3,5) in auto)
  with b show ?thesis by auto
qed

text \<open>A free unit below a limit makes the next allocation stay below that limit.\<close>

lemma alloc_below:
  assumes "invar s" "base s \<le> b" "b < cap" "\<not> used s b"
  obtains b' s' where "alloc s = Some (int b', s')" "b' \<le> b" "base s \<le> b'" "\<not> used s b'"
    "invar s'" "used s' = (used s)(b' := True)" "base s' = base s"
  using alloc_free [OF assms] by blast

end

text \<open>
  An allocator that also says what it leaves alone: \<open>keeps\<close> relates the states before
  and after, for instance by the contents of everything outside the bitmap.
\<close>

locale framed_allocator = unit_allocator +
  fixes keeps :: "'s \<Rightarrow> 's \<Rightarrow> bool"
  assumes alloc_keeps: "invar s \<Longrightarrow> alloc s = Some (r, s') \<Longrightarrow> keeps s s'"
begin

lemma alloc_below_keeps:
  assumes "invar s" "base s \<le> b" "b < cap" "\<not> used s b"
  obtains b' s' where "alloc s = Some (int b', s')" "b' \<le> b" "base s \<le> b'" "\<not> used s b'"
    "used s' = (used s)(b' := True)" "keeps s s'"
proof -
  obtain b' s' where new: "alloc s = Some (int b', s')" "b' \<le> b" "base s \<le> b'" "\<not> used s b'"
    "used s' = (used s)(b' := True)"
    by (rule alloc_below [OF assms])
  from alloc_keeps [OF assms(1) new(1)] new show thesis by (intro that)
qed

end

end
