(* ===== verification/Bitmap.thy ===== *)
theory Bitmap imports Storage Allocator begin

text \<open>
  The block allocator of \<open>HW4-skeleton/bitmap.c\<close>: four static variables over the
  storage, a first-fit search over the bits of the bitmap blocks, and the release of a
  block. A bit that is set means that the block with that number is in use.
\<close>

record bitmap_state = storage_state +
  bitmap_first_block :: u64
  bitmap_number_blocks :: u64
  first_allocatable :: u64
  last_allocatable :: u64

definition bitmap_init ::
    "u64 \<Rightarrow> u64 \<Rightarrow> u64 \<Rightarrow> 'a bitmap_state_scheme \<Rightarrow> 'a bitmap_state_scheme" where
  "bitmap_init number_inode_blocks number_bitmap_blocks number_blocks s =
     s\<lparr>bitmap_first_block := number_inode_blocks,
       bitmap_number_blocks := number_bitmap_blocks,
       first_allocatable := number_inode_blocks + number_bitmap_blocks,
       last_allocatable := number_blocks - 1\<rparr>"

text \<open>
  The test of the innermost loop body, for bit \<open>k\<close> of byte \<open>j\<close> of bitmap block \<open>i\<close>.
  The loop counters are \<open>int\<close>s in the code; with the single bitmap block that
  \<open>format\<close> sets up they stay far from the limits of that type.
\<close>
definition scan_bit :: "u64 \<Rightarrow> nat \<Rightarrow> buf \<Rightarrow> nat \<Rightarrow> nat \<Rightarrow> (nat \<times> nat) option" where
  "scan_bit first i block j k =
     (let referenced_block = of_nat (i * BLOCK_SIZE + j * 8 + k) :: u64
      in if referenced_block \<ge> first \<and> block j AND push_bit k 1 = 0 then Some (j, k) else None)"

definition scan_block :: "u64 \<Rightarrow> nat \<Rightarrow> buf \<Rightarrow> (nat \<times> nat) option" where
  "scan_block first i block =
     first_some (\<lambda>j. first_some (\<lambda>k. scan_bit first i block j k) 0 8) 0 BLOCK_SIZE"

function bitmap_alloc_loop ::
    "nat \<Rightarrow> buf \<Rightarrow> 'a bitmap_state_scheme \<Rightarrow> (int \<times> 'a bitmap_state_scheme) option" where
  "bitmap_alloc_loop i block s =
     (if i < unat (bitmap_number_blocks s) then
        do {
          (_, block) \<leftarrow> storage_read_block s (of_nat i + bitmap_first_block s) block;
          (case scan_block (first_allocatable s) i block of
             Some (j, k) \<Rightarrow>
               do {
                 let block = block(j := block j OR push_bit k 1);
                 (_, s') \<leftarrow> storage_write_block s (of_nat i + bitmap_first_block s) block;
                 Some (u64_to_int (of_nat (i * BLOCK_SIZE + j * 8 + k)), s')
               }
           | None \<Rightarrow> bitmap_alloc_loop (Suc i) block s)
        }
      else Some (-1, s))"
  by pat_completeness auto
termination by (relation "measure (\<lambda>(i, block, s). unat (bitmap_number_blocks s) - i)") auto

declare bitmap_alloc_loop.simps [simp del]

text \<open>\<open>junk\<close> is the uninitialised stack buffer \<open>block\<close>.\<close>
definition bitmap_allocate_block ::
    "buf \<Rightarrow> 'a bitmap_state_scheme \<Rightarrow> (int \<times> 'a bitmap_state_scheme) option" where
  "bitmap_allocate_block junk s = bitmap_alloc_loop 0 junk s"

definition bitmap_deallocate_block ::
    "buf \<Rightarrow> u64 \<Rightarrow> 'a bitmap_state_scheme \<Rightarrow> 'a bitmap_state_scheme option" where
  "bitmap_deallocate_block junk block_number s =
     (let disk_block_number = u64_to_int (block_number div (BLOCK_SIZE * 8));
          disk_block_offset = unat (block_number mod (BLOCK_SIZE * 8));
          disk_block_byte = disk_block_offset div 8;
          disk_block_bit = disk_block_offset mod 8
      in do {
        (_, block) \<leftarrow> storage_read_block s (bitmap_first_block s + int_to_u64 disk_block_number) junk;
        let block = block(disk_block_byte := block disk_block_byte AND NOT (push_bit disk_block_bit 1));
        (_, s') \<leftarrow> storage_write_block s (int_to_u64 disk_block_number) block;
        Some s'
      })"

section \<open>The bitmap as a set of used blocks\<close>

definition bitmap_used :: "'a bitmap_state_scheme \<Rightarrow> nat \<Rightarrow> bool" where
  "bitmap_used s b \<longleftrightarrow> b < BLOCK_SIZE * 8 \<and> bit (disk s (unat (bitmap_first_block s)) (b div 8)) (b mod 8)"

text \<open>What \<open>bitmap_init\<close> is called with: one bitmap block, and allocation behind it.\<close>
definition bitmap_wf :: "'a bitmap_state_scheme \<Rightarrow> bool" where
  "bitmap_wf s \<longleftrightarrow> online s \<and> bitmap_number_blocks s = 1 \<and>
     unat (first_allocatable s) = unat (bitmap_first_block s) + 1 \<and>
     unat (first_allocatable s) < NUM_BLOCKS"

abbreviation bitmap_base :: "'a bitmap_state_scheme \<Rightarrow> nat" where
  "bitmap_base s \<equiv> unat (first_allocatable s)"

text \<open>The state after the bit of block \<open>b\<close> has been set.\<close>
definition mark_used :: "'a bitmap_state_scheme \<Rightarrow> nat \<Rightarrow> 'a bitmap_state_scheme" where
  "mark_used s b =
     (let m = unat (bitmap_first_block s)
      in put_block s m ((disk s m)(b div 8 := disk s m (b div 8) OR push_bit (b mod 8) 1)))"

lemma storage_fields [simp]:
  "bitmap_first_block (put_block s b d) = bitmap_first_block s"
  "bitmap_number_blocks (put_block s b d) = bitmap_number_blocks s"
  "first_allocatable (put_block s b d) = first_allocatable s"
  "last_allocatable (put_block s b d) = last_allocatable s"
  by (simp_all add: put_block_def)

lemma put_block_cong:
  assumes "\<And>i. i < BLOCK_SIZE \<Longrightarrow> d i = d' i"
  shows "put_block s b d = put_block s b d'"
proof -
  have "memcpy m (b * 4096) d 0 4096 = memcpy m (b * 4096) d' 0 4096" for m
    using assms by (intro memcpy_cong) simp
  then show ?thesis by (simp add: put_block_def)
qed

lemma scan_bit_eq:
  assumes "j < BLOCK_SIZE" "k < 8"
  shows "scan_bit first 0 block j k =
    (if unat first \<le> j * 8 + k \<and> \<not> bit (block j) k then Some (j, k) else None)"
proof -
  have "unat (of_nat (j * 8 + k) :: u64) = j * 8 + k"
    using assms by (intro unat_of_nat_u64) simp
  then show ?thesis
    by (simp add: scan_bit_def word_le_nat_alt and_exp_eq_0_iff_not_bit)
qed

text \<open>The search finds the first clear bit that may be allocated.\<close>

lemma scan_block_cases:
  obtains (hit) b where "scan_block first 0 block = Some (b div 8, b mod 8)" "unat first \<le> b"
      "b < BLOCK_SIZE * 8" "\<not> bit (block (b div 8)) (b mod 8)"
      "\<And>c. unat first \<le> c \<Longrightarrow> c < b \<Longrightarrow> bit (block (c div 8)) (c mod 8)"
  | (full) "scan_block first 0 block = None"
      "\<And>c. unat first \<le> c \<Longrightarrow> c < BLOCK_SIZE * 8 \<Longrightarrow> bit (block (c div 8)) (c mod 8)"
proof -
  let ?row = "\<lambda>j. first_some (\<lambda>k. scan_bit first 0 block j k) 0 8"
  have row_None: "bit (block (c div 8)) (c mod 8)"
    if "?row (c div 8) = None" "unat first \<le> c" "c < 4096 * 8" for c
  proof -
    from that(1) have "scan_bit first 0 block (c div 8) (c mod 8) = None"
      by (simp add: first_some_None_iff)
    with that(2,3) show ?thesis
      by (auto simp: scan_bit_eq less_mult_imp_div_less split: if_splits)
  qed
  show thesis
  proof (cases rule: first_some_cases [of ?row 0 4096])
    case none
    then show ?thesis
      by (intro full) (auto simp: scan_block_def intro!: row_None)
  next
    case (hit j y)
    from hit(2) show ?thesis
    proof (cases rule: first_some_cases [of "\<lambda>k. scan_bit first 0 block j k" 0 8])
      case none
      with hit(2) show ?thesis by simp
    next
      case (hit k z)
      note inner = this
      have jk: "unat first \<le> j * 8 + k" "\<not> bit (block j) k" "y = (j, k)"
        using inner(1,2,4) \<open>?row j = Some y\<close> \<open>j < 4096\<close>
        by (auto simp: scan_bit_eq split: if_splits)
      have before: "bit (block (c div 8)) (c mod 8)" if c: "unat first \<le> c" "c < j * 8 + k" for c
      proof (cases "c div 8 < j")
        case True
        then have "c < 4096 * 8" using c inner(4) \<open>j < 4096\<close> by linarith
        with True c(1) show ?thesis
          using \<open>\<And>z. 0 \<le> z \<Longrightarrow> z < j \<Longrightarrow> ?row z = None\<close> by (intro row_None) auto
      next
        case False
        with c(2) inner(4) have j: "c div 8 = j" by linarith
        moreover have "c = c div 8 * 8 + c mod 8" by simp
        ultimately have "c mod 8 < k" using c(2) by linarith
        with j show ?thesis
          using inner(5) [of "c mod 8"] c(1) inner(4) \<open>j < 4096\<close>
          by (auto simp: scan_bit_eq split: if_splits)
      qed
      show ?thesis
        using jk before inner(4) \<open>j < 4096\<close> \<open>first_some ?row 0 4096 = Some y\<close>
        by (intro that(1) [of "j * 8 + k"]) (auto simp: scan_block_def)
    qed
  qed
qed


section \<open>Allocation\<close>

lemma scan_block_cong:
  "(\<And>j. j < BLOCK_SIZE \<Longrightarrow> d j = d' j) \<Longrightarrow> scan_block first i d = scan_block first i d'"
  unfolding scan_block_def by (intro first_some_cong) (simp add: scan_bit_def)

lemma bitmap_used_mark_used:
  assumes "online s" "b < BLOCK_SIZE * 8"
  shows "bitmap_used (mark_used s b) = (bitmap_used s)(b := True)"
proof
  fix c
  show "bitmap_used (mark_used s b) c = ((bitmap_used s)(b := True)) c"
  proof (cases "c < BLOCK_SIZE * 8")
    case True
    then have c: "c div 8 < 4096" by (simp add: less_mult_imp_div_less)
    have "c = b \<longleftrightarrow> c div 8 = b div 8 \<and> c mod 8 = b mod 8"
      by (metis div_mod_decomp)
    with c True show ?thesis
      using assms(1) unfolding bitmap_used_def mark_used_def Let_def
      by (auto simp: disk_put_block bit_simps)
  next
    case False
    with assms(2) show ?thesis by (auto simp: bitmap_used_def)
  qed
qed

lemma disk_mark_used:
  assumes "online s" "n \<noteq> unat (bitmap_first_block s)" "i < BLOCK_SIZE"
  shows "disk (mark_used s b) n i = disk s n i"
  using assms by (simp add: mark_used_def Let_def disk_put_block)

lemma bitmap_wf_mark_used [simp]: "bitmap_wf (mark_used s b) = bitmap_wf s"
  by (simp add: bitmap_wf_def mark_used_def Let_def)

lemma bitmap_base_mark_used [simp]: "first_allocatable (mark_used s b) = first_allocatable s"
  by (simp add: mark_used_def Let_def)

lemma bitmap_allocate_block_eq:
  assumes "bitmap_wf s"
  shows "bitmap_allocate_block junk s =
    (case scan_block (first_allocatable s) 0 (disk s (unat (bitmap_first_block s))) of
       Some (j, k) \<Rightarrow> Some (u64_to_int (of_nat (j * 8 + k)), mark_used s (j * 8 + k))
     | None \<Rightarrow> Some (-1, s))"
proof -
  let ?m = "bitmap_first_block s"
  define block where "block = (\<lambda>i. if i < 4096 then disk s (unat ?m) i else junk i)"
  from assms have on: "online s" and m: "?m < 16384" and n: "unat (bitmap_number_blocks s) = 1"
    by (auto simp: bitmap_wf_def word_less_nat_alt)
  have read: "storage_read_block s ?m junk = Some (0, block)"
    using storage_read_block_ok [OF on m] by (simp add: block_def)
  have same: "scan_block (first_allocatable s) 0 block =
      scan_block (first_allocatable s) 0 (disk s (unat ?m))"
    by (rule scan_block_cong) (simp add: block_def)
  have mark: "put_block s (unat ?m) (block(j := block j OR push_bit k 1)) = mark_used s (j * 8 + k)"
    if "scan_block (first_allocatable s) 0 block = Some (j, k)" for j k
  proof -
    from that obtain b where "j = b div 8" "k = b mod 8" "b < 32768"
      by (cases rule: scan_block_cases [of "first_allocatable s" block]) auto
    then have "j < 4096" "k < 8"
      by (simp_all add: less_mult_imp_div_less)
    then show ?thesis
      unfolding mark_used_def Let_def by (intro put_block_cong) (auto simp: block_def)
  qed
  show ?thesis
    unfolding bitmap_allocate_block_def
    by (subst bitmap_alloc_loop.simps, simp add: n read same [symmetric],
        subst bitmap_alloc_loop.simps)
      (auto simp: n mark storage_write_block_ok [OF on m] simp del: push_bit_of_1 split: option.split)
qed

text \<open>The allocator hands out the first block whose bit is clear, and sets its bit.\<close>

lemma bitmap_allocate_block_cases:
  assumes "bitmap_wf s"
  obtains (got) b where "bitmap_allocate_block junk s = Some (int b, mark_used s b)"
      "bitmap_base s \<le> b" "b < BLOCK_SIZE * 8" "\<not> bitmap_used s b"
      "\<And>c. bitmap_base s \<le> c \<Longrightarrow> c < b \<Longrightarrow> bitmap_used s c"
  | (full) "bitmap_allocate_block junk s = Some (-1, s)"
      "\<And>c. bitmap_base s \<le> c \<Longrightarrow> c < BLOCK_SIZE * 8 \<Longrightarrow> bitmap_used s c"
proof (cases rule: scan_block_cases [of "first_allocatable s" "disk s (unat (bitmap_first_block s))"])
  case (hit b)
  from hit(3) have "u64_to_int (of_nat b) = int b"
    by (subst u64_to_int_small) simp_all
  moreover have "b div 8 * 8 + b mod 8 = b" by simp
  ultimately have "bitmap_allocate_block junk s = Some (int b, mark_used s b)"
    by (simp only: bitmap_allocate_block_eq [OF assms] hit(1) option.case prod.case)
  with hit show thesis
    by (intro got [of b]) (auto simp: bitmap_used_def)
next
  case full
  then show thesis
    by (intro that(2)) (auto simp: bitmap_allocate_block_eq [OF assms] bitmap_used_def)
qed

text \<open>Allocation writes the bitmap block only.\<close>
definition outside_bitmap_same :: "'a bitmap_state_scheme \<Rightarrow> 'a bitmap_state_scheme \<Rightarrow> bool" where
  "outside_bitmap_same s s' \<longleftrightarrow> online s' = online s \<and> only_storage s s' \<and>
     (\<forall>b x. b \<noteq> unat (bitmap_first_block s) \<and> x < BLOCK_SIZE \<longrightarrow> disk s' b x = disk s b x)"

lemma outside_bitmap_mark_used:
  assumes "online s"
  shows "outside_bitmap_same s (mark_used s b)"
  using assms disk_mark_used [OF assms]
  by (auto simp: outside_bitmap_same_def) (auto simp: mark_used_def Let_def)

interpretation disk: framed_allocator bitmap_wf bitmap_used bitmap_base "BLOCK_SIZE * 8"
    "bitmap_allocate_block junk" outside_bitmap_same for junk
proof unfold_locales
  fix s :: "'a bitmap_state_scheme" and b
  assume wf: "bitmap_wf s" and free: "bitmap_base s \<le> b" "b < BLOCK_SIZE * 8" "\<not> bitmap_used s b"
  from wf have on: "online s" by (simp add: bitmap_wf_def)
  show "\<exists>b' s'. b' \<le> b \<and> bitmap_allocate_block junk s = Some (int b', s') \<and> bitmap_base s \<le> b' \<and>
      \<not> bitmap_used s b' \<and> bitmap_wf s' \<and> bitmap_used s' = (bitmap_used s)(b' := True) \<and>
      bitmap_base s' = bitmap_base s"
  using wf proof (cases rule: bitmap_allocate_block_cases [where junk = junk])
    case (got b')
    then have "b' \<le> b" using free by (meson not_le)
    with got wf on show ?thesis
      by (intro exI [of _ b'] exI [of _ "mark_used s b'"]) (simp add: bitmap_used_mark_used)
  next
    case full
    with free show ?thesis by blast
  qed
next
  fix s :: "'a bitmap_state_scheme"
  assume wf: "bitmap_wf s" and all: "\<forall>b. bitmap_base s \<le> b \<and> b < BLOCK_SIZE * 8 \<longrightarrow> bitmap_used s b"
  show "bitmap_allocate_block junk s = Some (-1, s)"
    using wf by (cases rule: bitmap_allocate_block_cases [where junk = junk]) (use all in blast)+
next
  fix s s' :: "'a bitmap_state_scheme" and r
  assume wf: "bitmap_wf s" and run: "bitmap_allocate_block junk s = Some (r, s')"
  from wf have on: "online s" by (simp add: bitmap_wf_def)
  from wf show "outside_bitmap_same s s'"
    by (cases rule: bitmap_allocate_block_cases [where junk = junk])
      (use run in \<open>auto simp: outside_bitmap_mark_used [OF on], simp add: outside_bitmap_same_def\<close>)
qed

section \<open>Deallocation\<close>

text \<open>
  The release reads the bitmap block, clears the bit in the local copy, and writes the copy
  back to block \<open>disk_block_number\<close>: the offset \<open>bitmap_first_block\<close> is missing in the
  write, so the bitmap on disk keeps its bit and block 0 (inodes) is overwritten.
\<close>

lemma bitmap_deallocate_block_eq:
  assumes wf: "bitmap_wf s" and b: "unat b < BLOCK_SIZE * 8"
  defines "m \<equiv> unat (bitmap_first_block s)"
  shows "bitmap_deallocate_block junk b s =
    Some (put_block s 0 ((disk s m)(unat b div 8 :=
      disk s m (unat b div 8) AND NOT (push_bit (unat b mod 8) 1))))"
proof -
  let ?m = "bitmap_first_block s"
  from wf have on: "online s" and mb: "?m < 16384"
    by (auto simp: bitmap_wf_def word_less_nat_alt)
  have "unat (b div 32768) = 0"
    using b by (simp add: unat_div)
  then have q: "u64_to_int (b div 32768) = 0"
    by (simp add: u64_to_int_small)
  have r: "unat (b mod 32768) = unat b"
    using b by (simp add: unat_mod)
  have byte: "unat b div 8 < 4096"
    using b by (simp add: less_mult_imp_div_less)
  have store: "storage_write_block s 0 d = Some (0, put_block s 0 d)" for d
    using storage_write_block_ok [OF on, of 0] by simp
  show ?thesis
    using byte unfolding bitmap_deallocate_block_def m_def
    by (simp add: Let_def q r storage_read_block_ok [OF on mb] store int_to_u64_def)
      (rule put_block_cong, simp)
qed

end
