(* ===== verification/Inode.thy ===== *)
theory Inode imports Bitmap begin

text \<open>
  The on-disk records of \<open>HW4-skeleton/files.h\<close>: an inode is 32 bytes (three 16-bit
  words, a 16-bit word whose lowest bit is \<open>flags_used\<close>, and three 64-bit words, all little
  endian), a pointer block is 512 little-endian 64-bit entries. A buffer is read and
  written field by field, as the C code does through its struct pointers.
\<close>

definition sizeof_inode :: nat where
  "sizeof_inode = 32"

record inode_t =
  owner_uid :: u16
  owner_gid :: u16
  permissions :: u16
  flags_used :: bool
  flags_reserved :: u16
  inode_size :: u64
  general_reserved :: u64
  head_pointer_block :: u64

definition get_u16 :: "buf \<Rightarrow> nat \<Rightarrow> u16" where
  "get_u16 b off = ucast (b off) OR push_bit 8 (ucast (b (off + 1)))"

text \<open>The inode at index \<open>n\<close> of an array of inodes.\<close>
definition inode_at :: "buf \<Rightarrow> nat \<Rightarrow> inode_t" where
  "inode_at b n =
     (let o' = n * sizeof_inode
      in \<lparr>owner_uid = get_u16 b o', owner_gid = get_u16 b (o' + 2), permissions = get_u16 b (o' + 4),
          flags_used = bit (b (o' + 6)) 0, flags_reserved = drop_bit 1 (get_u16 b (o' + 6)),
          inode_size = get_u64 b (o' + 8), general_reserved = get_u64 b (o' + 16),
          head_pointer_block = get_u64 b (o' + 24)\<rparr>)"

definition set_size :: "buf \<Rightarrow> nat \<Rightarrow> u64 \<Rightarrow> buf" where
  "set_size b n v = put_u64 b (n * sizeof_inode + 8) v"

definition set_head :: "buf \<Rightarrow> nat \<Rightarrow> u64 \<Rightarrow> buf" where
  "set_head b n v = put_u64 b (n * sizeof_inode + 24) v"

definition set_flags_used :: "buf \<Rightarrow> nat \<Rightarrow> buf" where
  "set_flags_used b n = b(n * sizeof_inode + 6 := b (n * sizeof_inode + 6) OR 1)"

text \<open>Entry \<open>i\<close> of a pointer block; an index outside the 512 entries is undefined behaviour.\<close>
definition pointer_entry :: "buf \<Rightarrow> int \<Rightarrow> u64 option" where
  "pointer_entry p i = (if 0 \<le> i \<and> i < 512 then Some (get_u64 p (8 * nat i)) else None)"

lemma inode_at_cong:
  assumes "\<And>i. i < sizeof_inode \<Longrightarrow> b (n * sizeof_inode + i) = b' (n * sizeof_inode + i)"
  shows "inode_at b n = inode_at b' n"
proof -
  have 64: "get_u64 b (n * sizeof_inode + k) = get_u64 b' (n * sizeof_inode + k)"
    if "k + 8 \<le> sizeof_inode" for k
    using assms that by (intro get_u64_cong) (simp add: add.assoc)
  have 16: "get_u16 b (n * sizeof_inode + k) = get_u16 b' (n * sizeof_inode + k)"
    if "k + 2 \<le> sizeof_inode" for k
    using assms [of k] assms [of "Suc k"] that by (simp add: get_u16_def)
  show ?thesis
    using 64 [of 8] 64 [of 16] 64 [of 24] 16 [of 0] 16 [of 2] 16 [of 4] 16 [of 6] assms [of 6]
    by (simp add: inode_at_def Let_def sizeof_inode_def)
qed

text \<open>What the three assignments of the code change, and what they leave.\<close>

lemma inode_at_set:
  "inode_at (set_size b n v) n = (inode_at b n)\<lparr>inode_size := v\<rparr>"
  "inode_at (set_head b n v) n = (inode_at b n)\<lparr>head_pointer_block := v\<rparr>"
  "inode_at (set_flags_used b n) n = (inode_at b n)\<lparr>flags_used := True\<rparr>"
proof -
  show "inode_at (set_size b n v) n = (inode_at b n)\<lparr>inode_size := v\<rparr>"
    "inode_at (set_head b n v) n = (inode_at b n)\<lparr>head_pointer_block := v\<rparr>"
    by (simp_all add: inode_at_def set_size_def set_head_def Let_def sizeof_inode_def
        get_put_u64_other get_u16_def put_u64_apply_other)
  have 8: "ucast (x OR 1 :: u8) = (ucast x OR 1 :: u16)" for x
    by (rule bit_word_eqI) (auto simp: bit_simps)
  have "drop_bit 1 ((ucast (x OR 1) OR y) :: u16) = drop_bit 1 (ucast x OR y)" for x :: u8 and y
    unfolding 8 by (rule bit_word_eqI) (auto simp: bit_simps)
  moreover have "get_u64 (set_flags_used b n) (n * 32 + k) = get_u64 b (n * 32 + k)" if "8 \<le> k" for k
    using that by (intro get_u64_cong) (simp add: set_flags_used_def sizeof_inode_def)
  ultimately show "inode_at (set_flags_used b n) n = (inode_at b n)\<lparr>flags_used := True\<rparr>"
    by (simp add: inode_at_def Let_def sizeof_inode_def get_u16_def)
      (simp add: set_flags_used_def sizeof_inode_def bit_simps)
qed

lemma inode_at_set_other:
  assumes "m \<noteq> n"
  shows "inode_at (set_size b n v) m = inode_at b m"
    "inode_at (set_head b n v) m = inode_at b m"
    "inode_at (set_flags_used b n) m = inode_at b m"
  using assms unfolding set_size_def set_head_def set_flags_used_def sizeof_inode_def
  by (intro inode_at_cong, (cases "m < n"; simp add: put_u64_def sizeof_inode_def))+

end
