(* ===== verification/Files.thy ===== *)
theory Files imports Inode begin

text \<open>
  The filesystem operations of \<open>HW4-skeleton/files.c\<close> over the storage and the block
  bitmap: formatting, creating, growing, reading and writing a file by inode number. The
  argument \<open>junk\<close> of an operation gives the contents of its uninitialised stack
  buffers; an inode array is the buffer \<open>buf1\<close>, a pointer block the buffer \<open>buf2\<close>.
\<close>

abbreviation MAX_FILES :: "'a::numeral" where
  "MAX_FILES \<equiv> 1024"

type_synonym junk = "nat \<Rightarrow> buf"

record fs_state = bitmap_state +
  inodes_per_block :: int
  number_inode_blocks :: u64
  number_bitmap_blocks :: u64

definition div_up :: "int \<Rightarrow> int \<Rightarrow> int" where
  "div_up a b = (if a mod b = 0 then a div b else a div b + 1)"

section \<open>Formatting\<close>

text \<open>\<open>for(int i = lo; i < hi; i++) storage_write_block(i, block);\<close>\<close>
function write_blocks ::
    "nat \<Rightarrow> nat \<Rightarrow> buf \<Rightarrow> 'a storage_state_scheme \<Rightarrow> 'a storage_state_scheme option" where
  "write_blocks i hi block s =
     (if i < hi then
        do {
          (_, s) \<leftarrow> storage_write_block s (of_nat i) block;
          write_blocks (Suc i) hi block s
        }
      else Some s)"
  by pat_completeness auto
termination by (relation "measure (\<lambda>(i, hi, block, s). hi - i)") auto

declare write_blocks.simps [simp del]

definition format :: "junk \<Rightarrow> 'a fs_state_scheme \<Rightarrow> 'a fs_state_scheme option" where
  "format junk s =
     (let zeroed_block = memset (junk 0) 0 0 BLOCK_SIZE;
          s = s\<lparr>inodes_per_block := BLOCK_SIZE div int sizeof_inode\<rparr>;
          s = s\<lparr>number_inode_blocks := int_to_u64 (div_up MAX_FILES (inodes_per_block s))\<rparr>
      in do {
        s \<leftarrow> write_blocks 0 (unat (number_inode_blocks s)) zeroed_block s;
        let s = s\<lparr>number_bitmap_blocks := int_to_u64 (div_up NUM_BLOCKS (BLOCK_SIZE * 8))\<rparr>;
        s \<leftarrow> write_blocks (unat (number_inode_blocks s))
               (unat (number_inode_blocks s + number_bitmap_blocks s)) zeroed_block s;
        Some (bitmap_init (number_inode_blocks s) (number_bitmap_blocks s) NUM_BLOCKS s)
      })"

section \<open>Creating a file\<close>

text \<open>The block of an inode and its index in that block.\<close>
definition inode_block :: "'a fs_state_scheme \<Rightarrow> u64 \<Rightarrow> u64" where
  "inode_block s inode_number = inode_number div int_to_u64 (inodes_per_block s)"

definition inode_index :: "'a fs_state_scheme \<Rightarrow> u64 \<Rightarrow> nat" where
  "inode_index s inode_number = unat (inode_number mod int_to_u64 (inodes_per_block s))"

text \<open>
  \<open>inode_t buf1[inodes_per_block]\<close> followed by the read of the inode's block: the array
  needs a positive size, and the block must fit into it.
\<close>
definition read_inode_block :: "junk \<Rightarrow> u64 \<Rightarrow> 'a fs_state_scheme \<Rightarrow> buf option" where
  "read_inode_block junk inode_number s =
     do {
       guard (BLOCK_SIZE \<le> inodes_per_block s * int sizeof_inode);
       (_, buf1) \<leftarrow> storage_read_block s (inode_block s inode_number) (junk 1);
       Some buf1
     }"

definition ifile_create ::
    "junk \<Rightarrow> u64 \<Rightarrow> 'a fs_state_scheme \<Rightarrow> (int \<times> 'a fs_state_scheme) option" where
  "ifile_create junk inode_number s =
     do {
       guard (0 < inodes_per_block s);
       if inode_number > number_inode_blocks s then Some (-1, s)
       else do {
         let current_block = inode_block s inode_number;
         let offset = inode_index s inode_number;
         buf1 \<leftarrow> read_inode_block junk inode_number s;
         let buf1 = set_size buf1 offset 0;
         let buf1 = set_flags_used buf1 offset;
         (b, s) \<leftarrow> bitmap_allocate_block (junk 0) s;
         let buf1 = set_head buf1 offset (int_to_u64 b);
         (_, s) \<leftarrow> storage_write_block s current_block buf1;
         (_, buf2) \<leftarrow> storage_read_block s (head_pointer_block (inode_at buf1 offset)) (junk 2);
         let buf2 = memset buf2 0 0 BLOCK_SIZE;
         (b, s) \<leftarrow> bitmap_allocate_block (junk 0) s;
         let buf2 = put_u64 buf2 0 (int_to_u64 b);
         (_, s) \<leftarrow> storage_write_block s (head_pointer_block (inode_at buf1 offset)) buf2;
         Some (0, s)
       }
     }"

section \<open>Growing a file\<close>

text \<open>
  \<open>for(uint64_t j = i; j >= current_block_number + 1; j--)\<close> of the failure path: block
  number \<open>j\<close> is released and entry \<open>j\<close> invalidated.
\<close>
function grow_undo ::
    "buf \<Rightarrow> u64 \<Rightarrow> u64 \<Rightarrow> buf \<Rightarrow> 'a fs_state_scheme \<Rightarrow> (buf \<times> 'a fs_state_scheme) option" where
  "grow_undo junk j lo block s =
     (if lo \<le> j then
        do {
          s \<leftarrow> bitmap_deallocate_block junk j s;
          (if unat j < 512 then grow_undo junk (j - 1) lo (put_u64 block (8 * unat j) (-1)) s
           else None)
        }
      else Some (block, s))"
  by pat_completeness auto
termination
proof (relation "measure (\<lambda>(junk, j, lo, block, s). if unat j < 512 then Suc (unat j) else 0)", goal_cases)
  case (2 junk j lo block s s')
  then show ?case
    by (cases "j = 0") (auto simp: unat_minus_one unsigned_minus_1_eq_mask mask_eq_exp_minus_1 unat_gt_0 [symmetric])
qed simp

declare grow_undo.simps [simp del]

text \<open>
  \<open>for(uint64_t i = current_block_number + 1; i <= last_block_number; i++)\<close>: each new
  entry gets a freshly allocated block; the first failure undoes and stops.
\<close>
function grow_loop ::
    "buf \<Rightarrow> u64 \<Rightarrow> u64 \<Rightarrow> u64 \<Rightarrow> buf \<Rightarrow> 'a fs_state_scheme \<Rightarrow> (buf \<times> 'a fs_state_scheme) option" where
  "grow_loop junk i lo hi block s =
     (if i \<le> hi then
        do {
          (b, s) \<leftarrow> bitmap_allocate_block junk s;
          (if unat i < 512 then
             let block = put_u64 block (8 * unat i) (int_to_u64 b)
             in if get_u64 block (8 * unat i) = -1 then grow_undo junk i lo block s
                else grow_loop junk (i + 1) lo hi block s
           else None)
        }
      else Some (block, s))"
  by pat_completeness auto
termination
proof (relation "measure (\<lambda>(junk, i, lo, hi, block, s). 512 - unat i)", goal_cases)
  case (2 junk i lo hi block s bs b s' block')
  then have "unat (i + 1) = Suc (unat i)"
    by (simp add: unat_word_ariths split: if_splits)
  with 2 show ?case by simp
qed simp

declare grow_loop.simps [simp del]

text \<open>The result is always 0, and the size is set even when the loop gave up.\<close>
definition ifile_grow ::
    "junk \<Rightarrow> buf \<Rightarrow> nat \<Rightarrow> u64 \<Rightarrow> 'a fs_state_scheme \<Rightarrow> (int \<times> buf \<times> 'a fs_state_scheme) option" where
  "ifile_grow junk buf1 offset new_size s =
     (let inode = inode_at buf1 offset;
          current_block_number = u64_to_int (inode_size inode div BLOCK_SIZE);
          last_block_number = u64_to_int (new_size div BLOCK_SIZE)
      in do {
        guard (current_block_number < 2 ^ 31 - 1);
        (_, block) \<leftarrow> storage_read_block s (head_pointer_block inode) (junk 3);
        (block, s) \<leftarrow> grow_loop (junk 0) (int_to_u64 (current_block_number + 1))
           (int_to_u64 (current_block_number + 1)) (int_to_u64 last_block_number) block s;
        (_, s) \<leftarrow> storage_write_block s (head_pointer_block inode) block;
        Some (0, set_size buf1 offset new_size, s)
      })"

section \<open>Reading and writing through a pointer block\<close>

text \<open>The loops over the intermediate blocks; \<open>position\<close> is the index into the buffer.\<close>
function read_middle ::
    "'a storage_state_scheme \<Rightarrow> buf \<Rightarrow> int \<Rightarrow> int \<Rightarrow> buf \<Rightarrow> buf \<Rightarrow> nat \<Rightarrow> (buf \<times> buf \<times> nat) option" where
  "read_middle s pointers i hi block buffer position =
     (if i \<le> hi then
        do {
          e \<leftarrow> pointer_entry pointers i;
          (_, block) \<leftarrow> storage_read_block s e block;
          let buffer = memcpy buffer position block 0 BLOCK_SIZE;
          read_middle s pointers (i + 1) hi block buffer (position + BLOCK_SIZE)
        }
      else Some (block, buffer, position))"
  by pat_completeness auto
termination by (relation "measure (\<lambda>(s, p, i, hi, b, c, n). nat (hi + 1 - i))") auto

function write_middle ::
    "buf \<Rightarrow> int \<Rightarrow> int \<Rightarrow> buf \<Rightarrow> buf \<Rightarrow> nat \<Rightarrow> 'a storage_state_scheme \<Rightarrow>
      (buf \<times> nat \<times> 'a storage_state_scheme) option" where
  "write_middle pointers i hi block buffer position s =
     (if i \<le> hi then
        do {
          e \<leftarrow> pointer_entry pointers i;
          (_, block) \<leftarrow> storage_read_block s e block;
          let block = memcpy block 0 buffer position BLOCK_SIZE;
          (_, s) \<leftarrow> storage_write_block s e block;
          write_middle pointers (i + 1) hi block buffer (position + BLOCK_SIZE) s
        }
      else Some (block, position, s))"
  by pat_completeness auto
termination by (relation "measure (\<lambda>(p, i, hi, b, c, n, s). nat (hi + 1 - i))") auto

declare read_middle.simps [simp del] write_middle.simps [simp del]

definition pointers_read ::
    "junk \<Rightarrow> 'a storage_state_scheme \<Rightarrow> buf \<Rightarrow> buf \<Rightarrow> u64 \<Rightarrow> u64 \<Rightarrow> (int \<times> buf) option" where
  "pointers_read junk s pointers buffer how_many from_pos =
     (let first_block_number = u64_to_int (from_pos div BLOCK_SIZE);
          first_block_offset = unat (from_pos mod BLOCK_SIZE);
          last_block_number = u64_to_int ((from_pos + how_many) div BLOCK_SIZE);
          last_block_offset = unat ((from_pos + how_many) mod BLOCK_SIZE)
      in if first_block_number = last_block_number then
        do {
          e \<leftarrow> pointer_entry pointers first_block_number;
          (_, block) \<leftarrow> storage_read_block s e (junk 4);
          guard (first_block_offset + unat how_many \<le> BLOCK_SIZE);
          Some (0, memcpy buffer 0 block first_block_offset (unat how_many))
        }
      else
        do {
          e \<leftarrow> pointer_entry pointers first_block_number;
          (_, block) \<leftarrow> storage_read_block s e (junk 4);
          let buffer = memcpy buffer 0 block first_block_offset (BLOCK_SIZE - first_block_offset);
          let position = BLOCK_SIZE - first_block_offset;
          (block, buffer, position) \<leftarrow> read_middle s pointers (first_block_number + 1)
             (last_block_number - 1) block buffer position;
          e \<leftarrow> pointer_entry pointers last_block_number;
          (_, block) \<leftarrow> storage_read_block s e block;
          Some (0, memcpy buffer position block 0 last_block_offset)
        })"

definition pointers_write ::
    "junk \<Rightarrow> buf \<Rightarrow> buf \<Rightarrow> u64 \<Rightarrow> u64 \<Rightarrow> 'a storage_state_scheme \<Rightarrow>
      (int \<times> 'a storage_state_scheme) option" where
  "pointers_write junk pointers buffer how_many to s =
     (let first_block_number = u64_to_int (to div BLOCK_SIZE);
          first_block_offset = unat (to mod BLOCK_SIZE);
          last_block_number = u64_to_int ((to + how_many) div BLOCK_SIZE);
          last_block_offset = unat ((to + how_many) mod BLOCK_SIZE)
      in if first_block_number = last_block_number then
        do {
          e \<leftarrow> pointer_entry pointers first_block_number;
          (_, block) \<leftarrow> storage_read_block s e (junk 4);
          guard (first_block_offset + unat how_many \<le> BLOCK_SIZE);
          let block = memcpy block first_block_offset buffer 0 (unat how_many);
          (_, s) \<leftarrow> storage_write_block s e block;
          Some (0, s)
        }
      else
        do {
          e \<leftarrow> pointer_entry pointers first_block_number;
          (_, block) \<leftarrow> storage_read_block s e (junk 4);
          let block = memcpy block first_block_offset buffer 0 (BLOCK_SIZE - first_block_offset);
          (_, s) \<leftarrow> storage_write_block s e block;
          let position = BLOCK_SIZE - first_block_offset;
          (block, position, s) \<leftarrow> write_middle pointers (first_block_number + 1)
             (last_block_number - 1) block buffer position s;
          e \<leftarrow> pointer_entry pointers last_block_number;
          (_, block) \<leftarrow> storage_read_block s e block;
          let block = memcpy block 0 buffer position last_block_offset;
          (_, s) \<leftarrow> storage_write_block s e block;
          Some (0, s)
        })"

section \<open>Reading and writing a file\<close>

text \<open>The sum \<open>from + how_many\<close> is a 64-bit sum, as in the code.\<close>
definition ifile_read ::
    "junk \<Rightarrow> u64 \<Rightarrow> buf \<Rightarrow> u64 \<Rightarrow> u64 \<Rightarrow> 'a fs_state_scheme \<Rightarrow> (int \<times> buf) option" where
  "ifile_read junk inode_number buffer how_many from_pos s =
     do {
       guard (0 < inodes_per_block s);
       let offset = inode_index s inode_number;
       buf1 \<leftarrow> read_inode_block junk inode_number s;
       if from_pos + how_many > inode_size (inode_at buf1 offset) then Some (-1, buffer)
       else do {
         (_, buf2) \<leftarrow> storage_read_block s (head_pointer_block (inode_at buf1 offset)) (junk 2);
         (_, buffer) \<leftarrow> pointers_read junk s buf2 buffer how_many from_pos;
         Some (0, buffer)
       }
     }"

text \<open>
  \<open>if(to+how_many > buf1[offset].size) { ifile_grow(...); storage_write_block(...); }\<close>,
  the growing part of a write, on the inode block \<open>buf1\<close>.
\<close>
definition grow_if_needed ::
    "junk \<Rightarrow> u64 \<Rightarrow> nat \<Rightarrow> u64 \<Rightarrow> buf \<Rightarrow> 'a fs_state_scheme \<Rightarrow> (buf \<times> 'a fs_state_scheme) option" where
  "grow_if_needed junk current_block offset new_size buf1 s =
     (if new_size > inode_size (inode_at buf1 offset) then
        do {
          (_, buf1, s) \<leftarrow> ifile_grow junk buf1 offset new_size s;
          (_, s) \<leftarrow> storage_write_block s current_block buf1;
          Some (buf1, s)
        }
      else Some (buf1, s))"

definition ifile_write ::
    "junk \<Rightarrow> u64 \<Rightarrow> buf \<Rightarrow> u64 \<Rightarrow> u64 \<Rightarrow> 'a fs_state_scheme \<Rightarrow>
      (int \<times> 'a fs_state_scheme) option" where
  "ifile_write junk inode_number buffer how_many to s =
     do {
       guard (0 < inodes_per_block s);
       let current_block = inode_block s inode_number;
       let offset = inode_index s inode_number;
       buf1 \<leftarrow> read_inode_block junk inode_number s;
       (buf1, s) \<leftarrow> grow_if_needed junk current_block offset (to + how_many) buf1 s;
       (_, buf2) \<leftarrow> storage_read_block s (head_pointer_block (inode_at buf1 offset)) (junk 2);
       (_, s) \<leftarrow> pointers_write junk buf2 buffer how_many to s;
       Some (0, s)
     }"

end
