(* ===== verification/File_Data.thy ===== *)
theory File_Data imports Files begin

text \<open>
  A file as an array of bytes: the data blocks that a pointer block names, laid end to end.
  \<open>pointers_read\<close> and \<open>pointers_write\<close> split a byte range into a first, some
  intermediate and a last block; the lemmas here show that they refine reading and writing
  a range of the array.
\<close>

section \<open>The abstract file\<close>

definition blk :: "buf \<Rightarrow> nat \<Rightarrow> nat" where
  "blk p k = unat (get_u64 p (8 * k))"

text \<open>Byte \<open>n\<close> of the file whose pointer block is \<open>p\<close>.\<close>
definition file_byte :: "'a storage_state_scheme \<Rightarrow> buf \<Rightarrow> nat \<Rightarrow> u8" where
  "file_byte s p n = disk s (blk p (n div BLOCK_SIZE)) (n mod BLOCK_SIZE)"

text \<open>Entries \<open>lo..hi\<close> name blocks of the device.\<close>
definition entries_ok :: "buf \<Rightarrow> nat \<Rightarrow> nat \<Rightarrow> bool" where
  "entries_ok p lo hi \<longleftrightarrow> hi < 512 \<and> (\<forall>k. lo \<le> k \<and> k \<le> hi \<longrightarrow> blk p k < NUM_BLOCKS)"

lemma file_byte_block [simp]: "x < BLOCK_SIZE \<Longrightarrow> file_byte s p (k * BLOCK_SIZE + x) = disk s (blk p k) x"
  by (simp add: file_byte_def)

lemma pointer_entry_ok:
  assumes "entries_ok p lo hi" "lo \<le> k" "k \<le> hi"
  obtains e where "pointer_entry p (int k) = Some e" "unat e = blk p k" "e < NUM_BLOCKS"
  using assms by (auto simp: pointer_entry_def entries_ok_def blk_def word_less_nat_alt)

lemma entries_ok_sub: "entries_ok p lo hi \<Longrightarrow> lo \<le> lo' \<Longrightarrow> hi' \<le> hi \<Longrightarrow> entries_ok p lo' hi'"
  by (auto simp: entries_ok_def)

lemma read_entry:
  assumes "online s" "entries_ok p lo hi" "lo \<le> k" "k \<le> hi"
  obtains e where "pointer_entry p (int k) = Some e"
    "storage_read_block s e data = Some (0, \<lambda>i. if i < BLOCK_SIZE then disk s (blk p k) i else data i)"
proof -
  obtain e where e: "pointer_entry p (int k) = Some e" "unat e = blk p k" "e < NUM_BLOCKS"
    by (rule pointer_entry_ok [OF assms(2-4)])
  from e(1) storage_read_block_ok [OF assms(1) e(3), of data, unfolded e(2)] show thesis
    by (rule that)
qed

lemma write_entry:
  assumes "online s" "entries_ok p lo hi" "lo \<le> k" "k \<le> hi"
  obtains e where "pointer_entry p (int k) = Some e"
    "\<And>data. storage_read_block s e data = Some (0, \<lambda>i. if i < BLOCK_SIZE then disk s (blk p k) i else data i)"
    "\<And>data. storage_write_block s e data = Some (0, put_block s (blk p k) data)"
proof -
  obtain e where e: "pointer_entry p (int k) = Some e" "unat e = blk p k" "e < NUM_BLOCKS"
    by (rule pointer_entry_ok [OF assms(2-4)])
  from e(1) storage_read_block_ok [OF assms(1) e(3), unfolded e(2)]
    storage_write_block_ok [OF assms(1) e(3), unfolded e(2)] show thesis
    by (rule that)
qed

text \<open>The positions of a byte range in blocks, with the code's \<open>int\<close> conversions resolved.\<close>

lemma block_numbers:
  assumes "unat from_pos + unat how_many < 512 * BLOCK_SIZE"
  shows "u64_to_int (from_pos div BLOCK_SIZE) = int (unat from_pos div BLOCK_SIZE)"
    "unat (from_pos mod BLOCK_SIZE) = unat from_pos mod BLOCK_SIZE"
    "u64_to_int ((from_pos + how_many) div BLOCK_SIZE) = int ((unat from_pos + unat how_many) div BLOCK_SIZE)"
    "unat ((from_pos + how_many) mod BLOCK_SIZE) = (unat from_pos + unat how_many) mod BLOCK_SIZE"
proof -
  have sum: "unat (from_pos + how_many) = unat from_pos + unat how_many"
    using assms by (subst unat_add_lem [symmetric]) simp
  have conv: "u64_to_int (w div 4096) = int (unat w div 4096)" if "unat w < 512 * 4096" for w :: u64
  proof -
    have "unat (w div 4096) = unat w div 4096" by (simp add: unat_div)
    moreover from that have "unat w div 4096 < 512" by (simp add: less_mult_imp_div_less)
    ultimately show ?thesis by (subst u64_to_int_small) simp_all
  qed
  show "u64_to_int (from_pos div BLOCK_SIZE) = int (unat from_pos div BLOCK_SIZE)"
    using assms by (intro conv) simp
  show "u64_to_int ((from_pos + how_many) div BLOCK_SIZE) = int ((unat from_pos + unat how_many) div BLOCK_SIZE)"
    using assms by (subst conv) (simp_all add: sum)
  show "unat (from_pos mod BLOCK_SIZE) = unat from_pos mod BLOCK_SIZE"
    "unat ((from_pos + how_many) mod BLOCK_SIZE) = (unat from_pos + unat how_many) mod BLOCK_SIZE"
    by (simp_all add: unat_mod sum)
qed

section \<open>Reading a range\<close>

lemma read_middle_eq:
  assumes "online s" "entries_ok p i (hi - 1)" "i \<le> hi"
  obtains block' where
    "read_middle s p (int i) (int hi - 1) block buffer position =
      Some (block', (\<lambda>x. if position \<le> x \<and> x < position + (hi - i) * BLOCK_SIZE
        then file_byte s p (i * BLOCK_SIZE + (x - position)) else buffer x),
        position + (hi - i) * BLOCK_SIZE)"
  using assms
proof (induction "hi - i" arbitrary: i block buffer position thesis)
  case 0
  then have "i = hi" by simp
  moreover have "read_middle s p (int hi) (int hi - 1) block buffer position = Some (block, buffer, position)"
    by (subst read_middle.simps) simp
  ultimately show ?case by (intro "0.prems"(1) [of block]) (auto simp: fun_eq_iff)
next
  case (Suc n)
  then have lt: "i < hi" by simp
  obtain e where e: "pointer_entry p (int i) = Some e"
    "storage_read_block s e block = Some (0, \<lambda>j. if j < BLOCK_SIZE then disk s (blk p i) j else block j)"
    by (rule read_entry [OF Suc.prems(2,3), of i]) (use lt in auto)
  let ?block = "\<lambda>j. if j < 4096 then disk s (blk p i) j else block j"
  let ?buffer = "memcpy buffer position ?block 0 4096"
  have ok: "entries_ok p (Suc i) (hi - 1)"
    using Suc.prems(3) by (rule entries_ok_sub) simp_all
  obtain block' where rest: "read_middle s p (int (Suc i)) (int hi - 1) ?block ?buffer (position + 4096) =
      Some (block', (\<lambda>x. if position + 4096 \<le> x \<and> x < position + 4096 + (hi - Suc i) * BLOCK_SIZE
        then file_byte s p (Suc i * BLOCK_SIZE + (x - (position + 4096))) else ?buffer x),
        position + 4096 + (hi - Suc i) * BLOCK_SIZE)"
    by (rule Suc.hyps(1) [OF _ _ Suc.prems(2) ok]) (use Suc.hyps(2) lt in \<open>auto intro: Suc.prems(1)\<close>)
  have step: "read_middle s p (int i) (int hi - 1) block buffer position =
      read_middle s p (int (Suc i)) (int hi - 1) ?block ?buffer (position + 4096)"
    using lt by (subst read_middle.simps) (simp add: e Let_def add.commute)
  have len: "position + 4096 + (hi - Suc i) * 4096 = position + (hi - i) * 4096"
    using Suc.hyps(2) lt by (simp add: Suc_diff_Suc flip: mult_Suc)
  show ?case
  proof (rule Suc.prems(1) [of block'], unfold step rest len, intro arg_cong [where f = Some] prod.inject [THEN iffD2] conjI refl ext)
    fix x
    show "(if position + 4096 \<le> x \<and> x < position + (hi - i) * 4096
        then file_byte s p (Suc i * 4096 + (x - (position + 4096))) else ?buffer x) =
      (if position \<le> x \<and> x < position + (hi - i) * 4096
        then file_byte s p (i * 4096 + (x - position)) else buffer x)"
    proof (cases "position \<le> x \<and> x < position + 4096")
      case True
      then obtain y where "x = position + y" "y < 4096" by (metis add_less_cancel_left le_Suc_ex)
      with len show ?thesis by (simp add: file_byte_def)
    next
      case False
      then show ?thesis by (auto simp: algebra_simps)
    qed
  qed
qed

theorem pointers_read_refines:
  assumes on: "online s" and range: "unat from_pos + unat how_many < 512 * BLOCK_SIZE"
    and ok: "entries_ok p (unat from_pos div BLOCK_SIZE) ((unat from_pos + unat how_many) div BLOCK_SIZE)"
  shows "pointers_read junk s p buffer how_many from_pos =
    Some (0, \<lambda>i. if i < unat how_many then file_byte s p (unat from_pos + i) else buffer i)"
proof -
  define F H lo hi where "F = unat from_pos" and "H = unat how_many"
    and "lo = F div 4096" and "hi = (F + H) div 4096"
  have F: "F = lo * 4096 + F mod 4096" and FH: "F + H = hi * 4096 + (F + H) mod 4096"
    and lohi: "lo \<le> hi"
    by (simp_all add: lo_def hi_def div_le_mono)
  note nums = block_numbers [OF range, folded F_def H_def, folded lo_def hi_def]
  have ok': "entries_ok p lo hi" using ok by (simp add: F_def H_def lo_def hi_def)
  show ?thesis
  proof (cases "lo = hi")
    case True
    obtain e where e: "pointer_entry p (int lo) = Some e" "storage_read_block s e (junk 4) =
        Some (0, \<lambda>i. if i < BLOCK_SIZE then disk s (blk p lo) i else junk 4 i)"
      by (rule read_entry [OF on ok', of lo]) (use lohi in auto)
    have fits: "F mod 4096 + H \<le> 4096"
      using F FH True mod_less_divisor [of 4096 "F + H"] by linarith
    have "memcpy buffer 0 (\<lambda>i. if i < 4096 then disk s (blk p lo) i else junk 4 i) (F mod 4096) H =
        (\<lambda>i. if i < H then file_byte s p (F + i) else buffer i)"
    proof
      fix i
      show "memcpy buffer 0 (\<lambda>i. if i < 4096 then disk s (blk p lo) i else junk 4 i) (F mod 4096) H i =
          (if i < H then file_byte s p (F + i) else buffer i)"
        using fits file_byte_block [of "F mod 4096 + i" s p lo]
        by (cases "i < H") (simp_all add: lo_def add.assoc [symmetric])
    qed
    then show ?thesis
      using True e fits unfolding pointers_read_def F_def [symmetric] H_def [symmetric]
      by (simp add: nums)
  next
    case False
    define off loff pos where "off = F mod 4096" and "loff = (F + H) mod 4096"
      and "pos = 4096 - off + (hi - Suc lo) * 4096"
    obtain e where e: "pointer_entry p (int lo) = Some e" "storage_read_block s e (junk 4) =
        Some (0, \<lambda>i. if i < BLOCK_SIZE then disk s (blk p lo) i else junk 4 i)"
      by (rule read_entry [OF on ok', of lo]) (use lohi in auto)
    let ?block0 = "\<lambda>i. if i < 4096 then disk s (blk p lo) i else junk 4 i"
    let ?buffer1 = "memcpy buffer 0 ?block0 off (4096 - off)"
    obtain block' where mid: "read_middle s p (int (Suc lo)) (int hi - 1) ?block0 ?buffer1 (4096 - off) =
      Some (block', (\<lambda>x. if 4096 - off \<le> x \<and> x < pos
        then file_byte s p (Suc lo * BLOCK_SIZE + (x - (4096 - off))) else ?buffer1 x), pos)"
      unfolding pos_def
      by (rule read_middle_eq [OF on entries_ok_sub [OF ok'], of "Suc lo" hi]) (use False lohi in auto)
    let ?buffer2 = "\<lambda>x. if 4096 - off \<le> x \<and> x < pos
        then file_byte s p (Suc lo * BLOCK_SIZE + (x - (4096 - off))) else ?buffer1 x"
    obtain e' where e': "pointer_entry p (int hi) = Some e'" "storage_read_block s e' block' =
        Some (0, \<lambda>i. if i < BLOCK_SIZE then disk s (blk p hi) i else block' i)"
      by (rule read_entry [OF on ok', of hi]) (use lohi in auto)
    let ?block2 = "\<lambda>i. if i < 4096 then disk s (blk p hi) i else block' i"
    have off: "off < 4096" "F = lo * 4096 + off" and loff: "loff < 4096" "F + H = hi * 4096 + loff"
      using F FH by (simp_all add: off_def loff_def)
    from off loff lohi False have pos: "F + pos = hi * 4096" "4096 - off \<le> pos" "H = pos + loff"
      unfolding pos_def by (simp_all add: diff_mult_distrib)
    have "memcpy ?buffer2 pos ?block2 0 loff = (\<lambda>i. if i < H then file_byte s p (F + i) else buffer i)"
    proof
      fix x
      consider "x < 4096 - off" | "4096 - off \<le> x" "x < pos" | "pos \<le> x" "x < H" | "H \<le> x"
        by linarith
      then show "memcpy ?buffer2 pos ?block2 0 loff x = (if x < H then file_byte s p (F + x) else buffer x)"
      proof cases
        case 1
        then have "off + x < 4096" by simp
        with 1 pos off file_byte_block [of "off + x" s p lo] show ?thesis
          by (simp add: add.assoc)
      next
        case 2
        with pos off have "Suc lo * 4096 + (x - (4096 - off)) = F + x" by simp
        with 2 pos show ?thesis by simp
      next
        case 3
        then obtain y where "x = pos + y" "y < loff" using pos by (metis add_less_cancel_left le_Suc_ex)
        with pos loff file_byte_block [of y s p hi] show ?thesis
          by (simp add: add.assoc [symmetric])
      next
        case 4
        with pos show ?thesis by simp
      qed
    qed
    with mid e e' False show ?thesis
      unfolding pointers_read_def F_def [symmetric] H_def [symmetric]
      by (simp add: nums Let_def add.commute flip: off_def loff_def)
  qed
qed

section \<open>Writing a range\<close>

lemma write_middle_eq:
  assumes "online s" "entries_ok p i (hi - 1)" "inj_on (blk p) {i..<hi}" "i \<le> hi"
  obtains block' s' where
    "write_middle p (int i) (int hi - 1) block buffer position s =
      Some (block', position + (hi - i) * BLOCK_SIZE, s')" "online s'" "only_storage s s'"
    "\<And>k x. i \<le> k \<Longrightarrow> k < hi \<Longrightarrow> x < BLOCK_SIZE \<Longrightarrow>
      disk s' (blk p k) x = buffer (position + (k - i) * BLOCK_SIZE + x)"
    "\<And>b x. x < BLOCK_SIZE \<Longrightarrow> b \<notin> blk p ` {i..<hi} \<Longrightarrow> disk s' b x = disk s b x"
  using assms
proof (induction "hi - i" arbitrary: i block position s thesis)
  case 0
  then have "i = hi" by simp
  moreover have "write_middle p (int hi) (int hi - 1) block buffer position s = Some (block, position, s)"
    by (subst write_middle.simps) simp
  ultimately show ?case using "0.prems"(2) by (intro "0.prems"(1) [of block s]) auto
next
  case (Suc n)
  then have lt: "i < hi" by simp
  obtain e where e: "pointer_entry p (int i) = Some e"
    "\<And>data. storage_read_block s e data = Some (0, \<lambda>j. if j < BLOCK_SIZE then disk s (blk p i) j else data j)"
    "\<And>data. storage_write_block s e data = Some (0, put_block s (blk p i) data)"
    by (rule write_entry [OF Suc.prems(2,3), of i]) (use lt in auto)
  let ?block = "memcpy (\<lambda>j. if j < 4096 then disk s (blk p i) j else block j) 0 buffer position 4096"
  let ?s = "put_block s (blk p i) ?block"
  have ok: "entries_ok p (Suc i) (hi - 1)"
    using Suc.prems(3) by (rule entries_ok_sub) simp_all
  have inj: "inj_on (blk p) {Suc i..<hi}"
    using Suc.prems(4) by (rule inj_on_subset) auto
  have apart: "blk p i \<noteq> blk p k" if "Suc i \<le> k" "k < hi" for k
    using Suc.prems(4) that by (metis Suc_n_not_le_n atLeastLessThan_iff inj_onD le_eq_less_or_eq lt order.refl Suc_leD)
  obtain block' s' where rest:
    "write_middle p (int (Suc i)) (int hi - 1) ?block buffer (position + 4096) ?s =
      Some (block', position + 4096 + (hi - Suc i) * BLOCK_SIZE, s')" "online s'" "only_storage ?s s'"
    "\<And>k x. Suc i \<le> k \<Longrightarrow> k < hi \<Longrightarrow> x < BLOCK_SIZE \<Longrightarrow>
      disk s' (blk p k) x = buffer (position + 4096 + (k - Suc i) * BLOCK_SIZE + x)"
    "\<And>b x. x < BLOCK_SIZE \<Longrightarrow> b \<notin> blk p ` {Suc i..<hi} \<Longrightarrow> disk s' b x = disk ?s b x"
    by (rule Suc.hyps(1) [OF _ _ _ ok inj, where s = ?s])
      (use Suc.hyps(2) lt Suc.prems(2) in \<open>auto intro: Suc.prems(1)\<close>)
  have step: "write_middle p (int i) (int hi - 1) block buffer position s =
      write_middle p (int (Suc i)) (int hi - 1) ?block buffer (position + 4096) ?s"
    using lt by (subst write_middle.simps) (simp add: e Let_def add.commute)
  have len: "position + 4096 + (hi - Suc i) * 4096 = position + (hi - i) * 4096"
    using Suc.hyps(2) lt by (simp add: Suc_diff_Suc flip: mult_Suc)
  note disk = disk_put_block [OF Suc.prems(2)]
  show ?case
  proof (rule Suc.prems(1) [of block' s'])
    show "write_middle p (int i) (int hi - 1) block buffer position s =
        Some (block', position + (hi - i) * BLOCK_SIZE, s')"
      by (simp only: step rest(1) len)
    show "online s'" by (rule rest(2))
    show "only_storage s s'" using rest(3) by (rule only_storage_trans [OF only_storage_put_block])
    show "disk s' (blk p k) x = buffer (position + (k - i) * BLOCK_SIZE + x)"
      if "i \<le> k" "k < hi" "x < BLOCK_SIZE" for k x
    proof (cases "k = i")
      case True
      have "blk p k \<notin> blk p ` {Suc i..<hi}"
      proof
        assume "blk p k \<in> blk p ` {Suc i..<hi}"
        then obtain j where "blk p i = blk p j" "Suc i \<le> j" "j < hi" using True by auto
        with apart [of j] show False by simp
      qed
      with True that rest(5) [of x "blk p k"] show ?thesis by (simp add: disk)
    next
      case False
      then have "k - i = Suc (k - Suc i)" "Suc i \<le> k" using that(1) by simp_all
      with that rest(4) [of k x] show ?thesis by (simp add: add.assoc)
    qed
    show "disk s' b x = disk s b x" if "x < BLOCK_SIZE" "b \<notin> blk p ` {i..<hi}" for b x
    proof -
      from that(2) lt have "b \<notin> blk p ` {Suc i..<hi}" "b \<noteq> blk p i" by auto
      with that(1) rest(5) [of x b] show ?thesis by (simp add: disk)
    qed
  qed
qed


text \<open>
  The effect of writing bytes \<open>F..F+H-1\<close> of a file through its blocks \<open>lo..hi\<close>: byte
  \<open>x\<close> of block \<open>k\<close> is replaced when its position in the file lies in the range.
\<close>
definition range_written ::
    "buf \<Rightarrow> buf \<Rightarrow> nat \<Rightarrow> nat \<Rightarrow> 'a storage_state_scheme \<Rightarrow> 'a storage_state_scheme \<Rightarrow> bool" where
  "range_written p buffer F H s s' \<longleftrightarrow> online s' \<and> only_storage s s' \<and>
     (\<forall>k x. F div BLOCK_SIZE \<le> k \<and> k \<le> (F + H) div BLOCK_SIZE \<and> x < BLOCK_SIZE \<longrightarrow>
       disk s' (blk p k) x = (if F \<le> k * BLOCK_SIZE + x \<and> k * BLOCK_SIZE + x < F + H
         then buffer (k * BLOCK_SIZE + x - F) else disk s (blk p k) x)) \<and>
     (\<forall>b x. x < BLOCK_SIZE \<and> b \<notin> blk p ` {F div BLOCK_SIZE..(F + H) div BLOCK_SIZE} \<longrightarrow>
       disk s' b x = disk s b x)"

lemma pointers_write_single:
  assumes on: "online s" and range: "unat to + unat how_many < 512 * BLOCK_SIZE"
    and ok: "entries_ok p lo lo" and lo: "unat to div BLOCK_SIZE = lo"
    and hi: "(unat to + unat how_many) div BLOCK_SIZE = lo"
  obtains s' where "pointers_write junk p buffer how_many to s = Some (0, s')"
    "range_written p buffer (unat to) (unat how_many) s s'"
proof -
  let ?F = "unat to" and ?H = "unat how_many"
  let ?off = "?F mod 4096"
  have F: "?F = lo * 4096 + ?off" "?off + ?H \<le> 4096"
    using lo hi div_mult_mod_eq [of ?F 4096] div_mult_mod_eq [of "?F + ?H" 4096]
      mod_less_divisor [of 4096 "?F + ?H"] by linarith+
  obtain e where e: "pointer_entry p (int lo) = Some e"
    "\<And>data. storage_read_block s e data = Some (0, \<lambda>j. if j < BLOCK_SIZE then disk s (blk p lo) j else data j)"
    "\<And>data. storage_write_block s e data = Some (0, put_block s (blk p lo) data)"
    by (rule write_entry [OF on ok, of lo]) auto
  let ?block = "memcpy (\<lambda>j. if j < 4096 then disk s (blk p lo) j else junk 4 j) ?off buffer 0 ?H"
  let ?s = "put_block s (blk p lo) ?block"
  show thesis
  proof (rule that [of ?s])
    show "pointers_write junk p buffer how_many to s = Some (0, ?s)"
      using e F unfolding pointers_write_def by (simp add: block_numbers [OF range] lo hi)
    have "?block x = (if ?F \<le> lo * 4096 + x \<and> lo * 4096 + x < ?F + ?H
        then buffer (lo * 4096 + x - ?F) else disk s (blk p lo) x)" if "x < 4096" for x
    proof -
      have "?F \<le> lo * 4096 + x \<longleftrightarrow> ?off \<le> x" "lo * 4096 + x < ?F + ?H \<longleftrightarrow> x < ?off + ?H"
        "lo * 4096 + x - ?F = x - ?off"
        using F by linarith+
      with that show ?thesis by (simp add: memcpy_def)
    qed
    then show "range_written p buffer ?F ?H s ?s"
      using on by (auto simp: range_written_def lo hi disk_put_block)
  qed
qed

text \<open>The positions inside a range that spans several blocks.\<close>

lemma range_positions:
  fixes F H :: nat
  defines "lo \<equiv> F div BLOCK_SIZE" and "hi \<equiv> (F + H) div BLOCK_SIZE"
    and "off \<equiv> F mod BLOCK_SIZE" and "loff \<equiv> (F + H) mod BLOCK_SIZE"
  defines "pos \<equiv> BLOCK_SIZE - off + (hi - Suc lo) * BLOCK_SIZE"
  assumes "lo < hi"
  shows "off < BLOCK_SIZE" "F = lo * BLOCK_SIZE + off" "loff < BLOCK_SIZE"
    "F + H = hi * BLOCK_SIZE + loff" "F + pos = hi * BLOCK_SIZE" "BLOCK_SIZE - off \<le> pos" "H = pos + loff"
proof -
  show 1: "off < BLOCK_SIZE" "F = lo * BLOCK_SIZE + off" "loff < BLOCK_SIZE" "F + H = hi * BLOCK_SIZE + loff"
    by (simp_all add: lo_def hi_def off_def loff_def)
  with \<open>lo < hi\<close> show "F + pos = hi * BLOCK_SIZE" "BLOCK_SIZE - off \<le> pos" "H = pos + loff"
    unfolding pos_def by (simp_all add: diff_mult_distrib)
qed

lemma pointers_write_multi:
  assumes on: "online s" and range: "unat to + unat how_many < 512 * BLOCK_SIZE"
    and lo: "unat to div BLOCK_SIZE = lo" and hi: "(unat to + unat how_many) div BLOCK_SIZE = hi"
    and ok: "entries_ok p lo hi" and inj: "inj_on (blk p) {lo..hi}" and less: "lo < hi"
  obtains s' where "pointers_write junk p buffer how_many to s = Some (0, s')"
    "range_written p buffer (unat to) (unat how_many) s s'"
proof -
  define F H off loff pos where "F = unat to" and "H = unat how_many"
    and "off = F mod 4096" and "loff = (F + H) mod 4096"
    and "pos = 4096 - off + (hi - Suc lo) * 4096"
  note pos = range_positions [of F H, unfolded F_def H_def lo hi, OF less,
      folded F_def H_def, folded off_def loff_def, folded pos_def]
  note nums = block_numbers [OF range, unfolded lo hi, folded F_def H_def, folded off_def loff_def]
  have apart: "blk p k \<noteq> blk p k'" if "lo \<le> k" "k \<le> hi" "lo \<le> k'" "k' \<le> hi" "k \<noteq> k'" for k k'
    using inj that by (auto dest: inj_onD)
  note disk = disk_put_block
  obtain e where e: "pointer_entry p (int lo) = Some e"
    "\<And>data. storage_read_block s e data = Some (0, \<lambda>j. if j < BLOCK_SIZE then disk s (blk p lo) j else data j)"
    "\<And>data. storage_write_block s e data = Some (0, put_block s (blk p lo) data)"
    by (rule write_entry [OF on ok, of lo]) (use less in auto)
  let ?block1 = "memcpy (\<lambda>j. if j < 4096 then disk s (blk p lo) j else junk 4 j) off buffer 0 (4096 - off)"
  let ?s1 = "put_block s (blk p lo) ?block1"
  have on1: "online ?s1" using on by simp
  have innr: "inj_on (blk p) {Suc lo..<hi}" using inj by (rule inj_on_subset) auto
  obtain block' s2 where mid: "write_middle p (int (Suc lo)) (int hi - 1) ?block1 buffer (4096 - off) ?s1 =
      Some (block', pos, s2)" "online s2" "only_storage ?s1 s2"
    "\<And>k x. Suc lo \<le> k \<Longrightarrow> k < hi \<Longrightarrow> x < BLOCK_SIZE \<Longrightarrow>
       disk s2 (blk p k) x = buffer (4096 - off + (k - Suc lo) * BLOCK_SIZE + x)"
    "\<And>b x. x < BLOCK_SIZE \<Longrightarrow> b \<notin> blk p ` {Suc lo..<hi} \<Longrightarrow> disk s2 b x = disk ?s1 b x"
    unfolding pos_def
    by (rule write_middle_eq [OF on1 entries_ok_sub [OF ok] innr,
          where block = ?block1 and buffer = buffer and position = "4096 - off"])
      (use less in \<open>simp | assumption\<close>)+
  obtain e' where e': "pointer_entry p (int hi) = Some e'"
    "\<And>data. storage_read_block s2 e' data = Some (0, \<lambda>j. if j < BLOCK_SIZE then disk s2 (blk p hi) j else data j)"
    "\<And>data. storage_write_block s2 e' data = Some (0, put_block s2 (blk p hi) data)"
    by (rule write_entry [OF mid(2) ok, of hi]) (use less in auto)
  let ?block2 = "memcpy (\<lambda>j. if j < 4096 then disk s2 (blk p hi) j else block' j) 0 buffer pos loff"
  let ?s3 = "put_block s2 (blk p hi) ?block2"
  have outer: "blk p lo \<notin> blk p ` {Suc lo..<hi}" "blk p hi \<notin> blk p ` {Suc lo..<hi}" "blk p lo \<noteq> blk p hi"
    using apart less by fastforce+
  have bytes: "disk ?s3 (blk p k) x = (if F \<le> k * 4096 + x \<and> k * 4096 + x < F + H
      then buffer (k * 4096 + x - F) else disk s (blk p k) x)"
    if k: "lo \<le> k" "k \<le> hi" and x: "x < 4096" for k x
  proof -
    consider "k = lo" | "lo < k" "k < hi" | "k = hi" using k by linarith
    then show ?thesis
    proof cases
      case 1
      have "F \<le> lo * 4096 + x \<longleftrightarrow> off \<le> x" "lo * 4096 + x < F + H" "lo * 4096 + x - F = x - off"
        using pos x by linarith+
      with 1 x mid(2,5) outer on pos show ?thesis by (simp add: disk memcpy_def)
    next
      case 2
      have "F \<le> k * 4096 + x" "k * 4096 + x < F + H"
        "k * 4096 + x - F = 4096 - off + (k - Suc lo) * 4096 + x"
        using pos x 2 by (simp_all add: diff_mult_distrib)
      with 2 x mid(2,4) apart [of k hi] show ?thesis by (simp add: disk)
    next
      case 3
      have "F \<le> hi * 4096 + x" "hi * 4096 + x < F + H \<longleftrightarrow> x < loff"
        using pos x by linarith+
      moreover have "hi * 4096 + x - F = pos + x"
        by (simp add: pos(5) [symmetric])
      ultimately show ?thesis using 3 x mid(2,5) outer on by (simp add: disk memcpy_def)
    qed
  qed
  have frame: "disk ?s3 b x = disk s b x" if "x < 4096" "b \<notin> blk p ` {lo..hi}" for b x
  proof -
    from that(2) less have "b \<notin> blk p ` {Suc lo..<hi}" "b \<noteq> blk p lo" "b \<noteq> blk p hi" by auto
    with that(1) mid(2,5) on show ?thesis by (auto simp: disk)
  qed
  have same: "only_storage s ?s3"
    using mid(3) by (blast intro: only_storage_trans)
  show thesis
  proof (rule that [of ?s3])
    show "pointers_write junk p buffer how_many to s = Some (0, ?s3)"
      using less e mid(1) e' unfolding pointers_write_def nums by (simp add: Let_def add.commute)
    show "range_written p buffer (unat to) (unat how_many) s ?s3"
      unfolding range_written_def lo hi using mid(2) same bytes frame by (auto simp: F_def H_def)
  qed
qed

text \<open>
  Writing a range changes exactly that range of the file's bytes, and nothing on the
  device outside the file's blocks in the range.
\<close>

lemma pointers_write_refines:
  assumes on: "online s" and range: "unat to + unat how_many < 512 * BLOCK_SIZE"
    and ok: "entries_ok p (unat to div BLOCK_SIZE) ((unat to + unat how_many) div BLOCK_SIZE)"
    and inj: "inj_on (blk p) {unat to div BLOCK_SIZE..(unat to + unat how_many) div BLOCK_SIZE}"
  obtains s' where "pointers_write junk p buffer how_many to s = Some (0, s')"
    "range_written p buffer (unat to) (unat how_many) s s'"
proof (cases "unat to div BLOCK_SIZE = (unat to + unat how_many) div BLOCK_SIZE")
  case True
  with ok have ok': "entries_ok p (unat to div BLOCK_SIZE) (unat to div BLOCK_SIZE)" by simp
  show thesis
    by (rule pointers_write_single [OF on range ok' refl True [symmetric]]) (rule that)
next
  case False
  then have "unat to div BLOCK_SIZE < (unat to + unat how_many) div BLOCK_SIZE"
    by (simp add: div_le_mono le_neq_implies_less)
  then show thesis
    by (rule pointers_write_multi [OF on range refl refl ok inj]) (rule that)
qed

lemma range_written_file_byte:
  assumes "range_written p buffer F H s s'"
    and "F div BLOCK_SIZE \<le> n div BLOCK_SIZE" "n div BLOCK_SIZE \<le> (F + H) div BLOCK_SIZE"
  shows "file_byte s' p n = (if F \<le> n \<and> n < F + H then buffer (n - F) else file_byte s p n)"
  using assms unfolding range_written_def file_byte_def by simp

lemma range_written_outside:
  "range_written p buffer F H s s' \<Longrightarrow> b \<notin> blk p ` {F div BLOCK_SIZE..(F + H) div BLOCK_SIZE} \<Longrightarrow>
    x < BLOCK_SIZE \<Longrightarrow> disk s' b x = disk s b x"
  unfolding range_written_def by blast

end
