(* ===== verification/FS_Invariant.thy ===== *)
theory FS_Invariant imports File_Data begin

text \<open>
  The global invariant of the filesystem of \<open>HW4-skeleton\<close>: the on-disk layout that
  \<open>format\<close> sets up, and for every inode in use a pointer block and data blocks that are
  allocated in the bitmap, lie in the data area, and are shared with no other file. The
  lemmas show that formatting establishes it.
\<close>

section \<open>Views of the on-disk state\<close>

definition inode :: "'a fs_state_scheme \<Rightarrow> nat \<Rightarrow> inode_t" where
  "inode s n = inode_at (disk s (n div 128)) (n mod 128)"

definition in_use :: "'a fs_state_scheme \<Rightarrow> nat \<Rightarrow> bool" where
  "in_use s n \<longleftrightarrow> n < MAX_FILES \<and> flags_used (inode s n)"

definition fsize :: "'a fs_state_scheme \<Rightarrow> nat \<Rightarrow> nat" where
  "fsize s n = unat (inode_size (inode s n))"

definition fhead :: "'a fs_state_scheme \<Rightarrow> nat \<Rightarrow> nat" where
  "fhead s n = unat (head_pointer_block (inode s n))"

definition ptrs :: "'a fs_state_scheme \<Rightarrow> nat \<Rightarrow> buf" where
  "ptrs s n = disk s (fhead s n)"

text \<open>A file of \<open>sz\<close> bytes owns its pointer block and the blocks of entries \<open>0..sz div 4096\<close>.\<close>
definition owned :: "'a fs_state_scheme \<Rightarrow> nat \<Rightarrow> nat list" where
  "owned s n = fhead s n # map (blk (ptrs s n)) [0..<Suc (fsize s n div BLOCK_SIZE)]"

lemma set_owned: "set (owned s n) = insert (fhead s n) (blk (ptrs s n) ` {..fsize s n div BLOCK_SIZE})"
  unfolding owned_def list.set set_map set_upt by (simp only: atLeast0LessThan lessThan_Suc_atMost)

text \<open>The contents of a file, byte by byte.\<close>
definition content :: "'a fs_state_scheme \<Rightarrow> nat \<Rightarrow> nat \<Rightarrow> u8" where
  "content s n = file_byte s (ptrs s n)"

definition layout :: "'a fs_state_scheme \<Rightarrow> bool" where
  "layout s \<longleftrightarrow> online s \<and> inodes_per_block s = 128 \<and> number_inode_blocks s = 8 \<and>
     bitmap_first_block s = 8 \<and> bitmap_number_blocks s = 1 \<and> first_allocatable s = 9"

definition file_ok :: "'a fs_state_scheme \<Rightarrow> nat \<Rightarrow> bool" where
  "file_ok s n \<longleftrightarrow> fsize s n < 512 * BLOCK_SIZE \<and> distinct (owned s n) \<and>
     (\<forall>b \<in> set (owned s n). 9 \<le> b \<and> b < NUM_BLOCKS \<and> bitmap_used s b)"

definition fs_inv :: "'a fs_state_scheme \<Rightarrow> bool" where
  "fs_inv s \<longleftrightarrow> layout s \<and> (\<forall>n. in_use s n \<longrightarrow> file_ok s n) \<and>
     (\<forall>m n. in_use s m \<and> in_use s n \<and> m \<noteq> n \<longrightarrow> set (owned s m) \<inter> set (owned s n) = {})"

text \<open>The data blocks of the device that are still free.\<close>
definition free_blocks :: "'a bitmap_state_scheme \<Rightarrow> nat set" where
  "free_blocks s = {b. 9 \<le> b \<and> b < NUM_BLOCKS \<and> \<not> bitmap_used s b}"

lemma finite_free_blocks [simp]: "finite (free_blocks s)"
  by (rule finite_subset [of _ "{..<16384}"]) (auto simp: free_blocks_def)

lemma layout_bitmap_wf: "layout s \<Longrightarrow> bitmap_wf s"
  by (simp add: layout_def bitmap_wf_def)

lemma layout_online: "layout s \<Longrightarrow> online s"
  by (simp add: layout_def)

lemma layout_only_storage:
  assumes "only_storage s s'" "online s'" "layout s"
  shows "layout s'"
proof -
  from assms(1) obtain m where "s' = s\<lparr>storage := m\<rparr>"
    unfolding only_storage_def by blast
  with assms(2,3) show ?thesis by (simp add: layout_def)
qed

section \<open>Inodes on disk\<close>

lemma inode_at_block_cong:
  assumes "\<And>i. i < BLOCK_SIZE \<Longrightarrow> b i = b' i" "k < 128"
  shows "inode_at b k = inode_at b' k"
proof (rule inode_at_cong)
  fix i assume "i < sizeof_inode"
  with assms(2) have "k * sizeof_inode + i < 4096" by (simp add: sizeof_inode_def)
  then show "b (k * sizeof_inode + i) = b' (k * sizeof_inode + i)" by (rule assms(1))
qed

lemma inode_position:
  assumes "layout s" "unat n < MAX_FILES"
  shows "unat (inode_block s n) = unat n div 128" "inode_index s n = unat n mod 128"
    "inode_block s n < 8"
proof -
  have "int_to_u64 (inodes_per_block s) = 128"
    using assms(1) by (simp add: layout_def int_to_u64_def)
  then show "unat (inode_block s n) = unat n div 128" "inode_index s n = unat n mod 128"
    by (simp_all add: inode_block_def inode_index_def unat_div unat_mod)
  with assms(2) show "inode_block s n < 8"
    by (simp add: word_less_nat_alt less_mult_imp_div_less)
qed

lemma read_inode_block_ok:
  assumes "layout s" "unat n < MAX_FILES"
  shows "read_inode_block junk n s =
      Some (\<lambda>i. if i < BLOCK_SIZE then disk s (unat n div 128) i else junk 1 i)"
proof -
  note pos = inode_position [OF assms]
  from pos(3) have "inode_block s n < 16384" by (rule less_trans) simp
  from storage_read_block_ok [OF layout_online [OF assms(1)] this, of "junk 1", unfolded pos(1)]
  show ?thesis
    using assms(1) by (simp add: read_inode_block_def layout_def sizeof_inode_def)
qed

lemma inode_at_read:
  "inode_at (\<lambda>i. if i < BLOCK_SIZE then disk s (n div 128) i else j i) (n mod 128) = inode s n"
  unfolding inode_def by (rule inode_at_block_cong) simp_all

section \<open>Frames\<close>

text \<open>A file whose inode and blocks are untouched owns the same blocks and has the same contents.\<close>

lemma blk_cong: "k < 512 \<Longrightarrow> (\<And>i. i < BLOCK_SIZE \<Longrightarrow> p i = p' i) \<Longrightarrow> blk p k = blk p' k"
  unfolding blk_def by (intro arg_cong [where f = unat] get_u64_cong) simp

lemma file_frame:
  assumes "inode s' n = inode s n" "fsize s n < 512 * BLOCK_SIZE"
    and same: "\<And>b x. b \<in> set (owned s n) \<Longrightarrow> x < BLOCK_SIZE \<Longrightarrow> disk s' b x = disk s b x"
  shows "owned s' n = owned s n" "fsize s' n = fsize s n"
    "i div BLOCK_SIZE \<le> fsize s n div BLOCK_SIZE \<Longrightarrow> content s' n i = content s n i"
proof -
  from assms(1) show size: "fsize s' n = fsize s n" by (simp add: fsize_def)
  from assms(1) have head: "fhead s' n = fhead s n" by (simp add: fhead_def)
  have small: "fsize s n div 4096 < 512"
    using assms(2) by (simp add: less_mult_imp_div_less)
  have blks: "blk (ptrs s' n) k = blk (ptrs s n) k" if "k \<le> fsize s n div 4096" for k
    using that small by (intro blk_cong) (auto simp: ptrs_def head set_owned intro!: same)
  then show "owned s' n = owned s n"
    by (simp add: owned_def head size del: upt_Suc)
  show "content s' n i = content s n i" if "i div BLOCK_SIZE \<le> fsize s n div BLOCK_SIZE"
  proof -
    have "blk (ptrs s n) (i div 4096) \<in> set (owned s n)"
      using that by (simp add: set_owned)
    with same blks that show ?thesis by (simp add: content_def file_byte_def)
  qed
qed

lemma file_ok_frame:
  assumes "file_ok s n" "inode s' n = inode s n"
    and "\<And>b x. b \<in> set (owned s n) \<Longrightarrow> x < BLOCK_SIZE \<Longrightarrow> disk s' b x = disk s b x"
    and "\<And>b. bitmap_used s b \<Longrightarrow> bitmap_used s' b"
  shows "file_ok s' n"
  using assms file_frame [OF assms(2) _ assms(3)] by (auto simp: file_ok_def)

lemma bitmap_used_cong:
  assumes "bitmap_first_block s' = bitmap_first_block s"
    and "\<And>x. x < BLOCK_SIZE \<Longrightarrow>
      disk s' (unat (bitmap_first_block s)) x = disk s (unat (bitmap_first_block s)) x"
  shows "bitmap_used s' = bitmap_used s"
  using assms by (auto simp: bitmap_used_def fun_eq_iff less_mult_imp_div_less)

section \<open>Formatting\<close>

lemma write_blocks_eq:
  assumes "online s" "lo \<le> hi" "hi \<le> NUM_BLOCKS"
  obtains s' where "write_blocks lo hi block s = Some s'" "online s'" "only_storage s s'"
    "\<And>b x. x < BLOCK_SIZE \<Longrightarrow> disk s' b x = (if lo \<le> b \<and> b < hi then block x else disk s b x)"
  using assms
proof (induction "hi - lo" arbitrary: lo s thesis)
  case 0
  then have "write_blocks lo hi block s = Some s" by (subst write_blocks.simps) simp
  with 0 show ?case by (intro "0.prems"(1) [of s]) auto
next
  case (Suc n)
  then have lt: "lo < hi" by simp
  let ?s = "put_block s lo block"
  have "storage_write_block s (of_nat lo) block = Some (0, ?s)"
    using lt Suc.prems(2,4) by (subst storage_write_block_ok) (auto simp: word_less_nat_alt)
  then have step: "write_blocks lo hi block s = write_blocks (Suc lo) hi block ?s"
    using lt by (subst write_blocks.simps) simp
  obtain s' where s': "write_blocks (Suc lo) hi block ?s = Some s'" "online s'" "only_storage ?s s'"
    "\<And>b x. x < BLOCK_SIZE \<Longrightarrow> disk s' b x = (if Suc lo \<le> b \<and> b < hi then block x else disk ?s b x)"
    by (rule Suc.hyps(1) [of "Suc lo" ?s]) (use Suc.hyps(2) lt Suc.prems in auto)
  show ?case
    by (rule Suc.prems(1) [of s'])
      (use s' lt Suc.prems(2) in \<open>auto simp: step disk_put_block
        intro: only_storage_trans [OF only_storage_put_block]\<close>)
qed

lemma inode_zero:
  assumes "\<And>x. x < BLOCK_SIZE \<Longrightarrow> disk s (n div 128) x = 0"
  shows "\<not> flags_used (inode s n)"
proof -
  have "inode s n = inode_at (\<lambda>_. 0) (n mod 128)"
    unfolding inode_def using assms by (intro inode_at_block_cong) simp_all
  then show ?thesis by (simp add: inode_at_def Let_def)
qed

text \<open>Formatting a device gives an empty filesystem with every data block free.\<close>

lemma format_ok:
  assumes "storage s = Some m"
  obtains s' where "format junk s = Some s'" "layout s'" "fs_inv s'"
    "\<And>n. \<not> in_use s' n" "free_blocks s' = {9..<NUM_BLOCKS}"
proof -
  let ?zero = "memset (junk 0) 0 0 4096"
  let ?s0 = "s\<lparr>inodes_per_block := 128, number_inode_blocks := 8\<rparr>"
  have on0: "online ?s0" using assms by (simp add: online_def)
  obtain s1 where s1: "write_blocks 0 8 ?zero ?s0 = Some s1" "online s1" "only_storage ?s0 s1"
    "\<And>b x. x < BLOCK_SIZE \<Longrightarrow> disk s1 b x = (if 0 \<le> b \<and> b < 8 then ?zero x else disk ?s0 b x)"
    by (rule write_blocks_eq [OF on0, of 0 8 ?zero]) (simp | assumption)+
  let ?s1 = "s1\<lparr>number_bitmap_blocks := 1\<rparr>"
  have on1: "online ?s1" using s1(2) by (simp add: online_def)
  obtain s2 where s2: "write_blocks 8 9 ?zero ?s1 = Some s2" "online s2" "only_storage ?s1 s2"
    "\<And>b x. x < BLOCK_SIZE \<Longrightarrow> disk s2 b x = (if 8 \<le> b \<and> b < 9 then ?zero x else disk ?s1 b x)"
    by (rule write_blocks_eq [OF on1, of 8 9 ?zero]) (simp | assumption)+
  let ?s3 = "bitmap_init 8 1 16384 s2"
  from s1(3) obtain m1 where m1: "s1 = ?s0\<lparr>storage := m1\<rparr>" unfolding only_storage_def by blast
  from s2(3) obtain m2 where m2: "s2 = ?s1\<lparr>storage := m2\<rparr>" unfolding only_storage_def by blast
  have "format junk s = Some ?s3"
    using s1(1) s2(1) m1 m2
    by (simp add: format_def Let_def sizeof_inode_def div_up_def int_to_u64_def)
  moreover have lay: "layout ?s3"
    using s2(2) m1 m2 by (simp add: layout_def bitmap_init_def online_def)
  moreover have zero: "disk ?s3 b x = 0" if "b < 9" "x < 4096" for b x
    using that s1(4) s2(4) by (auto simp: disk_def bitmap_init_def)
  have "\<not> in_use ?s3 n" for n
  proof
    assume used: "in_use ?s3 n"
    then have "n div 128 < 9" by (simp add: in_use_def less_mult_imp_div_less)
    with zero have "\<not> flags_used (inode ?s3 n)" by (intro inode_zero)
    with used show False by (simp add: in_use_def)
  qed
  moreover have "\<not> bitmap_used ?s3 b" for b
    using zero by (auto simp: bitmap_used_def bitmap_init_def less_mult_imp_div_less)
  ultimately show thesis
    by (intro that [of ?s3]) (auto simp: fs_inv_def free_blocks_def)
qed

end
