(* ===== verification/FS_Ops.thy ===== *)
theory FS_Ops imports FS_Invariant begin

text \<open>
  Creating, growing, writing and reading files keeps the filesystem invariant, does what
  it should to the one file it is about, and leaves every other file alone. The block
  allocator enters through its contract only.
\<close>

section \<open>One file changes, the others stay\<close>

lemma fs_inv_step:
  assumes inv: "fs_inv s" and lay: "layout s'"
    and inodes: "\<And>m. m \<noteq> n \<Longrightarrow> m < MAX_FILES \<Longrightarrow> inode s' m = inode s m"
    and blocks: "\<And>m b x. m \<noteq> n \<Longrightarrow> in_use s m \<Longrightarrow> b \<in> set (owned s m) \<Longrightarrow> x < BLOCK_SIZE \<Longrightarrow>
      disk s' b x = disk s b x"
    and used: "\<And>b. bitmap_used s b \<Longrightarrow> bitmap_used s' b"
    and target: "in_use s' n \<Longrightarrow> file_ok s' n"
    and apart: "\<And>m. m \<noteq> n \<Longrightarrow> in_use s' n \<Longrightarrow> in_use s m \<Longrightarrow> set (owned s m) \<inter> set (owned s' n) = {}"
  shows "fs_inv s'"
    and "m \<noteq> n \<Longrightarrow> in_use s m \<Longrightarrow> in_use s' m \<and> fsize s' m = fsize s m \<and> owned s' m = owned s m \<and>
      (\<forall>i < fsize s m. content s' m i = content s m i)"
proof -
  have same: "in_use s' m = in_use s m" if "m \<noteq> n" for m
    using inodes [OF that] by (auto simp: in_use_def)
  have ok: "file_ok s m" if "in_use s m" for m
    using inv that by (simp add: fs_inv_def)
  have frame: "owned s' m = owned s m" "fsize s' m = fsize s m" "file_ok s' m"
    "\<forall>i < fsize s m. content s' m i = content s m i" if m: "m \<noteq> n" "in_use s m" for m
  proof -
    from m have ino: "inode s' m = inode s m" by (intro inodes) (simp_all add: in_use_def)
    have small: "fsize s m < 512 * 4096" using ok [OF m(2)] by (simp add: file_ok_def)
    from file_frame [OF ino small blocks [OF m]]
    show "owned s' m = owned s m" "fsize s' m = fsize s m"
      "\<forall>i < fsize s m. content s' m i = content s m i"
      by (auto simp: div_le_mono)
    show "file_ok s' m"
      by (rule file_ok_frame [OF ok [OF m(2)] ino blocks [OF m] used])
  qed
  show "fs_inv s'"
    unfolding fs_inv_def
  proof (intro conjI allI impI lay)
    fix m assume "in_use s' m"
    then show "file_ok s' m" using target frame(3) same by (cases "m = n") auto
  next
    fix m k assume mk: "in_use s' m \<and> in_use s' k \<and> m \<noteq> k"
    then have "in_use s m \<and> in_use s k \<Longrightarrow> set (owned s m) \<inter> set (owned s k) = {}"
      using inv by (simp add: fs_inv_def)
    then show "set (owned s' m) \<inter> set (owned s' k) = {}"
      using mk apart same frame(1) by (cases "m = n"; cases "k = n") (metis Int_commute)+
  qed
  show "in_use s' m \<and> fsize s' m = fsize s m \<and> owned s' m = owned s m \<and>
      (\<forall>i < fsize s m. content s' m i = content s m i)" if "m \<noteq> n" "in_use s m"
    using that same frame by auto
qed

section \<open>Allocating a block\<close>

lemma fs_allocate:
  assumes "layout s" "free_blocks s \<noteq> {}"
  obtains b s' where "bitmap_allocate_block junk s = Some (int b, s')" "b \<in> free_blocks s"
    "layout s'" "only_storage s s'" "bitmap_used s' = (bitmap_used s)(b := True)"
    "free_blocks s' = free_blocks s - {b}"
    "\<And>c x. c \<noteq> 8 \<Longrightarrow> x < BLOCK_SIZE \<Longrightarrow> disk s' c x = disk s c x"
proof -
  from assms(2) obtain c where c: "9 \<le> c" "c < 16384" "\<not> bitmap_used s c"
    by (auto simp: free_blocks_def)
  have base: "bitmap_base s = 9" and bm: "unat (bitmap_first_block s) = 8"
    using assms(1) by (simp_all add: layout_def)
  from c have cap: "c < 4096 * 8" by simp
  obtain b s' where new: "bitmap_allocate_block junk s = Some (int b, s')" "b \<le> c" "9 \<le> b"
    "\<not> bitmap_used s b" "bitmap_used s' = (bitmap_used s)(b := True)" "outside_bitmap_same s s'"
    using disk.alloc_below_keeps [OF layout_bitmap_wf [OF assms(1)] c(1) [folded base] cap c(3)]
    by (metis base)
  from new(6) have keep: "only_storage s s'" "online s'"
    "\<And>c x. c \<noteq> 8 \<Longrightarrow> x < 4096 \<Longrightarrow> disk s' c x = disk s c x"
    using assms(1) by (auto simp: outside_bitmap_same_def bm layout_def)
  have "b \<in> free_blocks s" "free_blocks s' = free_blocks s - {b}"
    using new c by (auto simp: free_blocks_def)
  with new keep layout_only_storage [OF keep(1,2) assms(1)] show thesis by (intro that)
qed


text \<open>Writing an inode or data block does not touch the bitmap.\<close>

lemma layout_put_block:
  assumes "layout s"
  shows "layout (put_block s b d)"
  using assms by (intro layout_only_storage [OF only_storage_put_block]) (simp_all add: layout_def)

lemma bitmap_used_put_block:
  assumes "layout s" "b \<noteq> 8"
  shows "bitmap_used (put_block s b d) = bitmap_used s" "free_blocks (put_block s b d) = free_blocks s"
proof -
  show "bitmap_used (put_block s b d) = bitmap_used s"
    using assms by (intro bitmap_used_cong) (auto simp: layout_def disk_put_block)
  then show "free_blocks (put_block s b d) = free_blocks s"
    by (simp add: free_blocks_def)
qed

text \<open>The inodes of a state whose inode block was replaced by a buffer.\<close>

lemma inode_of_buffer:
  assumes "\<And>x. x < BLOCK_SIZE \<Longrightarrow> disk s' (n div 128) x = b x"
    and "\<And>c x. c < 8 \<Longrightarrow> c \<noteq> n div 128 \<Longrightarrow> x < BLOCK_SIZE \<Longrightarrow> disk s' c x = disk s c x"
    and "\<And>k. k < 128 \<Longrightarrow> k \<noteq> n mod 128 \<Longrightarrow> inode_at b k = inode_at (disk s (n div 128)) k"
  shows "inode s' n = inode_at b (n mod 128)"
    and "m \<noteq> n \<Longrightarrow> m < MAX_FILES \<Longrightarrow> inode s' m = inode s m"
proof -
  show "inode s' n = inode_at b (n mod 128)"
    unfolding inode_def using assms(1) by (intro inode_at_block_cong) simp_all
  show "inode s' m = inode s m" if m: "m \<noteq> n" "m < MAX_FILES"
  proof (cases "m div 128 = n div 128")
    case True
    with m(1) have "m mod 128 \<noteq> n mod 128" by (metis div_mod_decomp)
    moreover have "inode s' m = inode_at b (m mod 128)"
      unfolding inode_def True using assms(1) by (intro inode_at_block_cong) simp_all
    ultimately show ?thesis using assms(3) by (simp add: inode_def True)
  next
    case False
    with m assms(2) show ?thesis
      unfolding inode_def by (intro inode_at_block_cong) (simp_all add: less_mult_imp_div_less)
  qed
qed

section \<open>Creating a file\<close>

lemma unat_of_nat_block: "b < NUM_BLOCKS \<Longrightarrow> unat (of_nat b :: u64) = b"
  by (rule unat_of_nat_u64) simp

lemma ifile_create_ok:
  assumes inv: "fs_inv s" and n: "n \<le> 8" and free: "2 \<le> card (free_blocks s)"
  obtains s' b1 b2 where "ifile_create junk n s = Some (0, s')" "layout s'"
    "{b1, b2} \<subseteq> free_blocks s" "b1 \<noteq> b2" "free_blocks s' = free_blocks s - {b1, b2}"
    "inode s' (unat n) = (inode s (unat n))\<lparr>inode_size := 0, flags_used := True, head_pointer_block := of_nat b1\<rparr>"
    "\<And>m. m \<noteq> unat n \<Longrightarrow> m < MAX_FILES \<Longrightarrow> inode s' m = inode s m"
    "\<And>k. k < 512 \<Longrightarrow> blk (disk s' b1) k = (if k = 0 then b2 else 0)"
    "\<And>c x. c \<notin> {0, 8, b1} \<Longrightarrow> x < BLOCK_SIZE \<Longrightarrow> disk s' c x = disk s c x"
    "bitmap_used s' = (bitmap_used s)(b1 := True, b2 := True)"
proof -
  from inv have lay: "layout s" by (simp add: fs_inv_def)
  from n have N: "unat n \<le> 8" by (simp add: word_le_nat_alt)
  then have n1024: "unat n < 1024" and N0: "unat n div 128 = 0" "unat n mod 128 = unat n" by simp_all
  note pos = inode_position [OF lay n1024, unfolded N0]
  have blk0: "inode_block s n = 0" using pos(1) by (simp add: unat_eq_zero)
  let ?old = "\<lambda>i. if i < 4096 then disk s 0 i else junk 1 i"
  have read: "read_inode_block junk n s = Some ?old"
    using read_inode_block_ok [OF lay n1024, of junk, unfolded N0] .
  have old: "inode_at ?old k = inode_at (disk s 0) k" if "k < 128" for k
    using that by (intro inode_at_block_cong) simp_all
  from free have "free_blocks s \<noteq> {}" by auto
  then obtain b1 s1 where a1: "bitmap_allocate_block (junk 0) s = Some (int b1, s1)" "b1 \<in> free_blocks s"
    "layout s1" "only_storage s s1" "bitmap_used s1 = (bitmap_used s)(b1 := True)"
    "free_blocks s1 = free_blocks s - {b1}"
    "\<And>c x. c \<noteq> 8 \<Longrightarrow> x < BLOCK_SIZE \<Longrightarrow> disk s1 c x = disk s c x"
    by (rule fs_allocate [OF lay, where junk = "junk 0"]) (rule that)
  then have b1: "9 \<le> b1" "b1 < 16384" by (simp_all add: free_blocks_def)
  let ?buf1 = "set_head (set_flags_used (set_size ?old (unat n) 0) (unat n)) (unat n) (of_nat b1)"
  let ?s2 = "put_block s1 0 ?buf1"
  have lay2: "layout ?s2" using a1(3) by (rule layout_put_block)
  have free2: "free_blocks ?s2 = free_blocks s - {b1}" "bitmap_used ?s2 = (bitmap_used s)(b1 := True)"
    using bitmap_used_put_block [OF a1(3), of 0] a1(5,6) by simp_all
  have "card (free_blocks s - {b1}) \<ge> 1"
    using free a1(2) by (subst card_Diff_singleton) simp_all
  then have "free_blocks ?s2 \<noteq> {}" unfolding free2 by (metis card.empty not_one_le_zero)
  then obtain b2 s3 where a2: "bitmap_allocate_block (junk 0) ?s2 = Some (int b2, s3)"
    "b2 \<in> free_blocks ?s2" "layout s3" "only_storage ?s2 s3"
    "bitmap_used s3 = (bitmap_used ?s2)(b2 := True)" "free_blocks s3 = free_blocks ?s2 - {b2}"
    "\<And>c x. c \<noteq> 8 \<Longrightarrow> x < BLOCK_SIZE \<Longrightarrow> disk s3 c x = disk ?s2 c x"
    by (rule fs_allocate [OF lay2, where junk = "junk 0"]) (rule that)
  then have b2: "9 \<le> b2" "b2 < 16384" "b2 \<noteq> b1" "b2 \<in> free_blocks s"
    unfolding free2 by (simp_all add: free_blocks_def)
  let ?buf2 = "put_u64 (memset (\<lambda>i. if i < 4096 then disk ?s2 b1 i else junk 2 i) 0 0 4096) 0 (of_nat b2)"
  let ?s4 = "put_block s3 b1 ?buf2"
  have head: "head_pointer_block (inode_at ?buf1 (unat n)) = of_nat b1"
    by (simp add: inode_at_set)
  have small: "(of_nat b1 :: u64) < 16384" using b1(2) by (simp add: word_less_nat_alt)
  have on: "online s1" "online s3" "online ?s2"
    using a1(3) a2(3) lay2 by (simp_all add: layout_def)
  have run: "ifile_create junk n s = Some (0, ?s4)"
    using n lay b1 read a1(1) a2(1) storage_write_block_ok [OF on(1), of 0 ?buf1]
      storage_read_block_ok [OF on(3) small, of "junk 2", unfolded unat_of_nat_block [OF b1(2)]]
      unat_of_nat_block [OF b1(2)] storage_write_block_ok [OF on(2) small, of ?buf2]
    unfolding ifile_create_def
    by (simp add: layout_def blk0 pos(2) Let_def head not_less)
  have disk4: "disk ?s4 c x = (if c = b1 then ?buf2 x else if c = 0 then ?buf1 x else disk s c x)"
    if "c \<noteq> 8" "x < 4096" for c x
    using that a2(7) a1(7) on b1 by (simp add: disk_put_block)
  have others: "inode_at ?buf1 k = inode_at (disk s 0) k" if "k < 128" "k \<noteq> unat n" for k
    using that by (simp add: inode_at_set_other old)
  have inodes: "inode ?s4 (unat n) = inode_at ?buf1 (unat n)"
    by (rule inode_of_buffer(1) [of ?s4 "unat n" ?buf1 s, unfolded N0])
      (use disk4 b1(1) others in auto)
  have inodes': "inode ?s4 m = inode s m" if "m \<noteq> unat n" "m < 1024" for m
    by (rule inode_of_buffer(2) [of ?s4 "unat n" ?buf1 s m, unfolded N0])
      (use disk4 b1(1) others that in auto)
  show thesis
  proof (rule that [of ?s4 b1 b2])
    show "inode ?s4 (unat n) =
        (inode s (unat n))\<lparr>inode_size := 0, flags_used := True, head_pointer_block := of_nat b1\<rparr>"
      unfolding inodes using N by (simp add: inode_at_set old inode_def N0)
    show "blk (disk ?s4 b1) k = (if k = 0 then b2 else 0)" if "k < 512" for k
    proof -
      have "blk (disk ?s4 b1) k = blk ?buf2 k"
        using that b1 by (intro blk_cong) (simp_all add: disk4)
      moreover have "get_u64 ?buf2 (8 * k) = get_u64 (\<lambda>_. 0) 0" if "k \<noteq> 0"
        using that \<open>k < 512\<close> by (subst get_put_u64_other) (auto intro!: get_u64_cong)
      moreover have "get_u64 (\<lambda>_. 0) 0 = 0"
        by (rule bit_word_eqI) (simp add: bit_get_u64)
      ultimately show ?thesis using b2(2) by (auto simp: blk_def)
    qed
    show "bitmap_used ?s4 = (bitmap_used s)(b1 := True, b2 := True)"
      "free_blocks ?s4 = free_blocks s - {b1, b2}"
      using bitmap_used_put_block [OF a2(3), of b1] b1(1) a2(5,6) free2 by auto
  qed (use run a2(3) layout_put_block b2 a1(2) inodes' disk4 in auto)
qed


text \<open>Creation yields an empty file in that inode and keeps everything else.\<close>

lemma ifile_create_inv:
  assumes inv: "fs_inv s" and n: "n \<le> 8" and free: "2 \<le> card (free_blocks s)"
  obtains s' where "ifile_create junk n s = Some (0, s')" "fs_inv s'" "in_use s' (unat n)"
    "fsize s' (unat n) = 0" "card (free_blocks s') = card (free_blocks s) - 2"
    "\<And>m. m \<noteq> unat n \<Longrightarrow> in_use s m \<Longrightarrow> in_use s' m \<and> fsize s' m = fsize s m \<and>
      owned s' m = owned s m \<and> (\<forall>i < fsize s m. content s' m i = content s m i)"
    "\<And>m. m \<noteq> unat n \<Longrightarrow> in_use s' m \<Longrightarrow> in_use s m"
    "set (owned s' (unat n)) \<subseteq> free_blocks s"
proof -
  let ?n = "unat n"
  obtain s' b1 b2 where c: "ifile_create junk n s = Some (0, s')" "layout s'"
    "{b1, b2} \<subseteq> free_blocks s" "b1 \<noteq> b2" "free_blocks s' = free_blocks s - {b1, b2}"
    "inode s' ?n = (inode s ?n)\<lparr>inode_size := 0, flags_used := True, head_pointer_block := of_nat b1\<rparr>"
    "\<And>m. m \<noteq> ?n \<Longrightarrow> m < MAX_FILES \<Longrightarrow> inode s' m = inode s m"
    "\<And>k. k < 512 \<Longrightarrow> blk (disk s' b1) k = (if k = 0 then b2 else 0)"
    "\<And>c x. c \<notin> {0, 8, b1} \<Longrightarrow> x < BLOCK_SIZE \<Longrightarrow> disk s' c x = disk s c x"
    "bitmap_used s' = (bitmap_used s)(b1 := True, b2 := True)"
    by (rule ifile_create_ok [OF assms]) (rule that)
  have b: "b1 < 16384" "b2 < 16384" "9 \<le> b1" "9 \<le> b2"
    using c(3) by (simp_all add: free_blocks_def)
  have n1024: "?n < 1024" using n by (simp add: word_le_nat_alt)
  have use: "in_use s' ?n" "fsize s' ?n = 0" "fhead s' ?n = b1"
    using c(6) n1024 b(1) by (simp_all add: in_use_def fsize_def fhead_def unat_of_nat_block)
  then have owns: "owned s' ?n = [b1, b2]"
    using c(8) [of 0] by (simp add: owned_def ptrs_def)
  have foreign: "b \<noteq> b1 \<and> b \<noteq> b2 \<and> 9 \<le> b" if "in_use s m" "b \<in> set (owned s m)" for m b
    using inv c(3) that by (fastforce simp: fs_inv_def file_ok_def free_blocks_def)
  note step = fs_inv_step [OF inv c(2), of ?n]
  have keep: "disk s' b x = disk s b x" if "in_use s m" "b \<in> set (owned s m)" "x < 4096" for m b x
    using foreign [OF that(1,2)] that(3) by (intro c(9)) auto
  have ok: "file_ok s' ?n"
    using use(2) owns b c(4,10) by (simp add: file_ok_def)
  have apart: "set (owned s m) \<inter> set (owned s' ?n) = {}" if "in_use s m" for m
    using foreign [OF that] by (auto simp: owns)
  have mono: "bitmap_used s b \<Longrightarrow> bitmap_used s' b" for b
    by (simp add: c(10))
  show thesis
  proof (rule that [OF c(1) _ use(1,2)])
    show "fs_inv s'"
      by (rule step(1)) (use c(7) keep mono ok apart in auto)
    show "card (free_blocks s') = card (free_blocks s) - 2"
      using c(3,4) by (simp add: c(5) card_Diff_subset)
    show "in_use s' m \<and> fsize s' m = fsize s m \<and> owned s' m = owned s m \<and>
        (\<forall>i < fsize s m. content s' m i = content s m i)" if "m \<noteq> ?n" "in_use s m" for m
      by (rule step(2)) (use c(7) keep mono ok apart that in auto)
    show "in_use s m" if "m \<noteq> ?n" "in_use s' m" for m
      using c(7) [of m] that by (simp add: in_use_def)
    show "set (owned s' ?n) \<subseteq> free_blocks s" using c(3) by (simp add: owns)
  qed
qed

end
