(* ===== verification/FS_Write.thy ===== *)
theory FS_Write imports FS_Ops begin

text \<open>
  Growing and writing a file: the loop of \<open>ifile_grow\<close> hands the file fresh blocks, and a
  write changes exactly the written range of that file. Both keep the filesystem invariant
  while there is room on the device and in the pointer block.
\<close>

section \<open>Growing\<close>

lemma grow_loop_ok:
  assumes "layout s" "hi < 512" "i \<le> Suc hi" "Suc hi - i \<le> card (free_blocks s)"
  obtains block' s' where "grow_loop junk (of_nat i) lo (of_nat hi) block s = Some (block', s')" "layout s'"
    "\<And>c x. c \<noteq> 8 \<Longrightarrow> x < BLOCK_SIZE \<Longrightarrow> disk s' c x = disk s c x"
    "\<And>k. k < 512 \<Longrightarrow> k < i \<or> hi < k \<Longrightarrow> blk block' k = blk block k"
    "blk block' ` {i..hi} \<subseteq> free_blocks s" "inj_on (blk block') {i..hi}"
    "bitmap_used s' = (\<lambda>b. bitmap_used s b \<or> b \<in> blk block' ` {i..hi})"
  using assms
proof (induction "Suc hi - i" arbitrary: i block s thesis)
  case 0
  then have i: "i = Suc hi" by simp
  have "\<not> (of_nat (Suc hi) :: u64) \<le> of_nat hi"
    using "0.prems"(3) by (simp add: word_le_nat_alt del: of_nat_Suc)
  then have "grow_loop junk (of_nat i) lo (of_nat hi) block s = Some (block, s)"
    unfolding i by (subst grow_loop.simps) (simp del: of_nat_Suc)
  with 0 i show ?case by (intro "0.prems"(1) [of block s]) auto
next
  case (Suc n)
  then have ihi: "i \<le> hi" "i < 512" by simp_all
  then have le: "(of_nat i :: u64) \<le> of_nat hi" and ui: "unat (of_nat i :: u64) = i"
    using Suc.prems(3) by (simp_all add: word_le_nat_alt)
  from Suc.prems(5) ihi have "free_blocks s \<noteq> {}" by auto
  then obtain b s1 where a: "bitmap_allocate_block junk s = Some (int b, s1)" "b \<in> free_blocks s"
    "layout s1" "only_storage s s1" "bitmap_used s1 = (bitmap_used s)(b := True)"
    "free_blocks s1 = free_blocks s - {b}"
    "\<And>c x. c \<noteq> 8 \<Longrightarrow> x < BLOCK_SIZE \<Longrightarrow> disk s1 c x = disk s c x"
    by (rule fs_allocate [OF Suc.prems(2), where junk = junk]) (rule that)
  let ?block = "put_u64 block (8 * i) (of_nat b)"
  have b: "b < 16384" using a(2) by (simp add: free_blocks_def)
  have fresh: "(of_nat b :: u64) \<noteq> -1"
  proof
    assume "(of_nat b :: u64) = -1"
    then have "unat (of_nat b :: u64) = 18446744073709551615"
      by (simp add: unsigned_minus_1_eq_mask mask_eq_exp_minus_1)
    with b unat_of_nat_block [OF b] show False by simp
  qed
  have step: "grow_loop junk (of_nat i) lo (of_nat hi) block s =
      grow_loop junk (of_nat (Suc i)) lo (of_nat hi) ?block s1"
    using le ui ihi(2) fresh by (subst grow_loop.simps) (simp add: a(1) Let_def add.commute)
  have n: "n = Suc hi - Suc i" and i': "Suc i \<le> Suc hi"
    using Suc.hyps(2) ihi by simp_all
  have room: "Suc hi - Suc i \<le> card (free_blocks s1)"
    using Suc.prems(5) a(2) ihi by (simp add: a(6))
  obtain block' s' where r: "grow_loop junk (of_nat (Suc i)) lo (of_nat hi) ?block s1 = Some (block', s')"
    "layout s'" "\<And>c x. c \<noteq> 8 \<Longrightarrow> x < BLOCK_SIZE \<Longrightarrow> disk s' c x = disk s1 c x"
    "\<And>k. k < 512 \<Longrightarrow> k < Suc i \<or> hi < k \<Longrightarrow> blk block' k = blk ?block k"
    "blk block' ` {Suc i..hi} \<subseteq> free_blocks s1" "inj_on (blk block') {Suc i..hi}"
    "bitmap_used s' = (\<lambda>b. bitmap_used s1 b \<or> b \<in> blk block' ` {Suc i..hi})"
    by (rule Suc.hyps(1) [OF n _ a(3) Suc.prems(3) i' room, where block = ?block]) (rule that)
  have range: "{i..hi} = insert i {Suc i..hi}" using ihi by auto
  have bi: "blk block' i = b"
    using r(4) [of i] ihi b by (simp add: blk_def)
  have image: "blk block' ` {i..hi} = insert b (blk block' ` {Suc i..hi})"
    by (simp add: range bi)
  show ?case
  proof (rule Suc.prems(1) [of block' s'])
    show "grow_loop junk (of_nat i) lo (of_nat hi) block s = Some (block', s')"
      by (simp only: step r(1))
    show "disk s' c x = disk s c x" if "c \<noteq> 8" "x < BLOCK_SIZE" for c x
      using that by (simp add: r(3) a(7))
    show "blk block' k = blk block k" if "k < 512" "k < i \<or> hi < k" for k
      using r(4) [of k] that ihi by (auto simp: blk_def get_put_u64_other)
    show "blk block' ` {i..hi} \<subseteq> free_blocks s"
      unfolding image using r(5) a(2) by (auto simp: a(6))
    show "inj_on (blk block') {i..hi}"
      unfolding range using r(5,6) by (auto simp: bi a(6))
    show "bitmap_used s' = (\<lambda>b. bitmap_used s b \<or> b \<in> blk block' ` {i..hi})"
      unfolding image by (auto simp: r(7) a(5))
  qed (rule r(2))
qed

section \<open>The blocks of a file\<close>

lemma file_ok_blocks:
  assumes "file_ok s n"
  shows "fsize s n div BLOCK_SIZE < 512"
    "9 \<le> fhead s n" "fhead s n < NUM_BLOCKS" "bitmap_used s (fhead s n)"
    "k \<le> fsize s n div BLOCK_SIZE \<Longrightarrow> 9 \<le> blk (ptrs s n) k \<and> blk (ptrs s n) k < NUM_BLOCKS \<and>
      bitmap_used s (blk (ptrs s n) k) \<and> blk (ptrs s n) k \<noteq> fhead s n"
    "inj_on (blk (ptrs s n)) {..fsize s n div BLOCK_SIZE}"
proof -
  show "fsize s n div BLOCK_SIZE < 512"
    using assms by (simp add: file_ok_def less_mult_imp_div_less)
  from assms have d: "distinct (map (blk (ptrs s n)) [0..<Suc (fsize s n div 4096)])"
    "fhead s n \<notin> set (map (blk (ptrs s n)) [0..<Suc (fsize s n div 4096)])"
    by (simp_all add: file_ok_def owned_def del: upt_Suc)
  from d(1) show "inj_on (blk (ptrs s n)) {..fsize s n div BLOCK_SIZE}"
    unfolding distinct_map set_upt by (simp add: atLeast0LessThan lessThan_Suc_atMost)
  from assms have all: "b \<in> set (owned s n) \<Longrightarrow> 9 \<le> b \<and> b < 16384 \<and> bitmap_used s b" for b
    by (simp add: file_ok_def)
  from all [of "fhead s n"] show "9 \<le> fhead s n" "fhead s n < NUM_BLOCKS" "bitmap_used s (fhead s n)"
    by (simp_all add: set_owned)
  show "9 \<le> blk (ptrs s n) k \<and> blk (ptrs s n) k < NUM_BLOCKS \<and>
      bitmap_used s (blk (ptrs s n) k) \<and> blk (ptrs s n) k \<noteq> fhead s n"
    if "k \<le> fsize s n div BLOCK_SIZE"
  proof -
    from that have "blk (ptrs s n) k \<in> set (owned s n)" by (simp add: set_owned)
    moreover from that have "blk (ptrs s n) k \<in> set (map (blk (ptrs s n)) [0..<Suc (fsize s n div 4096)])"
      unfolding set_map set_upt by (intro imageI) simp
    ultimately show ?thesis using all d(2) by metis
  qed
qed

text \<open>The local copy \<open>buf2\<close> of the pointer block.\<close>

definition pointer_buffer :: "'a fs_state_scheme \<Rightarrow> nat \<Rightarrow> buf \<Rightarrow> buf" where
  "pointer_buffer s n j = (\<lambda>i. if i < BLOCK_SIZE then ptrs s n i else j i)"

lemma read_pointer_buffer:
  assumes "layout s" "file_ok s n"
  shows "storage_read_block s (head_pointer_block (inode s n)) j = Some (0, pointer_buffer s n j)"
proof -
  have "head_pointer_block (inode s n) < 16384"
    using file_ok_blocks(3) [OF assms(2)] by (simp add: fhead_def word_less_nat_alt)
  then show ?thesis
    unfolding pointer_buffer_def ptrs_def fhead_def
    by (rule storage_read_block_ok [OF layout_online [OF assms(1)]])
qed

lemma blk_pointer_buffer [simp]: "k < 512 \<Longrightarrow> blk (pointer_buffer s n j) k = blk (ptrs s n) k"
  by (rule blk_cong) (simp_all add: pointer_buffer_def)

lemma pointer_buffer_entries:
  assumes "file_ok s n" "hi \<le> fsize s n div BLOCK_SIZE"
  shows "entries_ok (pointer_buffer s n j) lo hi" "inj_on (blk (pointer_buffer s n j)) {lo..hi}"
    "b \<in> blk (pointer_buffer s n j) ` {lo..hi} \<Longrightarrow> b \<in> set (owned s n) - {fhead s n}"
proof -
  note ok = file_ok_blocks [OF assms(1)]
  from ok(1) assms(2) have small: "k < 512" if "k \<le> hi" for k
    using that by simp
  show "entries_ok (pointer_buffer s n j) lo hi"
    using assms(2) small ok(5) by (auto simp: entries_ok_def)
  have "inj_on (blk (ptrs s n)) {lo..hi}"
    using ok(6) by (rule inj_on_subset) (use assms(2) in auto)
  then show "inj_on (blk (pointer_buffer s n j)) {lo..hi}"
    using small by (simp add: inj_on_def)
  show "b \<in> set (owned s n) - {fhead s n}" if "b \<in> blk (pointer_buffer s n j) ` {lo..hi}"
    using that small ok(5) assms(2) by (fastforce simp: set_owned)
qed

lemma file_byte_pointer_buffer:
  "n div BLOCK_SIZE < 512 \<Longrightarrow> file_byte s (pointer_buffer s' m j) n = file_byte s (ptrs s' m) n"
  by (simp add: file_byte_def)

section \<open>Writing inside a file\<close>

lemma write_phase:
  assumes inv: "fs_inv s" and use: "in_use s n"
    and range: "unat to + unat how_many \<le> fsize s n"
  obtains s' where
    "pointers_write junk (pointer_buffer s n j) buffer how_many to s = Some (0, s')" "fs_inv s'"
    "in_use s' n" "fsize s' n = fsize s n" "owned s' n = owned s n" "free_blocks s' = free_blocks s"
    "\<And>i. i \<le> fsize s n \<Longrightarrow> content s' n i =
       (if unat to \<le> i \<and> i < unat to + unat how_many then buffer (i - unat to) else content s n i)"
    "\<And>m. m \<noteq> n \<Longrightarrow> in_use s m \<Longrightarrow> in_use s' m \<and> fsize s' m = fsize s m \<and> owned s' m = owned s m \<and>
      (\<forall>i < fsize s m. content s' m i = content s m i)"
    "\<And>m. m \<noteq> n \<Longrightarrow> in_use s' m \<Longrightarrow> in_use s m"
proof -
  let ?F = "unat to" and ?H = "unat how_many" and ?pb = "pointer_buffer s n j"
  let ?lo = "?F div 4096" and ?hi = "(?F + ?H) div 4096"
  from inv use have lay: "layout s" and ok: "file_ok s n" by (simp_all add: fs_inv_def)
  note blocks = file_ok_blocks [OF ok]
  have hi: "?hi \<le> fsize s n div 4096" using range by (rule div_le_mono)
  have small: "?F + ?H < 512 * 4096" using range ok by (simp add: file_ok_def)
  note pb = pointer_buffer_entries [OF ok hi]
  obtain s' where w: "pointers_write junk ?pb buffer how_many to s = Some (0, s')"
    "range_written ?pb buffer ?F ?H s s'"
    by (rule pointers_write_refines [OF layout_online [OF lay] small pb(1,2)]) (rule that)
  from w(2) have lay': "layout s'"
    using lay by (auto simp: range_written_def intro: layout_only_storage)
  have outside: "disk s' b x = disk s b x" if "b \<notin> set (owned s n) - {fhead s n}" "x < 4096" for b x
    using range_written_outside [OF w(2) _ that(2)] pb(3) that(1) by blast
  have meta: "disk s' b x = disk s b x" if "b < 9" "x < 4096" for b x
    using that ok by (intro outside) (auto simp: file_ok_def)
  have inodes: "inode s' m = inode s m" if "m < 1024" for m
    unfolding inode_def using that meta
    by (intro inode_at_block_cong) (simp_all add: less_mult_imp_div_less)
  have n1024: "n < 1024" using use by (simp add: in_use_def)
  have bits: "bitmap_used s' = bitmap_used s"
    using lay lay' meta by (intro bitmap_used_cong) (simp_all add: layout_def)
  have fields: "fsize s' n = fsize s n" "fhead s' n = fhead s n" "in_use s' n"
    using inodes [OF n1024] use by (simp_all add: fsize_def fhead_def in_use_def)
  have ptr: "blk (ptrs s' n) k = blk (ptrs s n) k" if "k < 512" for k
    using that by (intro blk_cong) (simp_all add: ptrs_def fields outside)
  have owns: "owned s' n = owned s n"
    using ptr blocks(1) by (simp add: owned_def fields del: upt_Suc)
  have ok': "file_ok s' n" using ok by (simp add: file_ok_def owns fields bits)
  note step = fs_inv_step [OF inv lay', of n]
  have apart: "set (owned s m) \<inter> set (owned s n) = {}" if "m \<noteq> n" "in_use s m" for m
    using inv use that by (auto simp: fs_inv_def)
  then have others: "disk s' b x = disk s b x"
    if "m \<noteq> n" "in_use s m" "b \<in> set (owned s m)" "x < 4096" for m b x
    using that by (intro outside) auto
  show thesis
  proof (rule that [OF w(1) _ fields(3,1) owns])
    show "fs_inv s'"
      by (rule step(1)) (use inodes others bits ok' apart owns in auto)
    show "free_blocks s' = free_blocks s" by (simp add: free_blocks_def bits)
    show "in_use s' m \<and> fsize s' m = fsize s m \<and> owned s' m = owned s m \<and>
        (\<forall>i < fsize s m. content s' m i = content s m i)" if "m \<noteq> n" "in_use s m" for m
      by (rule step(2)) (use inodes others bits ok' apart owns that in auto)
    show "in_use s m" if "m \<noteq> n" "in_use s' m" for m
      using that inodes [of m] by (simp add: in_use_def)
    show "content s' n i = (if ?F \<le> i \<and> i < ?F + ?H then buffer (i - ?F) else content s n i)"
      if i: "i \<le> fsize s n" for i
    proof -
      have k: "i div 4096 \<le> fsize s n div 4096" using i by (rule div_le_mono)
      with blocks(1) have k512: "i div 4096 < 512" by simp
      have eq: "content s' n i = file_byte s' ?pb i" "content s n i = file_byte s ?pb i"
        using k512 ptr by (simp_all add: content_def file_byte_def)
      show ?thesis
      proof (cases "?lo \<le> i div 4096 \<and> i div 4096 \<le> ?hi")
        case True
        then show ?thesis unfolding eq by (intro range_written_file_byte [OF w(2)]) simp_all
      next
        case False
        then have "\<not> (?F \<le> i \<and> i < ?F + ?H)" by (meson div_le_mono less_imp_le)
        moreover have "blk ?pb (i div 4096) \<notin> blk ?pb ` {?lo..?hi}"
          using False k hi
          by (subst inj_on_image_mem_iff [OF pointer_buffer_entries(2) [OF ok order.refl, of j 0]]) auto
        ultimately show ?thesis
          unfolding eq file_byte_def using range_written_outside [OF w(2)] by auto
      qed
    qed
  qed
qed

section \<open>Growing a file\<close>

lemma unat_div_block: "unat (w div BLOCK_SIZE) = unat w div BLOCK_SIZE" for w :: u64
  by (simp add: unat_div)

lemma u64_to_int_block: "unat w < 512 * BLOCK_SIZE \<Longrightarrow> u64_to_int (w div BLOCK_SIZE) = int (unat w div BLOCK_SIZE)"
  by (subst u64_to_int_small) (simp_all add: unat_div_block less_mult_imp_div_less)

text \<open>What \<open>ifile_grow\<close> does to the pointer block and the bitmap when there is room.\<close>

lemma ifile_grow_ok:
  assumes inv: "fs_inv s" and use: "in_use s n" and inode: "inode_at buf1 k = inode s n"
    and size: "fsize s n < unat new_size" "unat new_size < 512 * BLOCK_SIZE"
    and room: "unat new_size div BLOCK_SIZE - fsize s n div BLOCK_SIZE \<le> card (free_blocks s)"
  obtains s' where "ifile_grow junk buf1 k new_size s = Some (0, set_size buf1 k new_size, s')" "layout s'"
    "\<And>c x. c \<noteq> 8 \<Longrightarrow> c \<noteq> fhead s n \<Longrightarrow> x < BLOCK_SIZE \<Longrightarrow> disk s' c x = disk s c x"
    "\<And>i. i \<le> fsize s n div BLOCK_SIZE \<Longrightarrow> blk (disk s' (fhead s n)) i = blk (ptrs s n) i"
    "blk (disk s' (fhead s n)) ` {Suc (fsize s n div BLOCK_SIZE)..unat new_size div BLOCK_SIZE} \<subseteq> free_blocks s"
    "inj_on (blk (disk s' (fhead s n))) {Suc (fsize s n div BLOCK_SIZE)..unat new_size div BLOCK_SIZE}"
    "bitmap_used s' = (\<lambda>b. bitmap_used s b \<or>
       b \<in> blk (disk s' (fhead s n)) ` {Suc (fsize s n div BLOCK_SIZE)..unat new_size div BLOCK_SIZE})"
proof -
  let ?cur = "fsize s n div 4096" and ?last = "unat new_size div 4096"
  let ?h = "head_pointer_block (inode s n)"
  from inv use have lay: "layout s" and ok: "file_ok s n" by (simp_all add: fs_inv_def)
  note blocks = file_ok_blocks [OF ok]
  have last: "?last < 512" and le: "?cur \<le> ?last"
    using size by (simp_all add: less_mult_imp_div_less div_le_mono)
  have nums: "u64_to_int (inode_size (inode s n) div 4096) = int ?cur" "u64_to_int (new_size div 4096) = int ?last"
    using ok size(2) by (simp_all add: u64_to_int_block file_ok_def fsize_def)
  have h: "?h < 16384" "unat ?h = fhead s n"
    using blocks(3) by (simp_all add: fhead_def word_less_nat_alt)
  have cur1: "int_to_u64 (int ?cur + 1) = of_nat (Suc ?cur)"
    by (metis int_to_u64_of_nat of_nat_Suc add.commute)
  let ?pb = "pointer_buffer s n (junk 3)"
  have room': "Suc ?last - Suc ?cur \<le> card (free_blocks s)" using room by simp
  obtain block s1 where g: "grow_loop (junk 0) (of_nat (Suc ?cur)) (of_nat (Suc ?cur)) (of_nat ?last) ?pb s =
      Some (block, s1)" "layout s1"
    "\<And>c x. c \<noteq> 8 \<Longrightarrow> x < BLOCK_SIZE \<Longrightarrow> disk s1 c x = disk s c x"
    "\<And>k. k < 512 \<Longrightarrow> k < Suc ?cur \<or> ?last < k \<Longrightarrow> blk block k = blk ?pb k"
    "blk block ` {Suc ?cur..?last} \<subseteq> free_blocks s" "inj_on (blk block) {Suc ?cur..?last}"
    "bitmap_used s1 = (\<lambda>b. bitmap_used s b \<or> b \<in> blk block ` {Suc ?cur..?last})"
    by (rule grow_loop_ok [OF lay last _ room', where junk = "junk 0" and lo = "of_nat (Suc ?cur)" and block = ?pb])
      (use le in simp, rule that)
  let ?s = "put_block s1 (fhead s n) block"
  have on: "online s1" using g(2) by (rule layout_online)
  have same: "blk (disk ?s (fhead s n)) i = blk block i" if "i < 512" for i
    using that on by (intro blk_cong) (simp_all add: disk_put_block)
  have image: "blk (disk ?s (fhead s n)) ` {Suc ?cur..?last} = blk block ` {Suc ?cur..?last}"
    using last by (intro image_cong refl same) simp
  show thesis
  proof (rule that [of ?s])
    show "ifile_grow junk buf1 k new_size s = Some (0, set_size buf1 k new_size, ?s)"
      unfolding ifile_grow_def inode Let_def nums
      using storage_write_block_ok [OF on h(1), unfolded h(2)] g(1) read_pointer_buffer [OF lay ok] blocks(1)
      by (simp add: cur1 del: of_nat_Suc)
    show "layout ?s" using g(2) by (rule layout_put_block)
    show "disk ?s c x = disk s c x" if "c \<noteq> 8" "c \<noteq> fhead s n" "x < 4096" for c x
      using that g(3) on by (simp add: disk_put_block)
    show "blk (disk ?s (fhead s n)) i = blk (ptrs s n) i" if "i \<le> ?cur" for i
      using that same g(4) [of i] blocks(1) by simp
    show "blk (disk ?s (fhead s n)) ` {Suc ?cur..?last} \<subseteq> free_blocks s"
      unfolding image by (rule g(5))
    show "inj_on (blk (disk ?s (fhead s n))) {Suc ?cur..?last}"
      using g(6) same last by (simp add: inj_on_def)
    show "bitmap_used ?s = (\<lambda>b. bitmap_used s b \<or> b \<in> blk (disk ?s (fhead s n)) ` {Suc ?cur..?last})"
      unfolding image using bitmap_used_put_block [OF g(2), of "fhead s n"] blocks(2) g(7) by simp
  qed
qed

lemma file_okI:
  assumes "fsize s n < 512 * BLOCK_SIZE" "9 \<le> fhead s n" "fhead s n < NUM_BLOCKS" "bitmap_used s (fhead s n)"
    and "inj_on (blk (ptrs s n)) {..fsize s n div BLOCK_SIZE}"
    and "\<And>b. b \<in> blk (ptrs s n) ` {..fsize s n div BLOCK_SIZE} \<Longrightarrow>
      9 \<le> b \<and> b < NUM_BLOCKS \<and> bitmap_used s b \<and> b \<noteq> fhead s n"
  shows "file_ok s n"
proof -
  have "set [0..<Suc (fsize s n div 4096)] = {..fsize s n div 4096}"
    by (simp only: set_upt atLeast0LessThan lessThan_Suc_atMost)
  with assms(5,6) have "distinct (owned s n)"
    unfolding owned_def distinct.simps distinct_map set_map by (auto simp del: upt_Suc)
  with assms show ?thesis by (auto simp: file_ok_def set_owned)
qed

text \<open>A file that has got fresh blocks behind its old ones, in the states before and after.\<close>

lemma extended_file:
  fixes s s2 :: "'a fs_state_scheme" and n :: nat
  defines "lo \<equiv> fsize s n div BLOCK_SIZE" and "hi \<equiv> fsize s2 n div BLOCK_SIZE"
  assumes inv: "fs_inv s" and use: "in_use s n" and head: "fhead s2 n = fhead s n"
    and size: "fsize s n \<le> fsize s2 n" "fsize s2 n < 512 * BLOCK_SIZE"
    and old: "\<And>i. i \<le> lo \<Longrightarrow> blk (ptrs s2 n) i = blk (ptrs s n) i"
    and new: "blk (ptrs s2 n) ` {Suc (lo)..hi} \<subseteq> free_blocks s" "inj_on (blk (ptrs s2 n)) {Suc (lo)..hi}"
    and used: "bitmap_used s2 = (\<lambda>b. bitmap_used s b \<or> b \<in> blk (ptrs s2 n) ` {Suc (lo)..hi})"
  shows "file_ok s2 n" "card (free_blocks s2) = card (free_blocks s) - (hi - lo)"
    "m \<noteq> n \<Longrightarrow> in_use s m \<Longrightarrow> b \<in> set (owned s m) \<Longrightarrow> b \<notin> set (owned s2 n) \<and> 9 \<le> b \<and> b \<noteq> fhead s n"
proof -
  have ok: "file_ok s n" using inv use by (simp add: fs_inv_def)
  note blocks = file_ok_blocks [OF ok]
  have split: "{..hi} = {..lo} \<union> {Suc (lo)..hi}"
    using div_le_mono [OF size(1), of 4096] by (auto simp: lo_def hi_def)
  have newf: "9 \<le> b \<and> b < 16384 \<and> \<not> bitmap_used s b" if "b \<in> blk (ptrs s2 n) ` {Suc (lo)..hi}" for b
    using that new(1) by (auto simp: free_blocks_def)
  have image: "blk (ptrs s2 n) ` {..lo} = blk (ptrs s n) ` {..lo}" using old by (auto intro!: image_cong)
  have oldf: "9 \<le> b \<and> b < 16384 \<and> bitmap_used s b \<and> b \<noteq> fhead s n" if "b \<in> blk (ptrs s2 n) ` {..lo}" for b
    using that blocks(5) unfolding image by (auto simp: lo_def)
  have "inj_on (blk (ptrs s2 n)) {..lo}" using blocks(6) old by (simp add: inj_on_def lo_def)
  with new(2) have inj: "inj_on (blk (ptrs s2 n)) {..hi}" unfolding split inj_on_Un using newf oldf by blast
  show "file_ok s2 n"
  proof (rule file_okI)
    show "9 \<le> b \<and> b < NUM_BLOCKS \<and> bitmap_used s2 b \<and> b \<noteq> fhead s2 n"
      if "b \<in> blk (ptrs s2 n) ` {..fsize s2 n div 4096}" for b
      using that newf [of b] oldf [of b] blocks(4) unfolding used head hi_def [symmetric] split image_Un by blast
  qed (use size blocks(2,3,4) inj in \<open>simp_all add: head used hi_def\<close>)
  have "free_blocks s2 = free_blocks s - blk (ptrs s2 n) ` {Suc (lo)..hi}"
    by (auto simp: free_blocks_def used)
  then show "card (free_blocks s2) = card (free_blocks s) - (hi - lo)"
    using new by (simp add: card_Diff_subset card_image)
  show "b \<notin> set (owned s2 n) \<and> 9 \<le> b \<and> b \<noteq> fhead s n" if "m \<noteq> n" "in_use s m" "b \<in> set (owned s m)"
  proof -
    from inv that(2,3) have b: "9 \<le> b" "bitmap_used s b" by (auto simp: fs_inv_def file_ok_def)
    from inv use that have "b \<notin> set (owned s n)" by (auto simp: fs_inv_def)
    with b newf [of b] show ?thesis
      unfolding set_owned head hi_def [symmetric] split image_Un image by (auto simp: lo_def)
  qed
qed

text \<open>The inodes after the block of an inode is written back with a new size.\<close>

lemma inodes_after_resize:
  fixes v :: u64 and j :: buf
  assumes on: "online s1" and n: "n < MAX_FILES"
    and same: "\<And>c x. c < 8 \<Longrightarrow> x < BLOCK_SIZE \<Longrightarrow> disk s1 c x = disk s c x"
  defines "buf \<equiv> set_size (\<lambda>i. if i < BLOCK_SIZE then disk s (n div 128) i else j i) (n mod 128) v"
  shows "inode (put_block s1 (n div 128) buf) n = (inode s n)\<lparr>inode_size := v\<rparr>"
    "m \<noteq> n \<Longrightarrow> m < MAX_FILES \<Longrightarrow> inode (put_block s1 (n div 128) buf) m = inode s m"
proof -
  let ?old = "\<lambda>i. if i < 4096 then disk s (n div 128) i else j i"
  have disk2: "disk (put_block s1 (n div 128) buf) c x = (if c = n div 128 then buf x else disk s1 c x)"
    if "x < 4096" for c x
    using on that by (rule disk_put_block)
  have "inode (put_block s1 (n div 128) buf) n = inode_at buf (n mod 128)"
    unfolding inode_def using disk2 by (intro inode_at_block_cong) simp_all
  then show "inode (put_block s1 (n div 128) buf) n = (inode s n)\<lparr>inode_size := v\<rparr>"
    by (simp add: buf_def inode_at_set inode_at_read)
  have others: "inode_at buf m = inode_at (disk s (n div 128)) m" if "m < 128" "m \<noteq> n mod 128" for m
  proof -
    have "inode_at buf m = inode_at ?old m" unfolding buf_def using that(2) by (rule inode_at_set_other)
    also have "\<dots> = inode_at (disk s (n div 128)) m" using that(1) by (intro inode_at_block_cong) simp_all
    finally show ?thesis .
  qed
  show "inode (put_block s1 (n div 128) buf) m = inode s m" if "m \<noteq> n" "m < MAX_FILES"
    by (rule inode_of_buffer(2) [of "put_block s1 (n div 128) buf" n buf s m]) (use disk2 others that same in auto)
qed

text \<open>Growing and writing the inode back: the file has its new size and its old bytes.\<close>

lemma grow_phase:
  fixes k :: nat
  assumes inv: "fs_inv s" and use: "in_use s n"
    and size: "fsize s n < unat new_size" "unat new_size < 512 * BLOCK_SIZE"
    and room: "unat new_size div BLOCK_SIZE - fsize s n div BLOCK_SIZE \<le> card (free_blocks s)"
  defines "old \<equiv> \<lambda>j i. if i < BLOCK_SIZE then disk s (n div 128) i else j i"
  obtains s1 s2 where "ifile_grow junk (old j) (n mod 128) new_size s =
      Some (0, set_size (old j) (n mod 128) new_size, s1)" "layout s1"
    "s2 = put_block s1 (n div 128) (set_size (old j) (n mod 128) new_size)"
    "fs_inv s2" "in_use s2 n" "fsize s2 n = unat new_size" "fhead s2 n = fhead s n"
    "head_pointer_block (inode s2 n) = head_pointer_block (inode s n)"
    "\<And>i. i < fsize s n \<Longrightarrow> content s2 n i = content s n i"
    "\<And>m. m \<noteq> n \<Longrightarrow> in_use s m \<Longrightarrow> in_use s2 m \<and> fsize s2 m = fsize s m \<and> owned s2 m = owned s m \<and>
      (\<forall>i < fsize s m. content s2 m i = content s m i)"
    "\<And>m. m \<noteq> n \<Longrightarrow> in_use s2 m \<Longrightarrow> in_use s m"
    "card (free_blocks s2) = card (free_blocks s) - (unat new_size div BLOCK_SIZE - fsize s n div BLOCK_SIZE)"
proof -
  let ?h = "fhead s n" and ?cur = "fsize s n div 4096" and ?last = "unat new_size div 4096"
  let ?buf = "set_size (old j) (n mod 128) new_size"
  from inv use have lay: "layout s" and ok: "file_ok s n" by (simp_all add: fs_inv_def)
  note blocks = file_ok_blocks [OF ok]
  have n1024: "n < 1024" and q: "n div 128 < 8"
    using use by (simp_all add: in_use_def less_mult_imp_div_less)
  have inode: "inode_at (old j) (n mod 128) = inode s n"
    unfolding old_def by (rule inode_at_read)
  obtain s1 where g: "ifile_grow junk (old j) (n mod 128) new_size s = Some (0, ?buf, s1)" "layout s1"
    "\<And>c x. c \<noteq> 8 \<Longrightarrow> c \<noteq> ?h \<Longrightarrow> x < BLOCK_SIZE \<Longrightarrow> disk s1 c x = disk s c x"
    "\<And>i. i \<le> ?cur \<Longrightarrow> blk (disk s1 ?h) i = blk (ptrs s n) i"
    "blk (disk s1 ?h) ` {Suc ?cur..?last} \<subseteq> free_blocks s" "inj_on (blk (disk s1 ?h)) {Suc ?cur..?last}"
    "bitmap_used s1 = (\<lambda>b. bitmap_used s b \<or> b \<in> blk (disk s1 ?h) ` {Suc ?cur..?last})"
    by (rule ifile_grow_ok [OF inv use inode size room, where junk = junk]) (rule that)
  let ?s2 = "put_block s1 (n div 128) ?buf"
  have on: "online s1" using g(2) by (rule layout_online)
  have disk2: "disk ?s2 c x = (if c = n div 128 then ?buf x else disk s1 c x)" if "x < 4096" for c x
    using on that by (rule disk_put_block)
  have lay2: "layout ?s2" using g(2) by (rule layout_put_block)
  have low: "disk s1 c x = disk s c x" if "c < 8" "x < 4096" for c x
    using that blocks(2) by (intro g(3)) simp_all
  have own: "inode ?s2 n = (inode s n)\<lparr>inode_size := new_size\<rparr>"
    unfolding old_def by (rule inodes_after_resize(1) [OF on n1024 low])
  have rest: "inode ?s2 m = inode s m" if "m \<noteq> n" "m < 1024" for m
    unfolding old_def by (rule inodes_after_resize(2) [OF on n1024 low that])
  have fields: "in_use ?s2 n" "fsize ?s2 n = unat new_size" "fhead ?s2 n = ?h"
    using own use by (simp_all add: in_use_def fsize_def fhead_def)
  have ptr: "blk (ptrs ?s2 n) i = blk (disk s1 ?h) i" if "i < 512" for i
    using that q blocks(2) by (intro blk_cong) (simp_all add: ptrs_def fields disk2)
  have last: "?last < 512" using size by (simp add: less_mult_imp_div_less)
  have oldp: "blk (ptrs ?s2 n) i = blk (ptrs s n) i" if "i \<le> ?cur" for i
    using that ptr g(4) blocks(1) by simp
  have image: "blk (ptrs ?s2 n) ` {Suc ?cur..?last} = blk (disk s1 ?h) ` {Suc ?cur..?last}"
    using ptr last by (auto intro!: image_cong)
  have used: "bitmap_used ?s2 = (\<lambda>b. bitmap_used s b \<or> b \<in> blk (ptrs ?s2 n) ` {Suc ?cur..?last})"
    using bitmap_used_put_block [OF g(2), of "n div 128"] q g(7) unfolding image by simp
  have "inj_on (blk (ptrs ?s2 n)) {Suc ?cur..?last}" using g(6) ptr last by (simp add: inj_on_def)
  then have ext: "file_ok ?s2 n" "card (free_blocks ?s2) = card (free_blocks s) - (?last - ?cur)"
    "m \<noteq> n \<Longrightarrow> in_use s m \<Longrightarrow> b \<in> set (owned s m) \<Longrightarrow> b \<notin> set (owned ?s2 n) \<and> 9 \<le> b \<and> b \<noteq> ?h" for m b
    using extended_file [OF inv use fields(3), unfolded fields(2)] size oldp g(5) used image by simp_all
  note step = fs_inv_step [OF inv lay2, of n]
  have keep: "disk ?s2 b x = disk s b x" if "m \<noteq> n" "in_use s m" "b \<in> set (owned s m)" "x < 4096" for m b x
  proof (cases "b = 8")
    case False
    with ext(3) [OF that(1-3)] q that(4) show ?thesis by (simp add: disk2 g(3))
  qed (use ext(3) [OF that(1-3)] in simp)
  have mono: "bitmap_used s b \<Longrightarrow> bitmap_used ?s2 b" for b by (simp add: used)
  show thesis
  proof (rule that [OF g(1,2) refl _ fields])
    show "fs_inv ?s2" by (rule step(1)) (use rest keep mono ext(1,3) in auto)
    show "head_pointer_block (inode ?s2 n) = head_pointer_block (inode s n)" by (simp add: own)
    show "in_use ?s2 m \<and> fsize ?s2 m = fsize s m \<and> owned ?s2 m = owned s m \<and>
        (\<forall>i < fsize s m. content ?s2 m i = content s m i)" if "m \<noteq> n" "in_use s m" for m
      by (rule step(2)) (use rest keep mono ext(1,3) that in auto)
    show "in_use s m" if "m \<noteq> n" "in_use ?s2 m" for m
      using that rest [of m] by (simp add: in_use_def)
    show "card (free_blocks ?s2) = card (free_blocks s) - (?last - ?cur)" by (rule ext(2))
    show "content ?s2 n i = content s n i" if "i < fsize s n" for i
    proof -
      have i: "i div 4096 \<le> ?cur" using that by (simp add: div_le_mono)
      have b: "9 \<le> blk (ptrs s n) (i div 4096)" "blk (ptrs s n) (i div 4096) \<noteq> ?h"
        using blocks(5) [OF i] by simp_all
      with q oldp [OF i] show ?thesis by (simp add: content_def file_byte_def disk2 g(3))
    qed
  qed
qed

section \<open>Writing a file\<close>

text \<open>The write behind the growing part, for the state \<open>s1\<close> in which the range fits the file.\<close>

lemma write_grown:
  assumes ipb: "0 < inodes_per_block s" and read: "read_inode_block junk n s = Some old"
    and grown: "grow_if_needed junk (inode_block s n) (inode_index s n) (to + how_many) old s = Some (buf1, s1)"
    and head: "head_pointer_block (inode_at buf1 (inode_index s n)) = head_pointer_block (inode s1 (unat n))"
    and s1: "fs_inv s1" "in_use s1 (unat n)" and fits: "unat to + unat how_many \<le> fsize s1 (unat n)"
  obtains s' where "ifile_write junk n buffer how_many to s = Some (0, s')" "fs_inv s'"
    "in_use s' (unat n)" "fsize s' (unat n) = fsize s1 (unat n)" "free_blocks s' = free_blocks s1"
    "\<And>i. i \<le> fsize s1 (unat n) \<Longrightarrow> content s' (unat n) i =
       (if unat to \<le> i \<and> i < unat to + unat how_many then buffer (i - unat to) else content s1 (unat n) i)"
    "\<And>m. m \<noteq> unat n \<Longrightarrow> in_use s1 m \<Longrightarrow> in_use s' m \<and> fsize s' m = fsize s1 m \<and>
      (\<forall>i < fsize s1 m. content s' m i = content s1 m i)"
    "\<And>m. m \<noteq> unat n \<Longrightarrow> in_use s' m \<Longrightarrow> in_use s1 m"
proof -
  from s1 have lay1: "layout s1" and ok1: "file_ok s1 (unat n)" by (simp_all add: fs_inv_def)
  obtain s' where w: "pointers_write junk (pointer_buffer s1 (unat n) (junk 2)) buffer how_many to s1 = Some (0, s')"
    "fs_inv s'" "in_use s' (unat n)" "fsize s' (unat n) = fsize s1 (unat n)" "free_blocks s' = free_blocks s1"
    "\<And>i. i \<le> fsize s1 (unat n) \<Longrightarrow> content s' (unat n) i =
       (if unat to \<le> i \<and> i < unat to + unat how_many then buffer (i - unat to) else content s1 (unat n) i)"
    "\<And>m. m \<noteq> unat n \<Longrightarrow> in_use s1 m \<Longrightarrow> in_use s' m \<and> fsize s' m = fsize s1 m \<and> owned s' m = owned s1 m \<and>
      (\<forall>i < fsize s1 m. content s' m i = content s1 m i)"
    "\<And>m. m \<noteq> unat n \<Longrightarrow> in_use s' m \<Longrightarrow> in_use s1 m"
    by (rule write_phase [OF s1 fits, where junk = junk and j = "junk 2" and buffer = buffer]) (rule that)
  have "ifile_write junk n buffer how_many to s = Some (0, s')"
    unfolding ifile_write_def
    using w(1) head read_pointer_buffer [OF lay1 ok1, of "junk 2"] grown by (simp add: ipb read Let_def)
  with w show thesis by (intro that) blast+
qed

text \<open>The growing part, in the state it leaves when the range passes the end of the file.\<close>

lemma grow_if_needed_grows:
  assumes inv: "fs_inv s" and use: "in_use s (unat n)"
    and size: "fsize s (unat n) < unat new_size" "unat new_size < 512 * BLOCK_SIZE"
    and room: "unat new_size div BLOCK_SIZE - fsize s (unat n) div BLOCK_SIZE \<le> card (free_blocks s)"
    and read: "read_inode_block junk n s = Some old"
  obtains buf1 s1 where "grow_if_needed junk (inode_block s n) (inode_index s n) new_size old s = Some (buf1, s1)"
    "head_pointer_block (inode_at buf1 (inode_index s n)) = head_pointer_block (inode s1 (unat n))"
    "fs_inv s1" "in_use s1 (unat n)" "fsize s1 (unat n) = unat new_size"
    "\<And>i. i < fsize s (unat n) \<Longrightarrow> content s1 (unat n) i = content s (unat n) i"
    "\<And>m. m \<noteq> unat n \<Longrightarrow> in_use s m \<Longrightarrow> in_use s1 m \<and> fsize s1 m = fsize s m \<and> owned s1 m = owned s m \<and>
      (\<forall>i < fsize s m. content s1 m i = content s m i)"
    "\<And>m. m \<noteq> unat n \<Longrightarrow> in_use s1 m \<Longrightarrow> in_use s m"
    "card (free_blocks s1) = card (free_blocks s) - (unat new_size div BLOCK_SIZE - fsize s (unat n) div BLOCK_SIZE)"
proof -
  let ?n = "unat n"
  let ?old = "\<lambda>i. if i < 4096 then disk s (?n div 128) i else junk 1 i"
  from inv have lay: "layout s" by (simp add: fs_inv_def)
  have n1024: "?n < 1024" using use by (simp add: in_use_def)
  note pos = inode_position [OF lay n1024]
  have old: "old = ?old" using read read_inode_block_ok [OF lay n1024, of junk] by simp
  have inode: "inode_at ?old (?n mod 128) = inode s ?n" by (rule inode_at_read)
  let ?buf = "set_size ?old (?n mod 128) new_size"
  obtain s1 s2 where g: "ifile_grow junk ?old (?n mod 128) new_size s = Some (0, ?buf, s1)" "layout s1"
    "s2 = put_block s1 (?n div 128) ?buf"
    "fs_inv s2" "in_use s2 ?n" "fsize s2 ?n = unat new_size" "fhead s2 ?n = fhead s ?n"
    "head_pointer_block (inode s2 ?n) = head_pointer_block (inode s ?n)"
    "\<And>i. i < fsize s ?n \<Longrightarrow> content s2 ?n i = content s ?n i"
    "\<And>m. m \<noteq> ?n \<Longrightarrow> in_use s m \<Longrightarrow> in_use s2 m \<and> fsize s2 m = fsize s m \<and> owned s2 m = owned s m \<and>
      (\<forall>i < fsize s m. content s2 m i = content s m i)"
    "\<And>m. m \<noteq> ?n \<Longrightarrow> in_use s2 m \<Longrightarrow> in_use s m"
    "card (free_blocks s2) = card (free_blocks s) - (unat new_size div 4096 - fsize s ?n div 4096)"
    by (rule grow_phase [OF inv use size room, where junk = junk and j = "junk 1"]) (rule that)
  have "inode_block s n < 16384" using pos(3) by (rule less_trans) simp
  from storage_write_block_ok [OF layout_online [OF g(2)] this, unfolded pos(1)]
  have store: "storage_write_block s1 (inode_block s n) d = Some (0, put_block s1 (?n div 128) d)" for d .
  have more: "new_size > inode_size (inode s ?n)" using size(1) by (simp add: word_less_nat_alt fsize_def)
  show thesis
  proof (rule that [of ?buf s2])
    show "grow_if_needed junk (inode_block s n) (inode_index s n) new_size old s = Some (?buf, s2)"
      using more g(1,3) store by (simp add: grow_if_needed_def inode old pos(2))
    show "head_pointer_block (inode_at ?buf (inode_index s n)) = head_pointer_block (inode s2 ?n)"
      by (simp add: inode_at_set inode g(8) pos(2))
  qed (use g(4-6,9-) in blast)+
qed

text \<open>
  A write of a range that fits the pointer block and the free space puts exactly the
  buffer into the range, extends the size when the range passes the end, and leaves the
  rest of this file and every other file as they were.
\<close>

lemma ifile_write_ok:
  assumes inv: "fs_inv s" and use: "in_use s (unat n)"
    and fits: "unat to + unat how_many < 512 * BLOCK_SIZE"
    and room: "(unat to + unat how_many) div BLOCK_SIZE - fsize s (unat n) div BLOCK_SIZE \<le> card (free_blocks s)"
  obtains s' where "ifile_write junk n buffer how_many to s = Some (0, s')" "fs_inv s'" "in_use s' (unat n)"
    "fsize s' (unat n) = max (fsize s (unat n)) (unat to + unat how_many)"
    "\<And>i. unat to \<le> i \<Longrightarrow> i < unat to + unat how_many \<Longrightarrow> content s' (unat n) i = buffer (i - unat to)"
    "\<And>i. i < fsize s (unat n) \<Longrightarrow> \<not> (unat to \<le> i \<and> i < unat to + unat how_many) \<Longrightarrow>
      content s' (unat n) i = content s (unat n) i"
    "\<And>m. m \<noteq> unat n \<Longrightarrow> in_use s m \<Longrightarrow> in_use s' m \<and> fsize s' m = fsize s m \<and>
      (\<forall>i < fsize s m. content s' m i = content s m i)"
    "\<And>m. m \<noteq> unat n \<Longrightarrow> in_use s' m \<Longrightarrow> in_use s m"
    "card (free_blocks s') = card (free_blocks s) -
      ((unat to + unat how_many) div BLOCK_SIZE - fsize s (unat n) div BLOCK_SIZE)"
proof -
  let ?n = "unat n" and ?stop = "unat to + unat how_many"
  from inv have lay: "layout s" by (simp add: fs_inv_def)
  have n1024: "?n < 1024" using use by (simp add: in_use_def)
  have sum: "unat (to + how_many) = ?stop" using fits by (subst unat_add_lem [symmetric]) simp
  have ipb: "0 < inodes_per_block s" using lay by (simp add: layout_def)
  let ?old = "\<lambda>i. if i < 4096 then disk s (?n div 128) i else junk 1 i"
  note read = read_inode_block_ok [OF lay n1024, of junk]
  have inode: "inode_at ?old (inode_index s n) = inode s ?n"
    unfolding inode_position(2) [OF lay n1024] by (rule inode_at_read)
  obtain buf1 s1 where g: "grow_if_needed junk (inode_block s n) (inode_index s n) (to + how_many) ?old s = Some (buf1, s1)"
    "head_pointer_block (inode_at buf1 (inode_index s n)) = head_pointer_block (inode s1 ?n)"
    "fs_inv s1" "in_use s1 ?n" "fsize s1 ?n = max (fsize s ?n) ?stop"
    "\<And>i. i < fsize s ?n \<Longrightarrow> content s1 ?n i = content s ?n i"
    "\<And>m. m \<noteq> ?n \<Longrightarrow> in_use s m \<Longrightarrow> in_use s1 m \<and> fsize s1 m = fsize s m \<and> owned s1 m = owned s m \<and>
      (\<forall>i < fsize s m. content s1 m i = content s m i)"
    "\<And>m. m \<noteq> ?n \<Longrightarrow> in_use s1 m \<Longrightarrow> in_use s m"
    "card (free_blocks s1) = card (free_blocks s) - (?stop div 4096 - fsize s ?n div 4096)"
  proof (cases "fsize s ?n < ?stop")
    case True
    then have max: "max (fsize s ?n) ?stop = ?stop" by simp
    show thesis
      by (rule grow_if_needed_grows [OF inv use True [folded sum] fits [folded sum] room [folded sum] read, unfolded sum])
        (rule that [unfolded max])
  next
    case False
    then have "\<not> to + how_many > inode_size (inode s ?n)" by (simp add: word_less_nat_alt sum fsize_def)
    moreover have "?stop div 4096 - fsize s ?n div 4096 = 0" using False by (simp add: div_le_mono)
    ultimately show thesis using False
      by (intro that [of ?old s]) (use inv use inode in \<open>auto simp: grow_if_needed_def\<close>)
  qed
  have le: "?stop \<le> fsize s1 ?n" by (simp add: g(5))
  obtain s' where w: "ifile_write junk n buffer how_many to s = Some (0, s')" "fs_inv s'"
    "in_use s' ?n" "fsize s' ?n = fsize s1 ?n" "free_blocks s' = free_blocks s1"
    "\<And>i. i \<le> fsize s1 ?n \<Longrightarrow> content s' ?n i =
       (if unat to \<le> i \<and> i < ?stop then buffer (i - unat to) else content s1 ?n i)"
    "\<And>m. m \<noteq> ?n \<Longrightarrow> in_use s1 m \<Longrightarrow> in_use s' m \<and> fsize s' m = fsize s1 m \<and>
      (\<forall>i < fsize s1 m. content s' m i = content s1 m i)"
    "\<And>m. m \<noteq> ?n \<Longrightarrow> in_use s' m \<Longrightarrow> in_use s1 m"
    by (rule write_grown [OF ipb read g(1-4) le, where buffer = buffer]) (rule that)
  show thesis
  proof (rule that [OF w(1-3)])
    show "content s' ?n i = buffer (i - unat to)" if "unat to \<le> i" "i < ?stop" for i
      using that le w(6) [of i] by simp
    show "content s' ?n i = content s ?n i" if "i < fsize s ?n" "\<not> (unat to \<le> i \<and> i < ?stop)" for i
      using that w(6) [of i] g(5,6) by auto
    show "card (free_blocks s') = card (free_blocks s) - (?stop div 4096 - fsize s ?n div 4096)"
      using w(5) g(9) by simp
    show "fsize s' ?n = max (fsize s ?n) ?stop" using w(4) g(5) by simp
    show "in_use s' m \<and> fsize s' m = fsize s m \<and> (\<forall>i < fsize s m. content s' m i = content s m i)"
      if "m \<noteq> ?n" "in_use s m" for m
      using g(7) [OF that] w(7) [OF that(1)] by simp
    show "in_use s m" if "m \<noteq> ?n" "in_use s' m" for m
      using that(2) by (intro g(8) [OF that(1)] w(8) [OF that(1)])
  qed
qed

end
