(* ===== verification/FS_Spec.thy ===== *)
theory FS_Spec imports FS_Write begin

text \<open>
  The abstract filesystem: a partial map from inode numbers to the bytes of the file. The
  lemmas of this theory show that creating, writing and reading in the model of
  \<open>HW4-skeleton/files.c\<close> refine the obvious operations on that map, one at a time and
  in sequences, as long as there is room on the device.
\<close>

section \<open>Reading a file\<close>

lemma ifile_read_cases:
  assumes inv: "fs_inv s" and use: "in_use s (unat n)"
    and nowrap: "unat from_pos + unat how_many < 2 ^ 64"
  shows "ifile_read junk n buffer how_many from_pos s =
    (if unat from_pos + unat how_many \<le> fsize s (unat n)
     then Some (0, \<lambda>i. if i < unat how_many then content s (unat n) (unat from_pos + i) else buffer i)
     else Some (-1, buffer))"
proof -
  let ?n = "unat n" and ?stop = "unat from_pos + unat how_many" and ?pb = "pointer_buffer s (unat n) (junk 2)"
  from inv use have lay: "layout s" and ok: "file_ok s ?n" by (simp_all add: fs_inv_def)
  have n1024: "?n < 1024" using use by (simp add: in_use_def)
  note pos = inode_position [OF lay n1024]
  note read = read_inode_block_ok [OF lay n1024, of junk]
  have inode: "inode_at (\<lambda>i. if i < 4096 then disk s (?n div 128) i else junk 1 i) (?n mod 128) = inode s ?n"
    by (rule inode_at_read)
  have sum: "unat (from_pos + how_many) = ?stop"
    using nowrap by (subst unat_add_lem [symmetric]) simp
  have ipb: "0 < inodes_per_block s" using lay by (simp add: layout_def)
  show ?thesis
  proof (cases "?stop \<le> fsize s ?n")
    case True
    then have hi: "?stop div 4096 \<le> fsize s ?n div 4096" by (rule div_le_mono)
    have small: "?stop < 512 * 4096" using True ok by (simp add: file_ok_def)
    note pb = pointer_buffer_entries [OF ok hi]
    have bytes: "file_byte s ?pb (unat from_pos + i) = content s ?n (unat from_pos + i)"
      if "i < unat how_many" for i
      using that small unfolding content_def
      by (intro file_byte_pointer_buffer) (simp add: less_mult_imp_div_less)
    have "pointers_read junk s ?pb buffer how_many from_pos =
        Some (0, \<lambda>i. if i < unat how_many then content s ?n (unat from_pos + i) else buffer i)"
      unfolding pointers_read_refines [OF layout_online [OF lay] small pb(1)] using bytes by auto
    moreover have "\<not> from_pos + how_many > inode_size (inode s ?n)"
      using True by (simp add: word_less_nat_alt sum fsize_def)
    ultimately show ?thesis
      using True unfolding ifile_read_def
      by (simp add: ipb read pos(2) inode Let_def read_pointer_buffer [OF lay ok])
  next
    case False
    then have "from_pos + how_many > inode_size (inode s ?n)"
      by (simp add: word_less_nat_alt sum fsize_def)
    with False show ?thesis
      unfolding ifile_read_def by (simp add: ipb read pos(2) inode Let_def)
  qed
qed

section \<open>The abstract filesystem\<close>

type_synonym files = "nat \<rightharpoonup> u8 list"

definition file_bytes :: "'a fs_state_scheme \<Rightarrow> nat \<Rightarrow> u8 list" where
  "file_bytes s n = map (content s n) [0..<fsize s n]"

definition fs_abs :: "'a fs_state_scheme \<Rightarrow> files" where
  "fs_abs s n = (if in_use s n then Some (file_bytes s n) else None)"

definition overwrite :: "u8 list \<Rightarrow> nat \<Rightarrow> u8 list \<Rightarrow> u8 list" where
  "overwrite old to data = take to old @ data @ drop (to + length data) old"

text \<open>The bytes an operation finds behind a buffer argument.\<close>
definition bytes_at :: "buf \<Rightarrow> u64 \<Rightarrow> u8 list" where
  "bytes_at buffer how_many = map buffer [0..<unat how_many]"

lemma length_file_bytes [simp]: "length (file_bytes s n) = fsize s n"
  by (simp add: file_bytes_def)

lemma length_bytes_at [simp]: "length (bytes_at b h) = unat h"
  by (simp add: bytes_at_def)

lemma length_overwrite [simp]:
  "to \<le> length old \<Longrightarrow> length (overwrite old to data) = max (length old) (to + length data)"
  by (simp add: overwrite_def)

lemma nth_overwrite:
  assumes "to \<le> length old" "i < length (overwrite old to data)"
  shows "overwrite old to data ! i =
    (if to \<le> i \<and> i < to + length data then data ! (i - to) else old ! i)"
proof -
  consider "i < to" | "to \<le> i" "i < to + length data" | "to + length data \<le> i" by linarith
  then show ?thesis
    using assms by cases (auto simp: overwrite_def nth_append min_def)
qed

lemma fs_abs_frame:
  assumes "\<And>m. m \<noteq> n \<Longrightarrow> in_use s m \<Longrightarrow> in_use s' m \<and> fsize s' m = fsize s m \<and>
      (\<forall>i < fsize s m. content s' m i = content s m i)"
    and "\<And>m. m \<noteq> n \<Longrightarrow> in_use s' m \<Longrightarrow> in_use s m"
    and "in_use s' n" "file_bytes s' n = bs"
  shows "fs_abs s' = (fs_abs s)(n \<mapsto> bs)"
proof
  fix m
  have "file_bytes s' m = file_bytes s m" if "m \<noteq> n" "in_use s m"
    using assms(1) [OF that] by (simp add: file_bytes_def)
  with assms show "fs_abs s' m = ((fs_abs s)(n \<mapsto> bs)) m"
    by (auto simp: fs_abs_def)
qed

section \<open>Each operation refines its abstract counterpart\<close>

lemma format_refines:
  assumes "storage s = Some m"
  obtains s' where "format junk s = Some s'" "fs_inv s'" "fs_abs s' = Map.empty"
    "card (free_blocks s') = NUM_BLOCKS - 9"
proof -
  obtain s' where "format junk s = Some s'" "layout s'" "fs_inv s'"
    "\<And>n. \<not> in_use s' n" "free_blocks s' = {9..<NUM_BLOCKS}"
    by (rule format_ok [OF assms, where junk = junk]) (rule that)
  then show thesis by (intro that) (auto simp: fs_abs_def)
qed

lemma create_refines:
  assumes "fs_inv s" "n \<le> 8" "2 \<le> card (free_blocks s)"
  obtains s' where "ifile_create junk n s = Some (0, s')" "fs_inv s'"
    "fs_abs s' = (fs_abs s)(unat n \<mapsto> [])" "card (free_blocks s') = card (free_blocks s) - 2"
proof -
  obtain s' where c: "ifile_create junk n s = Some (0, s')" "fs_inv s'" "in_use s' (unat n)"
    "fsize s' (unat n) = 0" "card (free_blocks s') = card (free_blocks s) - 2"
    "\<And>m. m \<noteq> unat n \<Longrightarrow> in_use s m \<Longrightarrow> in_use s' m \<and> fsize s' m = fsize s m \<and>
      owned s' m = owned s m \<and> (\<forall>i < fsize s m. content s' m i = content s m i)"
    "\<And>m. m \<noteq> unat n \<Longrightarrow> in_use s' m \<Longrightarrow> in_use s m"
    by (rule ifile_create_inv [OF assms, where junk = junk]) (rule that)
  have "fs_abs s' = (fs_abs s)(unat n \<mapsto> [])"
    by (rule fs_abs_frame) (use c in \<open>auto simp: file_bytes_def\<close>)
  with c show thesis by (intro that)
qed

text \<open>The data blocks a file of \<open>old\<close> bytes needs in addition to hold \<open>new\<close> bytes.\<close>
definition extra_blocks :: "nat \<Rightarrow> nat \<Rightarrow> nat" where
  "extra_blocks old new = new div BLOCK_SIZE - old div BLOCK_SIZE"

lemma write_refines:
  assumes inv: "fs_inv s" and old: "fs_abs s (unat n) = Some old" "unat to \<le> length old"
    and fits: "unat to + unat how_many < 512 * BLOCK_SIZE"
    and room: "extra_blocks (length old) (unat to + unat how_many) \<le> card (free_blocks s)"
  obtains s' where "ifile_write junk n buffer how_many to s = Some (0, s')" "fs_inv s'"
    "fs_abs s' = (fs_abs s)(unat n \<mapsto> overwrite old (unat to) (bytes_at buffer how_many))"
    "card (free_blocks s') = card (free_blocks s) - extra_blocks (length old) (unat to + unat how_many)"
proof -
  from old have use: "in_use s (unat n)" and bytes: "old = file_bytes s (unat n)"
    by (auto simp: fs_abs_def split: if_splits)
  then have len: "length old = fsize s (unat n)" by simp
  obtain s' where w: "ifile_write junk n buffer how_many to s = Some (0, s')" "fs_inv s'" "in_use s' (unat n)"
    "fsize s' (unat n) = max (fsize s (unat n)) (unat to + unat how_many)"
    "\<And>i. unat to \<le> i \<Longrightarrow> i < unat to + unat how_many \<Longrightarrow> content s' (unat n) i = buffer (i - unat to)"
    "\<And>i. i < fsize s (unat n) \<Longrightarrow> \<not> (unat to \<le> i \<and> i < unat to + unat how_many) \<Longrightarrow>
      content s' (unat n) i = content s (unat n) i"
    "\<And>m. m \<noteq> unat n \<Longrightarrow> in_use s m \<Longrightarrow> in_use s' m \<and> fsize s' m = fsize s m \<and>
      (\<forall>i < fsize s m. content s' m i = content s m i)"
    "\<And>m. m \<noteq> unat n \<Longrightarrow> in_use s' m \<Longrightarrow> in_use s m"
    "card (free_blocks s') = card (free_blocks s) -
      ((unat to + unat how_many) div BLOCK_SIZE - fsize s (unat n) div BLOCK_SIZE)"
    by (rule ifile_write_ok [OF inv use fits room [unfolded extra_blocks_def len],
          where junk = junk and buffer = buffer]) (rule that)
  have "file_bytes s' (unat n) = overwrite old (unat to) (bytes_at buffer how_many)"
  proof (rule nth_equalityI)
    show "length (file_bytes s' (unat n)) = length (overwrite old (unat to) (bytes_at buffer how_many))"
      using old(2) by (simp add: w(4) len)
    fix i assume i: "i < length (file_bytes s' (unat n))"
    then have i': "i < length (overwrite old (unat to) (bytes_at buffer how_many))"
      using old(2) by (simp add: w(4) len)
    show "file_bytes s' (unat n) ! i = overwrite old (unat to) (bytes_at buffer how_many) ! i"
      using i i' w(4-6) old(2) unfolding nth_overwrite [OF old(2) i']
      by (auto simp: file_bytes_def bytes_at_def bytes)
  qed
  then have "fs_abs s' = (fs_abs s)(unat n \<mapsto> overwrite old (unat to) (bytes_at buffer how_many))"
    using w(3,7,8) by (intro fs_abs_frame)
  with w show thesis by (intro that) (simp_all add: extra_blocks_def len)
qed

lemma read_refines:
  assumes inv: "fs_inv s" and bytes: "fs_abs s (unat n) = Some bs"
    and nowrap: "unat from_pos + unat how_many < 2 ^ 64"
  shows "ifile_read junk n buffer how_many from_pos s =
    (if unat from_pos + unat how_many \<le> length bs
     then Some (0, \<lambda>i. if i < unat how_many then bs ! (unat from_pos + i) else buffer i)
     else Some (-1, buffer))"
proof -
  from bytes have use: "in_use s (unat n)" and bs: "bs = file_bytes s (unat n)"
    by (auto simp: fs_abs_def split: if_splits)
  show ?thesis
    unfolding ifile_read_cases [OF inv use nowrap]
    by (auto simp: bs file_bytes_def fun_eq_iff)
qed

section \<open>Sequences of operations\<close>

text \<open>A client's operation: create a file, or write a buffer into a file.\<close>
datatype fs_op = Create u64 | Write u64 buf u64 u64

primrec run_op :: "junk \<Rightarrow> fs_op \<Rightarrow> 'a fs_state_scheme \<Rightarrow> (int \<times> 'a fs_state_scheme) option" where
  "run_op junk (Create n) s = ifile_create junk n s"
| "run_op junk (Write n buffer how_many to) s = ifile_write junk n buffer how_many to s"

text \<open>Each operation runs on its own stack, so each has its own uninitialised buffers.\<close>
primrec run_ops :: "(junk \<times> fs_op) list \<Rightarrow> 'a fs_state_scheme \<Rightarrow> (int list \<times> 'a fs_state_scheme) option" where
  "run_ops [] s = Some ([], s)"
| "run_ops (op # ops) s =
     do {
       (r, s) \<leftarrow> run_op (fst op) (snd op) s;
       (rs, s) \<leftarrow> run_ops ops s;
       Some (r # rs, s)
     }"

text \<open>
  The abstract operation on the map of files and the number of free blocks; \<open>None\<close> when
  the device or the file cannot take it.
\<close>
primrec spec_op :: "fs_op \<Rightarrow> nat \<times> files \<Rightarrow> (nat \<times> files) option" where
  "spec_op (Create n) st =
     (if n \<le> 8 \<and> 2 \<le> fst st then Some (fst st - 2, (snd st)(unat n \<mapsto> [])) else None)"
| "spec_op (Write n buffer how_many to) st =
     (case snd st (unat n) of
        None \<Rightarrow> None
      | Some old \<Rightarrow>
          (if unat to \<le> length old \<and> unat to + unat how_many < 512 * BLOCK_SIZE \<and>
              extra_blocks (length old) (unat to + unat how_many) \<le> fst st
           then Some (fst st - extra_blocks (length old) (unat to + unat how_many),
                  (snd st)(unat n \<mapsto> overwrite old (unat to) (bytes_at buffer how_many)))
           else None))"

primrec spec_ops :: "fs_op list \<Rightarrow> nat \<times> files \<Rightarrow> (nat \<times> files) option" where
  "spec_ops [] st = Some st"
| "spec_ops (op # ops) st = do { st \<leftarrow> spec_op op st; spec_ops ops st }"

text \<open>The states of the model that implement an abstract state.\<close>
definition implements :: "'a fs_state_scheme \<Rightarrow> nat \<times> files \<Rightarrow> bool" where
  "implements s st \<longleftrightarrow> fs_inv s \<and> st = (card (free_blocks s), fs_abs s)"

lemma run_op_refines:
  assumes "implements s st" "spec_op op st = Some st'"
  obtains s' where "run_op junk op s = Some (0, s')" "implements s' st'"
proof (cases op)
  case (Create n)
  with assms have c: "fs_inv s" "n \<le> 8" "2 \<le> card (free_blocks s)"
    and st': "st' = (card (free_blocks s) - 2, (fs_abs s)(unat n \<mapsto> []))"
    by (auto simp: implements_def split: if_splits)
  obtain s' where "ifile_create junk n s = Some (0, s')" "fs_inv s'"
    "fs_abs s' = (fs_abs s)(unat n \<mapsto> [])" "card (free_blocks s') = card (free_blocks s) - 2"
    by (rule create_refines [OF c, where junk = junk]) (rule that)
  with Create st' show thesis by (intro that [of s']) (simp_all add: implements_def)
next
  case (Write n buffer how_many to)
  with assms obtain old where o: "fs_inv s" "fs_abs s (unat n) = Some old" "unat to \<le> length old"
    "unat to + unat how_many < 512 * 4096"
    "extra_blocks (length old) (unat to + unat how_many) \<le> card (free_blocks s)"
    and st': "st' = (card (free_blocks s) - extra_blocks (length old) (unat to + unat how_many),
      (fs_abs s)(unat n \<mapsto> overwrite old (unat to) (bytes_at buffer how_many)))"
    by (auto simp: implements_def split: if_splits option.splits)
  obtain s' where "ifile_write junk n buffer how_many to s = Some (0, s')" "fs_inv s'"
    "fs_abs s' = (fs_abs s)(unat n \<mapsto> overwrite old (unat to) (bytes_at buffer how_many))"
    "card (free_blocks s') = card (free_blocks s) - extra_blocks (length old) (unat to + unat how_many)"
    by (rule write_refines [OF o, where junk = junk and buffer = buffer]) (rule that)
  with Write st' show thesis by (intro that [of s']) (simp_all add: implements_def)
qed

lemma run_ops_refines:
  assumes "implements s st" "spec_ops (map snd ops) st = Some st'"
  obtains s' where "run_ops ops s = Some (replicate (length ops) 0, s')" "implements s' st'"
  using assms
proof (induction ops arbitrary: s st thesis)
  case (Cons op ops)
  from Cons.prems(3) obtain st1 where st1: "spec_op (snd op) st = Some st1" "spec_ops (map snd ops) st1 = Some st'"
    by (auto split: Option.bind_splits)
  obtain s1 where s1: "run_op (fst op) (snd op) s = Some (0, s1)" "implements s1 st1"
    by (rule run_op_refines [OF Cons.prems(2) st1(1), where junk = "fst op"]) (rule that)
  obtain s' where "run_ops ops s1 = Some (replicate (length ops) 0, s')" "implements s' st'"
    by (rule Cons.IH [OF _ s1(2) st1(2)]) (rule that)
  with s1(1) show ?case by (intro Cons.prems(1) [of s']) simp_all
qed simp

end
