(* ===== verification/FS_Properties.thy ===== *)
theory FS_Properties imports FS_Spec begin

text \<open>
  The properties of the filesystem of \<open>HW4-skeleton\<close>: what clients may rely on, and
  what the error paths really do. Each is a short consequence of the lemmas of the
  component theories; the witnesses run them on a device that has just been allocated.
\<close>

section \<open>A concrete device\<close>

definition new_device :: fs_state where
  "new_device = \<lparr>storage = Some (\<lambda>_. 0), bitmap_first_block = 0, bitmap_number_blocks = 0,
     first_allocatable = 0, last_allocatable = 0, inodes_per_block = -1,
     number_inode_blocks = -1, number_bitmap_blocks = -1\<rparr>"

definition stack_junk :: junk where
  "stack_junk = (\<lambda>_ _. 85)"

definition sample_buffer :: buf where
  "sample_buffer = (\<lambda>i. of_nat (i + 65))"

lemma storage_new_device: "storage new_device = Some (\<lambda>_. 0)"
  by (simp add: new_device_def)

text \<open>A formatted device on which inode 3 has been created.\<close>

lemma sample_file:
  obtains s :: fs_state where "implements s (16373, [3 \<mapsto> []])"
proof -
  obtain s0 where s0: "format stack_junk new_device = Some s0" "fs_inv s0" "fs_abs s0 = Map.empty"
    "card (free_blocks s0) = 16384 - 9"
    by (rule format_refines [OF storage_new_device, where junk = stack_junk]) (rule that)
  then have "implements s0 (16375, Map.empty)" by (simp add: implements_def)
  moreover have "spec_op (Create 3) (16375, Map.empty) = Some (16373, [3 \<mapsto> []])"
    by simp
  ultimately obtain s1 where "run_op stack_junk (Create 3) s0 = Some (0, s1)" "implements s1 (16373, [3 \<mapsto> []])"
    by (rule run_op_refines)
  then show thesis by (intro that)
qed

section \<open>The operations on files\<close>

text \<open>
  C1: Formatting a device and then running any sequence of creations and writes that the
  abstract filesystem accepts (inodes 0 to 8, no gap behind the end of a file, at most 512
  blocks per file, enough free blocks) succeeds: every operation returns 0, the on-disk
  invariant holds at the end, the files hold exactly the abstract contents, and the number
  of free blocks is the abstract one.
\<close>
theorem file_operations_refine:
  assumes "storage s = Some m"
    and "spec_ops (map snd ops) (NUM_BLOCKS - 9, Map.empty) = Some (free, files)"
  shows "\<exists>s0 s'. format junk s = Some s0 \<and> run_ops ops s0 = Some (replicate (length ops) 0, s') \<and>
    fs_inv s' \<and> fs_abs s' = files \<and> card (free_blocks s') = free"
proof -
  obtain s0 where s0: "format junk s = Some s0" "fs_inv s0" "fs_abs s0 = Map.empty"
    "card (free_blocks s0) = 16384 - 9"
    by (rule format_refines [OF assms(1), where junk = junk]) (rule that)
  then have "implements s0 (16384 - 9, Map.empty)" by (simp add: implements_def)
  from run_ops_refines [OF this assms(2)] obtain s' where
    "run_ops ops s0 = Some (replicate (length ops) 0, s')" "implements s' (free, files)" .
  with s0(1) show ?thesis by (auto simp: implements_def)
qed

theorem file_operations_refine_witness:
  "\<exists>s0 s'. format stack_junk new_device = Some s0 \<and>
    run_ops [(stack_junk, Create 3), (stack_junk, Write 3 sample_buffer 4 0),
      (stack_junk, Write 3 sample_buffer 2 3)] s0 = Some ([0, 0, 0], s') \<and>
    fs_inv s' \<and> fs_abs s' = [3 \<mapsto> [65, 66, 67, 65, 66]] \<and> card (free_blocks s') = 16373"
proof -
  have "spec_ops (map snd [(stack_junk, Create 3), (stack_junk, Write 3 sample_buffer 4 0),
      (stack_junk, Write 3 sample_buffer 2 3)]) (16384 - 9, Map.empty) =
      Some (16373, [3 \<mapsto> [65, 66, 67, 65, 66]])"
    by (simp add: extra_blocks_def overwrite_def bytes_at_def sample_buffer_def upt_rec)
  from file_operations_refine [OF storage_new_device this, of stack_junk] show ?thesis
    by (simp add: numeral_3_eq_3)
qed

text \<open>
  C8: A write of any range that fits the file and the device returns 0, and reading the same
  range back gives exactly the bytes written, whatever the read buffer and the uninitialised
  stack contained; the rest of the file system keeps its invariant.
\<close>
theorem write_then_read:
  assumes inv: "fs_inv s" and use: "in_use s (unat n)"
    and fits: "unat to + unat how_many < 512 * BLOCK_SIZE"
    and room: "extra_blocks (fsize s (unat n)) (unat to + unat how_many) \<le> card (free_blocks s)"
  shows "\<exists>s'. ifile_write junk n buffer how_many to s = Some (0, s') \<and> fs_inv s' \<and>
    ifile_read junk' n old how_many to s' =
      Some (0, \<lambda>i. if i < unat how_many then buffer i else old i)"
proof -
  obtain s' where w: "ifile_write junk n buffer how_many to s = Some (0, s')" "fs_inv s'"
    "in_use s' (unat n)" "fsize s' (unat n) = max (fsize s (unat n)) (unat to + unat how_many)"
    "\<And>i. unat to \<le> i \<Longrightarrow> i < unat to + unat how_many \<Longrightarrow> content s' (unat n) i = buffer (i - unat to)"
    by (rule ifile_write_ok [OF inv use fits room [unfolded extra_blocks_def],
          where junk = junk and buffer = buffer]) (rule that)
  have "ifile_read junk' n old how_many to s' = Some (0, \<lambda>i. if i < unat how_many then buffer i else old i)"
    using ifile_read_cases [OF w(2,3), of to how_many junk' old] fits w(4,5) by (auto simp: fun_eq_iff)
  with w show ?thesis by blast
qed

theorem write_then_read_witness:
  "\<exists>(s :: fs_state) s'. ifile_write stack_junk 3 sample_buffer 5000 0 s = Some (0, s') \<and> fs_inv s' \<and>
    ifile_read stack_junk 3 (\<lambda>_. 0) 5000 0 s' =
      Some (0, \<lambda>i. if i < 5000 then sample_buffer i else 0)"
proof -
  obtain s :: fs_state where "implements s (16373, [3 \<mapsto> []])" by (rule sample_file)
  then have "fs_inv s" "fs_abs s 3 = Some []" "card (free_blocks s) = 16373"
    by (auto simp: implements_def dest!: fun_cong [where x = 3])
  moreover from this(2) have "in_use s 3" "fsize s 3 = 0"
    by (auto simp: fs_abs_def file_bytes_def split: if_splits)
  ultimately show ?thesis
    using write_then_read [of s 3 0 5000 stack_junk sample_buffer stack_junk "\<lambda>_. 0"]
    by (auto simp: extra_blocks_def)
qed

text \<open>
  C9: A write changes only the file it names: with room for the new blocks it overwrites
  the range in that file, extends it when the range passes its end, and leaves the size and
  bytes of every other file as they were.
\<close>
theorem write_changes_one_file:
  assumes "fs_inv s" "fs_abs s (unat n) = Some old" "unat to \<le> length old"
    and "unat to + unat how_many < 512 * BLOCK_SIZE"
    and "extra_blocks (length old) (unat to + unat how_many) \<le> card (free_blocks s)"
  shows "\<exists>s'. ifile_write junk n buffer how_many to s = Some (0, s') \<and> fs_inv s' \<and>
    fs_abs s' = (fs_abs s)(unat n \<mapsto> overwrite old (unat to) (bytes_at buffer how_many))"
  by (rule write_refines [OF assms, where junk = junk and buffer = buffer]) blast

theorem write_changes_one_file_witness:
  "\<exists>(s :: fs_state) s'. ifile_write stack_junk 3 sample_buffer 2 0 s = Some (0, s') \<and> fs_inv s' \<and>
    fs_abs s' = [3 \<mapsto> [65, 66]]"
proof -
  obtain s :: fs_state where "implements s (16373, [3 \<mapsto> []])" by (rule sample_file)
  then have "fs_inv s" "fs_abs s = [3 \<mapsto> []]" "card (free_blocks s) = 16373"
    by (auto simp: implements_def)
  with write_changes_one_file [of s 3 "[]" 0 2 stack_junk sample_buffer] show ?thesis
    by (auto simp: extra_blocks_def overwrite_def bytes_at_def sample_buffer_def upt_rec)
qed

text \<open>
  C10: Reading a file of the invariant either returns 0 with exactly the requested bytes of
  the file in the buffer, or, when the range passes the end of the file, returns -1 and
  leaves the buffer alone. The sum of offset and length must not wrap at 64 bits: the code
  does not check it.
\<close>
theorem read_returns_file_bytes:
  assumes "fs_inv s" "fs_abs s (unat n) = Some bs" "unat from_pos + unat how_many < 2 ^ 64"
  shows "ifile_read junk n buffer how_many from_pos s =
    (if unat from_pos + unat how_many \<le> length bs
     then Some (0, \<lambda>i. if i < unat how_many then bs ! (unat from_pos + i) else buffer i)
     else Some (-1, buffer))"
  by (rule read_refines [OF assms])

theorem read_returns_file_bytes_witness:
  "\<exists>s :: fs_state. ifile_read stack_junk 3 sample_buffer 1 0 s = Some (-1, sample_buffer)"
proof -
  obtain s :: fs_state where "implements s (16373, [3 \<mapsto> []])" by (rule sample_file)
  then have "fs_inv s" "fs_abs s (unat (3 :: u64)) = Some []"
    by (auto simp: implements_def dest!: fun_cong [where x = 3])
  from read_returns_file_bytes [OF this, of 0 1 stack_junk sample_buffer] show ?thesis by auto
qed

text \<open>
  Creating a file in one of the inodes the code accepts, with two blocks free, returns 0
  and adds an empty file (or empties the existing one); all other files keep their bytes,
  and exactly two blocks are taken.
\<close>
lemma create_makes_empty_file:
  assumes "fs_inv s" "n \<le> 8" "2 \<le> card (free_blocks s)"
  shows "\<exists>s'. ifile_create junk n s = Some (0, s') \<and> fs_inv s' \<and>
    fs_abs s' = (fs_abs s)(unat n \<mapsto> []) \<and> card (free_blocks s') = card (free_blocks s) - 2"
  by (rule create_refines [OF assms, where junk = junk]) blast

lemma create_makes_empty_file_example:
  "\<exists>(s :: fs_state) s'. ifile_create stack_junk 4 s = Some (0, s') \<and> fs_inv s' \<and>
    fs_abs s' = [3 \<mapsto> [], 4 \<mapsto> []] \<and> card (free_blocks s') = 16371"
proof -
  obtain s :: fs_state where "implements s (16373, [3 \<mapsto> []])" by (rule sample_file)
  then have "fs_inv s" "fs_abs s = [3 \<mapsto> []]" "card (free_blocks s) = 16373"
    by (auto simp: implements_def)
  with create_makes_empty_file [of s 4 stack_junk] show ?thesis by auto
qed

text \<open>
  On a formatted device, creation fails with -1 and changes nothing for every inode
  number above 8, because the number of inode blocks is compared with the inode number;
  \<open>MAX_FILES\<close> is 1024.
\<close>
lemma create_rejects_inode_numbers:
  assumes "layout s" "n > 8"
  shows "ifile_create junk n s = Some (-1, s)"
  using assms by (simp add: ifile_create_def layout_def)

lemma create_rejects_inode_numbers_example:
  "\<exists>s. format stack_junk new_device = Some s \<and> ifile_create stack_junk 9 s = Some (-1, s)"
proof -
  obtain s where "format stack_junk new_device = Some s" "layout s"
    by (rule format_ok [OF storage_new_device, where junk = stack_junk])
  with create_rejects_inode_numbers [of s 9 stack_junk] show ?thesis by auto
qed

section \<open>The block bitmap\<close>

text \<open>
  C18: On a formatted device an allocation either returns the lowest-numbered block whose bit
  is clear and sets exactly that bit, or, when every bit from the first data block on is
  set, returns -1 and changes nothing. It never hands out a block of the metadata.
\<close>
theorem allocation_is_first_fit:
  assumes "bitmap_wf s"
  shows "(\<exists>b s'. bitmap_allocate_block junk s = Some (int b, s') \<and> bitmap_base s \<le> b \<and>
      \<not> bitmap_used s b \<and> (\<forall>c. bitmap_base s \<le> c \<and> c < b \<longrightarrow> bitmap_used s c) \<and>
      bitmap_used s' = (bitmap_used s)(b := True) \<and> outside_bitmap_same s s') \<or>
    (bitmap_allocate_block junk s = Some (-1, s) \<and>
      (\<forall>c. bitmap_base s \<le> c \<and> c < BLOCK_SIZE * 8 \<longrightarrow> bitmap_used s c))"
  using assms
proof (cases rule: disk.alloc_cases [where junk = junk])
  case (fresh b s')
  with disk.alloc_keeps [OF assms fresh(1)] show ?thesis by blast
qed blast

text \<open>The bitmap of a device of zeroes, with nothing allocated.\<close>
definition empty_bitmap :: fs_state where
  "empty_bitmap = bitmap_init 8 1 NUM_BLOCKS new_device"

lemma empty_bitmap: "bitmap_wf empty_bitmap" "\<not> bitmap_used empty_bitmap b" "bitmap_base empty_bitmap = 9"
  by (simp_all add: empty_bitmap_def bitmap_init_def new_device_def bitmap_wf_def online_def
      bitmap_used_def disk_def)

theorem allocation_is_first_fit_witness:
  "\<exists>s'. bitmap_allocate_block (\<lambda>_. 0) empty_bitmap = Some (9, s') \<and>
    bitmap_used s' = (\<lambda>b. b = 9)"
proof -
  from allocation_is_first_fit [OF empty_bitmap(1), of "\<lambda>_. 0"] obtain b s' where
    b: "bitmap_allocate_block (\<lambda>_. 0) empty_bitmap = Some (int b, s')" "9 \<le> b"
      "\<forall>c. 9 \<le> c \<and> c < b \<longrightarrow> bitmap_used empty_bitmap c"
      "bitmap_used s' = (bitmap_used empty_bitmap)(b := True)"
    using empty_bitmap(2) [of 9] by (auto simp: empty_bitmap(3))
  with empty_bitmap(2) [of 9] have "b = 9" by (metis le_neq_implies_less order_refl)
  with b empty_bitmap(2) show ?thesis by (auto simp: fun_eq_iff)
qed

text \<open>
  C36: The allocator does not stop at the last block of the device: with every block of the
  device in use it returns block number \<open>NUM_BLOCKS\<close> when that bit of the bitmap is
  clear, a block the storage refuses to read or write.
\<close>
theorem allocation_passes_device_end:
  assumes "bitmap_wf s" "\<forall>b. bitmap_base s \<le> b \<and> b < NUM_BLOCKS \<longrightarrow> bitmap_used s b"
    and "\<not> bitmap_used s NUM_BLOCKS"
  shows "\<exists>s'. bitmap_allocate_block junk s = Some (NUM_BLOCKS, s') \<and>
    storage_write_block s' (int_to_u64 NUM_BLOCKS) data = Some (-1, s')"
proof -
  have base: "bitmap_base s \<le> 16384" using assms(1) by (simp add: bitmap_wf_def)
  from assms(1) show ?thesis
  proof (cases rule: disk.alloc_cases [where junk = junk])
    case (fresh b s')
    then have "b = 16384" using assms(2,3) base by (metis linorder_neqE_nat)
    with fresh(1) show ?thesis
      by (auto simp: storage_out_of_range int_to_u64_def)
  next
    case full
    with assms(3) base show ?thesis by (auto dest: spec [where x = 16384])
  qed
qed

text \<open>A bitmap in which exactly the blocks of the device are used.\<close>
definition full_bitmap :: fs_state where
  "full_bitmap = put_block empty_bitmap 8 (\<lambda>i. if i < 2048 then -1 else 0)"

lemma full_bitmap: "bitmap_wf full_bitmap" "bitmap_used full_bitmap b \<longleftrightarrow> b < NUM_BLOCKS"
proof -
  have on: "online empty_bitmap" and first: "bitmap_first_block empty_bitmap = 8"
    using empty_bitmap(1) by (simp_all add: bitmap_wf_def empty_bitmap_def bitmap_init_def)
  from empty_bitmap(1) show "bitmap_wf full_bitmap" by (simp add: full_bitmap_def bitmap_wf_def)
  have "disk full_bitmap 8 i = (if i < 2048 then -1 else 0)" if "i < 4096" for i
    unfolding full_bitmap_def using on that by (simp add: disk_put_block)
  then have "bit (disk full_bitmap 8 (b div 8)) (b mod 8) \<longleftrightarrow> b < 16384" if "b < 32768"
    using that by (simp add: less_mult_imp_div_less div_less_iff_less_mult)
  then show "bitmap_used full_bitmap b \<longleftrightarrow> b < 16384"
    by (auto simp: bitmap_used_def full_bitmap_def first)
qed

theorem allocation_passes_device_end_witness:
  "\<exists>s'. bitmap_allocate_block (\<lambda>_. 0) full_bitmap = Some (16384, s')"
  using allocation_passes_device_end [OF full_bitmap(1), of "\<lambda>_. 0" "\<lambda>_. 0"]
  by (auto simp: full_bitmap(2))

section \<open>A length that wraps around\<close>

text \<open>
  A write whose end wraps around to 0 passes the test of the size, and goes to the block that
  entry 1 of the pointer block names although the file has a single block.
\<close>

lemma wrapped_pointers_write:
  assumes on: "online s" and e: "blk p 0 < NUM_BLOCKS" "blk p 1 < NUM_BLOCKS" "blk p 1 \<noteq> blk p 0"
  obtains s' where "pointers_write junk p buffer (-4096) 4096 s = Some (0, s')"
    "\<And>x. x < BLOCK_SIZE \<Longrightarrow> disk s' (blk p 1) x = buffer x"
proof -
  have ok: "entries_ok p 0 1" using e by (auto simp: entries_ok_def le_Suc_eq)
  obtain e1 where e1: "pointer_entry p (int 1) = Some e1"
    "\<And>data. storage_read_block s e1 data = Some (0, \<lambda>i. if i < BLOCK_SIZE then disk s (blk p 1) i else data i)"
    "\<And>data. storage_write_block s e1 data = Some (0, put_block s (blk p 1) data)"
    by (rule write_entry [OF on ok, of 1]) auto
  let ?b = "memcpy (\<lambda>i. if i < BLOCK_SIZE then disk s (blk p 1) i else junk 4 i) 0 buffer 0 BLOCK_SIZE"
  let ?s1 = "put_block s (blk p 1) ?b"
  have on1: "online ?s1" using on by simp
  obtain e0 where e0: "pointer_entry p (int 0) = Some e0"
    "\<And>data. storage_read_block ?s1 e0 data = Some (0, \<lambda>i. if i < BLOCK_SIZE then disk ?s1 (blk p 0) i else data i)"
    "\<And>data. storage_write_block ?s1 e0 data = Some (0, put_block ?s1 (blk p 0) data)"
    by (rule write_entry [OF on1 ok, of 0]) auto
  have n: "u64_to_int 1 = 1" "u64_to_int 0 = 0" by (simp_all add: u64_to_int_def)
  have m: "write_middle p 2 (- 1) ?b buffer 4096 ?s1 = Some (?b, 4096, ?s1)" by (subst write_middle.simps) simp
  let ?s2 = "put_block ?s1 (blk p 0) (memcpy (\<lambda>i. if i < BLOCK_SIZE then disk ?s1 (blk p 0) i else ?b i) 0 buffer 4096 0)"
  have "pointers_write junk p buffer (-4096) 4096 s = Some (0, ?s2)"
    using e1 e0 m by (simp add: pointers_write_def n Let_def)
  then show thesis
    by (rule that) (use on e in \<open>simp add: disk_put_block\<close>)
qed

lemma wrapped_write_ok:
  assumes lay: "layout s" and use: "in_use s (unat n)" and ok: "file_ok s (unat n)"
    and e: "blk (ptrs s (unat n)) 1 = 0"
  obtains s' where "ifile_write junk n buffer (-4096) 4096 s = Some (0, s')"
    "\<And>x. x < BLOCK_SIZE \<Longrightarrow> disk s' 0 x = buffer x"
proof -
  let ?n = "unat n" and ?pb = "pointer_buffer s (unat n) (junk 2)"
  have n1024: "?n < 1024" using use by (simp add: in_use_def)
  have inode: "inode_at (\<lambda>i. if i < 4096 then disk s (?n div 128) i else junk 1 i) (?n mod 128) = inode s ?n"
    by (rule inode_at_read)
  have ipb: "0 < inodes_per_block s" using lay by (simp add: layout_def)
  have "blk (ptrs s ?n) 0 \<in> set (owned s ?n)" by (simp add: set_owned)
  then have e0: "9 \<le> blk ?pb 0" "blk ?pb 0 < 16384" using ok by (simp_all add: file_ok_def)
  have e1: "blk ?pb 1 = 0" using e by simp
  obtain s' where w: "pointers_write junk ?pb buffer (-4096) 4096 s = Some (0, s')"
    "\<And>x. x < BLOCK_SIZE \<Longrightarrow> disk s' (blk ?pb 1) x = buffer x"
  proof (rule wrapped_pointers_write [OF layout_online [OF lay] e0(2)])
    show "blk ?pb 1 < 16384" "blk ?pb 1 \<noteq> blk ?pb 0" using e0(1) unfolding e1 by simp_all
  qed (rule that)
  have "ifile_write junk n buffer (-4096) 4096 s = Some (0, s')"
    unfolding ifile_write_def grow_if_needed_def
    by (simp add: ipb read_inode_block_ok [OF lay n1024] inode_position [OF lay n1024] inode Let_def
        read_pointer_buffer [OF lay ok] w(1))
  then show thesis using w(2) unfolding e1 by (rule that)
qed

text \<open>
  C37: The sum of position and length is not checked for the wrap-around at 64 bits. After the
  creation of a file, a write of \<open>2 ^ 64 - 4096\<close> bytes to position 4096 ends at 0, so that the file is not grown; it
  returns 0 and overwrites block 0 of the device, with all inodes from 0 to 127 in it, with the
  first 4096 bytes of the buffer.
\<close>
theorem wrapped_write_overwrites_inodes:
  assumes "fs_inv s" "n \<le> 8" "2 \<le> card (free_blocks s)"
  shows "\<exists>s1 s2. ifile_create junk n s = Some (0, s1) \<and> fs_inv s1 \<and>
    ifile_write junk n buffer (-4096) 4096 s1 = Some (0, s2) \<and> (\<forall>m < 128. inode s2 m = inode_at buffer m)"
proof -
  obtain s1 b1 b2 where c: "ifile_create junk n s = Some (0, s1)"
    "inode s1 (unat n) = (inode s (unat n))\<lparr>inode_size := 0, flags_used := True, head_pointer_block := of_nat b1\<rparr>"
    "\<And>k. k < 512 \<Longrightarrow> blk (disk s1 b1) k = (if k = 0 then b2 else 0)" "{b1, b2} \<subseteq> free_blocks s"
    by (rule ifile_create_ok [OF assms, where junk = junk]) (rule that)
  obtain s' where inv: "ifile_create junk n s = Some (0, s')" "fs_inv s'" "in_use s' (unat n)"
    by (rule ifile_create_inv [OF assms, where junk = junk]) (rule that)
  with c(1) have s1: "fs_inv s1" "in_use s1 (unat n)" by simp_all
  then have lay: "layout s1" and ok: "file_ok s1 (unat n)" by (simp_all add: fs_inv_def)
  have "fhead s1 (unat n) = b1" using c(2,4) by (simp add: fhead_def free_blocks_def)
  then have e: "blk (ptrs s1 (unat n)) 1 = 0" using c(3) [of 1] by (simp add: ptrs_def)
  obtain s2 where s2: "ifile_write junk n buffer (-4096) 4096 s1 = Some (0, s2)"
    "\<And>x. x < BLOCK_SIZE \<Longrightarrow> disk s2 0 x = buffer x"
    by (rule wrapped_write_ok [OF lay s1(2) ok e]) (rule that)
  have "inode s2 m = inode_at buffer m" if "m < 128" for m
    using that s2(2) by (simp add: inode_def) (rule inode_at_block_cong, simp_all)
  with c(1) s1(1) s2(1) show ?thesis by blast
qed

theorem wrapped_write_overwrites_inodes_witness:
  "\<exists>(s :: fs_state) s1 s2. ifile_create stack_junk 5 s = Some (0, s1) \<and> fs_inv s1 \<and>
    ifile_write stack_junk 5 (\<lambda>_. 0) (-4096) 4096 s1 = Some (0, s2) \<and> \<not> in_use s2 5 \<and> \<not> in_use s2 3"
proof -
  obtain s :: fs_state where "implements s (16373, [3 \<mapsto> []])" by (rule sample_file)
  then have s: "fs_inv s" "2 \<le> card (free_blocks s)" by (auto simp: implements_def)
  have "\<not> flags_used (inode_at (\<lambda>_. 0) m)" for m by (simp add: inode_at_def Let_def)
  with wrapped_write_overwrites_inodes [OF s(1) _ s(2), of 5 stack_junk "\<lambda>_. 0"] show ?thesis
    by (fastforce simp: in_use_def)
qed

section \<open>Releasing a block\<close>

text \<open>
  C38: Releasing a block never releases it: the bitmap keeps its bit, and inode block 0
  becomes a copy of the bitmap block with that bit cleared.
\<close>
theorem deallocation_overwrites_block_0:
  assumes wf: "bitmap_wf s" and b: "unat b < BLOCK_SIZE * 8" and m: "bitmap_first_block s \<noteq> 0"
  shows "\<exists>s'. bitmap_deallocate_block junk b s = Some s' \<and> bitmap_used s' = bitmap_used s \<and>
    (\<forall>i < BLOCK_SIZE. disk s' 0 i =
      (if i = unat b div 8
       then disk s (unat (bitmap_first_block s)) i AND NOT (push_bit (unat b mod 8) 1)
       else disk s (unat (bitmap_first_block s)) i))"
proof -
  let ?m = "unat (bitmap_first_block s)"
  let ?d = "(disk s ?m)(unat b div 8 := disk s ?m (unat b div 8) AND NOT (push_bit (unat b mod 8) 1))"
  have on: "online s" using wf by (simp add: bitmap_wf_def)
  have m0: "?m \<noteq> 0" using m by (simp add: unat_eq_zero)
  have "bitmap_used (put_block s 0 ?d) = bitmap_used s"
    using on m0 by (intro bitmap_used_cong) (simp_all add: disk_put_block)
  moreover have "disk (put_block s 0 ?d) 0 i = ?d i" if "i < 4096" for i
    unfolding disk_put_block [OF on that] by (simp only: if_True refl)
  ultimately show ?thesis
    using bitmap_deallocate_block_eq [OF wf b, of junk]
    by (intro exI [of _ "put_block s 0 ?d"]) (simp del: push_bit_of_1)
qed

theorem deallocation_overwrites_block_0_witness:
  "\<exists>s'. bitmap_deallocate_block (\<lambda>_. 0) 100 full_bitmap = Some s' \<and> bitmap_used s' 100 \<and>
    disk s' 0 0 = 255"
proof -
  have first: "unat (bitmap_first_block full_bitmap) = 8"
    by (simp add: full_bitmap_def empty_bitmap_def bitmap_init_def)
  have on: "online empty_bitmap" using empty_bitmap(1) by (simp add: bitmap_wf_def)
  have "disk full_bitmap 8 0 = 255"
    unfolding full_bitmap_def using on by (simp add: disk_put_block)
  moreover have "bitmap_first_block full_bitmap \<noteq> 0" using first by auto
  ultimately show ?thesis
    using deallocation_overwrites_block_0 [OF full_bitmap(1), of 100 "\<lambda>_. 0"] full_bitmap(2) [of 100]
    by (auto simp: first simp del: push_bit_of_1 dest: spec [where x = 0])
qed

section \<open>Growing without space\<close>

text \<open>The state after the first allocation of \<open>ifile_grow\<close> failed and was undone.\<close>

lemma grow_loop_full:
  assumes lay: "layout s" and full: "\<And>b. 9 \<le> b \<Longrightarrow> b < BLOCK_SIZE * 8 \<Longrightarrow> bitmap_used s b"
    and i: "0 < i" "i \<le> hi" "hi < 512"
  obtains s' where "grow_loop junk (of_nat i) (of_nat i) (of_nat hi) block s =
      Some (put_u64 block (8 * i) (-1), s')"
    "bitmap_deallocate_block junk (of_nat i) s = Some s'"
proof -
  have wf: "bitmap_wf s" and base: "bitmap_base s = 9"
    using lay by (simp_all add: layout_bitmap_wf) (simp add: layout_def)
  have ui: "unat (of_nat i :: u64) = i" "unat (of_nat hi :: u64) = hi"
    using i by simp_all
  from bitmap_deallocate_block_eq [OF wf, of "of_nat i" junk] i obtain s' where
    d: "bitmap_deallocate_block junk (of_nat i) s = Some s'" by auto
  have none: "bitmap_allocate_block junk s = Some (-1, s)"
    using disk.alloc_full [OF wf] full by (simp add: base)
  have "(of_nat i :: u64) - 1 = of_nat (i - 1)" using i(1) by (simp add: of_nat_diff)
  then have "unat ((of_nat i :: u64) - 1) = i - 1"
    using i by (simp only:) (rule unat_of_nat_u64, simp)
  then have "\<not> (of_nat i :: u64) \<le> of_nat i - 1"
    using i by (simp add: word_le_nat_alt)
  then have "grow_undo junk (of_nat i) (of_nat i) (put_u64 block (8 * i) (-1)) s =
      Some (put_u64 (put_u64 block (8 * i) (-1)) (8 * i) (-1), s')"
    using i by (subst grow_undo.simps, simp add: d ui, subst grow_undo.simps) simp
  moreover have "put_u64 (put_u64 block (8 * i) (-1)) (8 * i) (-1) = put_u64 block (8 * i) (-1)"
    by (auto simp: put_u64_def)
  ultimately have "grow_loop junk (of_nat i) (of_nat i) (of_nat hi) block s =
      Some (put_u64 block (8 * i) (-1), s')"
    using i by (subst grow_loop.simps) (simp add: none ui word_le_nat_alt int_to_u64_def Let_def)
  with d show thesis by (rule that [rotated])
qed

text \<open>
  When no bit of the bitmap is clear, growing a file still returns 0 and sets the new
  size: the entry of the first missing block is invalid, and the clean-up of the failure
  path has overwritten inode block 0 with the bitmap block.
\<close>
lemma grow_without_space_returns_0:
  assumes inv: "fs_inv s" and use: "in_use s n" and inode: "inode_at buf1 k = inode s n"
    and full: "\<forall>b. 9 \<le> b \<and> b < BLOCK_SIZE * 8 \<longrightarrow> bitmap_used s b"
    and grows: "fsize s n div BLOCK_SIZE < unat new_size div BLOCK_SIZE"
    and size: "unat new_size < 512 * BLOCK_SIZE"
  shows "\<exists>s'. ifile_grow junk buf1 k new_size s = Some (0, set_size buf1 k new_size, s') \<and>
    inode_size (inode_at (set_size buf1 k new_size) k) = new_size \<and>
    get_u64 (disk s' (fhead s n)) (8 * Suc (fsize s n div BLOCK_SIZE)) = -1 \<and>
    (\<forall>x < BLOCK_SIZE. x \<noteq> Suc (fsize s n div BLOCK_SIZE) div 8 \<longrightarrow> disk s' 0 x = disk s 8 x)"
proof -
  let ?i = "Suc (fsize s n div 4096)" and ?last = "unat new_size div 4096"
  let ?h = "head_pointer_block (inode s n)" and ?pb = "pointer_buffer s n (junk 3)"
  from inv use have lay: "layout s" and ok: "file_ok s n" by (simp_all add: fs_inv_def)
  note blocks = file_ok_blocks [OF ok]
  have last: "?last < 512" using size by (simp add: less_mult_imp_div_less)
  have nums: "u64_to_int (inode_size (inode s n) div 4096) = int (fsize s n div 4096)"
    "u64_to_int (new_size div 4096) = int ?last"
    using ok size by (simp_all add: u64_to_int_block file_ok_def fsize_def)
  have h: "?h < 16384" "unat ?h = fhead s n"
    using blocks(3) by (simp_all add: fhead_def word_less_nat_alt)
  have cur1: "int_to_u64 (int (fsize s n div 4096) + 1) = of_nat ?i"
    by (metis int_to_u64_of_nat of_nat_Suc add.commute)
  obtain s1 where g: "grow_loop (junk 0) (of_nat ?i) (of_nat ?i) (of_nat ?last) ?pb s =
      Some (put_u64 ?pb (8 * ?i) (-1), s1)" "bitmap_deallocate_block (junk 0) (of_nat ?i) s = Some s1"
    by (rule grow_loop_full [OF lay, where i = ?i and hi = ?last and junk = "junk 0" and block = ?pb])
      (use full grows last in auto)
  have ui: "unat (of_nat ?i :: u64) = ?i" using grows last by (intro unat_of_nat_u64) simp
  have first: "unat (bitmap_first_block s) = 8" using lay by (simp add: layout_def)
  have on: "online s" using lay by (simp add: layout_def)
  let ?d = "(disk s 8)(?i div 8 := disk s 8 (?i div 8) AND NOT (push_bit (?i mod 8) 1))"
  have s1: "s1 = put_block s 0 ?d"
    using bitmap_deallocate_block_eq [OF layout_bitmap_wf [OF lay], of "of_nat ?i" "junk 0"]
      g(2) grows last unfolding ui first by simp
  have on1: "online s1" using on by (simp add: s1)
  let ?s2 = "put_block s1 (fhead s n) (put_u64 ?pb (8 * ?i) (-1))"
  have "ifile_grow junk buf1 k new_size s = Some (0, set_size buf1 k new_size, ?s2)"
    unfolding ifile_grow_def inode Let_def nums
    using storage_write_block_ok [OF on1 h(1), unfolded h(2)] g(1) read_pointer_buffer [OF lay ok] blocks(1)
    by (simp add: cur1 del: of_nat_Suc)
  moreover have "get_u64 (disk ?s2 (fhead s n)) (8 * ?i) = get_u64 (put_u64 ?pb (8 * ?i) (-1)) (8 * ?i)"
    using on1 grows last by (intro get_u64_cong) (simp add: disk_put_block)
  moreover have "disk ?s2 0 x = disk s 8 x" if "x < 4096" "x \<noteq> ?i div 8" for x
  proof -
    have "disk ?s2 0 x = disk s1 0 x" using blocks(2) by (simp add: disk_put_block [OF on1 that(1)])
    also have "\<dots> = disk s 8 x" unfolding s1 disk_put_block [OF on that(1)] using that(2) by simp
    finally show ?thesis .
  qed
  ultimately show ?thesis by (auto simp: inode_at_set)
qed

text \<open>A device with file 3 on it and every bit of the bitmap set.\<close>

lemma full_device:
  obtains s :: fs_state where "fs_inv s" "in_use s 3" "fsize s 3 = 0" "\<And>b. b < BLOCK_SIZE * 8 \<Longrightarrow> bitmap_used s b"
proof -
  obtain s :: fs_state where s: "implements s (16373, [3 \<mapsto> []])" by (rule sample_file)
  then have inv: "fs_inv s" and abs: "fs_abs s = [3 \<mapsto> []]" by (auto simp: implements_def)
  from inv have lay: "layout s" by (simp add: fs_inv_def)
  then have on: "online s" by (simp add: layout_def)
  let ?s = "put_block s 8 (\<lambda>_. -1)"
  have lay': "layout ?s" using lay by (rule layout_put_block)
  have only3: "n = 3" if "in_use s n" for n
    using that fun_cong [OF abs, of n] by (auto simp: fs_abs_def split: if_splits)
  have use: "in_use s 3" "fsize s 3 = 0"
    using fun_cong [OF abs, of 3] by (auto simp: fs_abs_def file_bytes_def split: if_splits)
  have inode: "inode ?s m = inode s m" if "m < 1024" for m
    unfolding inode_def using that on
    by (intro inode_at_block_cong) (auto simp: disk_put_block less_mult_imp_div_less)
  have "bit (disk ?s 8 (b div 8)) (b mod 8)" if "b < 32768" for b
    using that by (simp add: disk_put_block [OF on] less_mult_imp_div_less)
  then have used: "bitmap_used ?s b" if "b < 4096 * 8" for b
    using that lay' by (simp add: bitmap_used_def layout_def)
  have keep: "disk ?s b x = disk s b x" if "in_use s m" "b \<in> set (owned s m)" "x < 4096" for m b x
  proof -
    have "9 \<le> b" using inv that(1,2) by (auto simp: fs_inv_def file_ok_def)
    then show ?thesis using that(3) by (simp add: disk_put_block [OF on])
  qed
  have mono: "bitmap_used s b \<Longrightarrow> bitmap_used ?s b" for b
    using used by (simp add: bitmap_used_def)
  have none: "\<not> in_use ?s 2000" "\<not> in_use s 2000" by (simp_all add: in_use_def)
  have inv': "fs_inv ?s"
    by (rule fs_inv_step(1) [OF inv lay', of 2000]) (use inode keep mono none in auto)
  have "in_use ?s 3 \<and> fsize ?s 3 = fsize s 3 \<and> owned ?s 3 = owned s 3 \<and>
      (\<forall>i < fsize s 3. content ?s 3 i = content s 3 i)"
    by (rule fs_inv_step(2) [OF inv lay', of 2000]) (use inode keep mono none use in auto)
  with inv' use used show thesis by (intro that [of ?s]) auto
qed

lemma grow_without_space_returns_0_example:
  "\<exists>(s :: fs_state) s' buf. ifile_grow stack_junk (disk s 0) 3 5000 s = Some (0, buf, s') \<and>
    inode_size (inode_at buf 3) = 5000 \<and> disk s' 0 1 = disk s 8 1"
proof -
  obtain s :: fs_state where s: "fs_inv s" "in_use s 3" "fsize s 3 = 0"
    "\<And>b. b < 4096 * 8 \<Longrightarrow> bitmap_used s b"
    by (rule full_device) (rule that)
  have "inode_at (disk s 0) 3 = inode s 3" by (simp add: inode_def)
  from grow_without_space_returns_0 [OF s(1,2) this, of 5000 stack_junk] s(3,4)
  obtain s' where g: "ifile_grow stack_junk (disk s 0) 3 5000 s = Some (0, set_size (disk s 0) 3 5000, s')"
    "inode_size (inode_at (set_size (disk s 0) 3 5000) 3) = 5000"
    "\<forall>x < 4096. x \<noteq> Suc (fsize s 3 div 4096) div 8 \<longrightarrow> disk s' 0 x = disk s 8 x"
    by auto
  from g(3) s(3) have "disk s' 0 1 = disk s 8 1" by simp
  with g(1,2) show ?thesis by blast
qed

end
