(* ===== verification/FS_Tester.thy ===== *)
theory FS_Tester imports FS_Spec begin

text \<open>
  The program \<open>HW4-skeleton/tester.c\<close>, with the lines it prints. Its second write takes 36
  bytes from a literal of 11 bytes, which is undefined: the program is defined up to that
  write only.
\<close>

section \<open>The program\<close>

text \<open>
  A string literal with its NUL; reading more than these bytes of it is undefined. The writes
  of the program go through, so that each reads all the bytes it is asked for.
\<close>
definition literal :: "string \<Rightarrow> buf" where
  "literal str i = (if i < length str then of_char (str ! i) else 0)"

definition strlen :: "string \<Rightarrow> u64" where
  "strlen str = of_nat (length str)"

definition write_literal ::
    "junk \<Rightarrow> u64 \<Rightarrow> string \<Rightarrow> u64 \<Rightarrow> u64 \<Rightarrow> 'a fs_state_scheme \<Rightarrow> (int \<times> 'a fs_state_scheme) option" where
  "write_literal junk inode_number str how_many from_pos s =
     do {
       guard (unat how_many \<le> length str + 1);
       ifile_write junk inode_number (literal str) how_many from_pos s
     }"

text \<open>What \<open>%s\<close> prints of the local array \<open>buffer\<close>, which has 1000 bytes.\<close>
definition c_string :: "buf \<Rightarrow> u8 list option" where
  "c_string buffer = map_option (\<lambda>n. map buffer [0..<n]) (first_some (\<lambda>i. if buffer i = 0 then Some i else None) 0 1000)"

text \<open>A read and \<open>printf\<close> of the format \<open>prefix\<close> followed by \<open>%s\<close> and a newline.\<close>
definition read_and_print ::
    "junk \<Rightarrow> string \<Rightarrow> u64 \<Rightarrow> buf \<Rightarrow> u64 \<Rightarrow> u64 \<Rightarrow> 'a fs_state_scheme \<Rightarrow> (u8 list \<times> buf) option" where
  "read_and_print junk prefix inode_number buffer how_many from_pos s =
     do {
       (_, buffer) \<leftarrow> ifile_read junk inode_number buffer how_many from_pos s;
       printed \<leftarrow> c_string buffer;
       Some (map of_char prefix @ printed @ [10], buffer)
     }"

definition string1 :: string where
  "string1 = ''Hello filesystem world!''"

definition string2 :: string where
  "string2 = ''It's me again! Hello, hello, hello!''"

text \<open>
  Up to the creation of the second file. \<open>junk k\<close> is the uninitialised memory of the \<open>k\<close>-th
  call; \<open>buffer\<close> starts uninitialised as well.
\<close>
definition tester_start ::
    "(nat \<Rightarrow> junk) \<Rightarrow> buf option \<Rightarrow> buf \<Rightarrow> 'a fs_state_scheme \<Rightarrow> (u8 list \<times> buf \<times> 'a fs_state_scheme) option" where
  "tester_start junk malloc_result buffer s =
     do {
       let (_, s) = storage_init malloc_result s;
       s \<leftarrow> format (junk 0) s;
       (_, s) \<leftarrow> ifile_create (junk 1) 0 s;
       (_, s) \<leftarrow> write_literal (junk 2) 0 string1 (strlen string1 + 1) 0 s;
       (line1, buffer) \<leftarrow> read_and_print (junk 3) ''READ 0: '' 0 buffer (strlen string1 + 1) 0 s;
       (_, s) \<leftarrow> ifile_create (junk 4) 1 s;
       Some (line1, buffer, s)
     }"

definition tester ::
    "(nat \<Rightarrow> junk) \<Rightarrow> buf option \<Rightarrow> buf \<Rightarrow> 'a fs_state_scheme \<Rightarrow> (u8 list list \<times> 'a fs_state_scheme) option" where
  "tester junk malloc_result buffer s =
     do {
       (line1, buffer, s) \<leftarrow> tester_start junk malloc_result buffer s;
       (_, s) \<leftarrow> write_literal (junk 5) 1 ''HiTESTTEST'' (strlen string2 + 1) 0 s;
       (line2, buffer) \<leftarrow> read_and_print (junk 6) ''READ 1: '' 1 buffer (strlen string2 + 1) 0 s;
       (_, s) \<leftarrow> write_literal (junk 7) 1 ''LALA'' (strlen ''LALA'') 0 s;
       (line3, buffer) \<leftarrow> read_and_print (junk 8) ''READ 1 (after overwrite): '' 1 buffer (strlen string2 + 1) 0 s;
       (_, s) \<leftarrow> write_literal (junk 9) 1 ''HIGH_OFFSET Hello!'' (strlen ''HIGH_OFFSET Hello!'' + 1) 200 s;
       (line4, buffer) \<leftarrow> read_and_print (junk 10) ''READ 1 (from high offset): '' 1 buffer (strlen ''HIGH_OFFSET Hello!'' + 1) 200 s;
       Some ([line1, line2, line3, line4], s)
     }"

section \<open>Reading back a string\<close>

lemma c_string_literal:
  assumes "\<And>i. i \<le> length str \<Longrightarrow> buffer i = literal str i" "\<forall>c \<in> set str. (of_char c :: u8) \<noteq> 0" "length str < 1000"
  shows "c_string buffer = Some (map of_char str)"
proof -
  have "first_some (\<lambda>i. if buffer i = 0 then Some i else None) 0 1000 = Some (length str)"
    by (rule first_some_hit [of _ "length str"]) (use assms in \<open>simp_all add: literal_def\<close>)
  moreover have "map buffer [0..<length str] = map of_char str"
    by (rule nth_equalityI) (use assms(1) in \<open>simp_all add: literal_def\<close>)
  ultimately show ?thesis by (simp add: c_string_def)
qed

lemma read_and_print_file:
  assumes inv: "fs_inv s" and bytes: "fs_abs s (unat n) = Some bs" "unat from_pos + unat how_many \<le> length bs" "length bs < 2 ^ 64"
    and str: "\<And>i. i \<le> length str \<Longrightarrow> bs ! (unat from_pos + i) = literal str i" "length str < unat how_many"
    and chars: "\<forall>c \<in> set str. (of_char c :: u8) \<noteq> 0" "length str < 1000"
  obtains buffer' where "read_and_print junk prefix n buffer how_many from_pos s = Some (map of_char prefix @ map of_char str @ [10], buffer')"
proof -
  have "unat from_pos + unat how_many < 2 ^ 64" using bytes(2,3) by simp
  note r = read_refines [OF inv bytes(1) this, of junk buffer]
  let ?b = "\<lambda>i. if i < unat how_many then bs ! (unat from_pos + i) else buffer i"
  have "c_string ?b = Some (map of_char str)"
    by (rule c_string_literal [OF _ chars]) (use str in simp)
  with r bytes(2) show thesis by (intro that [of ?b]) (simp add: read_and_print_def)
qed

lemma nth_bytes_at: "i < unat n \<Longrightarrow> bytes_at b n ! i = b i"
  by (simp add: bytes_at_def)

section \<open>What the program prints\<close>

lemma tester_strings:
  "unat (strlen string1 + 1) = 24" "unat (strlen string2 + 1) = 36" "length string1 = 23"
  "\<forall>c \<in> set string1. (of_char c :: u8) \<noteq> 0"
  by (simp_all add: strlen_def string1_def string2_def)

lemma tester_start_ok:
  obtains b s' where "tester_start junk (Some m) buffer s = Some (map of_char ''READ 0: '' @ map of_char string1 @ [10], b, s')"
    "fs_abs s' = [0 \<mapsto> map of_char string1 @ [0], 1 \<mapsto> []]"
    "\<And>bytes. \<exists>s2. ifile_write (junk 5) 1 bytes (strlen string2 + 1) 0 s' = Some (0, s2)"
proof -
  have "storage (s\<lparr>storage := Some m\<rparr>) = Some m" by simp
  then obtain s0 where s0: "format (junk 0) (s\<lparr>storage := Some m\<rparr>) = Some s0" "fs_inv s0" "fs_abs s0 = Map.empty"
    "card (free_blocks s0) = 16384 - 9"
    by (rule format_refines [where junk = "junk 0"]) (rule that)
  obtain s1 where s1: "ifile_create (junk 1) 0 s0 = Some (0, s1)" "fs_inv s1" "fs_abs s1 = [0 \<mapsto> []]"
    "card (free_blocks s1) = 16373"
    by (rule create_refines [OF s0(2), of 0 "junk 1"]) (use s0(3,4) in \<open>simp_all add: that\<close>)
  let ?d1 = "bytes_at (literal string1) (strlen string1 + 1)"
  have bytes: "?d1 = map of_char string1 @ [0]"
    by (rule nth_equalityI) (auto simp: nth_bytes_at tester_strings literal_def nth_append)
  obtain s2 where s2: "ifile_write (junk 2) 0 (literal string1) (strlen string1 + 1) 0 s1 = Some (0, s2)" "fs_inv s2"
    "fs_abs s2 = [0 \<mapsto> ?d1]" "card (free_blocks s2) = 16373"
    by (rule write_refines [OF s1(2), of 0 "[]" 0 "strlen string1 + 1" "junk 2" "literal string1"])
      (use s1(3,4) in \<open>simp_all add: that tester_strings extra_blocks_def overwrite_def\<close>)
  obtain b1 where b1: "read_and_print (junk 3) ''READ 0: '' 0 buffer (strlen string1 + 1) 0 s2 =
      Some (map of_char ''READ 0: '' @ map of_char string1 @ [10], b1)"
    by (rule read_and_print_file [OF s2(2), of 0 ?d1 0 "strlen string1 + 1" string1 "junk 3" "''READ 0: ''" buffer])
      (use s2(3) in \<open>simp_all add: that tester_strings nth_bytes_at\<close>)
  obtain s3 where s3: "ifile_create (junk 4) 1 s2 = Some (0, s3)" "fs_inv s3" "fs_abs s3 = [0 \<mapsto> ?d1, 1 \<mapsto> []]"
    "card (free_blocks s3) = 16371"
    by (rule create_refines [OF s2(2), of 1 "junk 4"]) (use s2(3,4) in \<open>simp_all add: that\<close>)
  have more: "\<exists>s4. ifile_write (junk 5) 1 bytes (strlen string2 + 1) 0 s3 = Some (0, s4)" for bytes
    by (rule write_refines [OF s3(2), of 1 "[]" 0 "strlen string2 + 1" "junk 5" bytes])
      (use s3(3,4) in \<open>auto simp: tester_strings extra_blocks_def\<close>)
  show thesis
    by (rule that [of b1 s3])
      (use s0(1) s1(1) s2(1) b1 s3(1,3) more bytes in \<open>simp_all add: tester_start_def storage_init_def write_literal_def tester_strings\<close>)
qed

text \<open>
  C21: whatever the memory that the program did not initialise, the tester of the filesystem
  formats its device, writes the first string and prints exactly the line
  \<open>READ 0: Hello filesystem world!\<close>, and leaves the string in file 0 and file 1 empty. Its next
  write, which goes through with any 36 bytes, reads behind the end of the literal
  \<open>HiTESTTEST\<close> and is undefined, and so is the whole program.
\<close>
theorem tester_prints:
  "\<exists>b s'. tester_start junk (Some m) buffer s = Some (map of_char ''READ 0: Hello filesystem world!'' @ [10], b, s') \<and>
    fs_abs s' = [0 \<mapsto> map of_char ''Hello filesystem world!'' @ [0], 1 \<mapsto> []] \<and>
    (\<forall>bytes. \<exists>s2. ifile_write (junk 5) 1 bytes (strlen string2 + 1) 0 s' = Some (0, s2)) \<and>
    write_literal (junk 5) 1 ''HiTESTTEST'' (strlen string2 + 1) 0 s' = None \<and>
    tester junk (Some m) buffer s = None"
proof -
  have bad: "write_literal (junk 5) 1 ''HiTESTTEST'' (strlen string2 + 1) 0 s' = None" for s' :: "'a fs_state_scheme"
    by (simp add: write_literal_def tester_strings)
  obtain b s' where start: "tester_start junk (Some m) buffer s = Some (map of_char ''READ 0: '' @ map of_char string1 @ [10], b, s')"
    "fs_abs s' = [0 \<mapsto> map of_char string1 @ [0], 1 \<mapsto> []]"
    "\<forall>bytes. \<exists>s2. ifile_write (junk 5) 1 bytes (strlen string2 + 1) 0 s' = Some (0, s2)"
    by (rule tester_start_ok [of junk m buffer s]) blast
  moreover have "tester junk (Some m) buffer s = None" using start(1) bad by (simp add: tester_def)
  moreover have "map of_char ''READ 0: '' @ map of_char string1 @ [10] = map (of_char :: char \<Rightarrow> u8) ''READ 0: Hello filesystem world!'' @ [10]"
    by (simp add: string1_def)
  ultimately show ?thesis using bad unfolding string1_def by metis
qed

end
