(* ===== verification/Links.thy ===== *)
theory Links imports C_Prelude begin

text \<open>
  Doubly linked chains in memory, independent of what the nodes carry: the two pointer
  fields of the node at each address. The linked list of \<open>ll_double.c\<close>, the request queue
  of the thread pool and the list of clients of the state-machine server are all read
  through this view, so that insertion at either end and unlinking are proved once.
\<close>

text \<open>Addresses are natural numbers, and 0 is \<open>NULL\<close>.\<close>
type_synonym ptr = nat

abbreviation (input) NULL :: ptr where
  "NULL \<equiv> 0"

text \<open>The \<open>prev\<close> and \<open>next\<close> fields of the allocated nodes.\<close>
type_synonym links = "ptr \<rightharpoonup> ptr \<times> ptr"

definition set_prev :: "links \<Rightarrow> ptr \<Rightarrow> ptr \<Rightarrow> links" where
  "set_prev lk a v = lk(a := map_option (\<lambda>(p, n). (v, n)) (lk a))"

definition set_next :: "links \<Rightarrow> ptr \<Rightarrow> ptr \<Rightarrow> links" where
  "set_next lk a v = lk(a := map_option (\<lambda>(p, n). (p, v)) (lk a))"

definition first_of :: "ptr list \<Rightarrow> ptr \<Rightarrow> ptr" where
  "first_of as q = (case as of [] \<Rightarrow> q | a # _ \<Rightarrow> a)"

definition last_of :: "ptr \<Rightarrow> ptr list \<Rightarrow> ptr" where
  "last_of p as = (if as = [] then p else last as)"

lemma first_of_simps [simp]:
  "first_of [] q = q" "first_of (a # as) q = a" "first_of (as @ bs) q = first_of as (first_of bs q)"
  by (simp_all add: first_of_def split: list.split)

lemma last_of_simps [simp]:
  "last_of p [] = p" "last_of p (a # as) = last_of a as" "last_of p (as @ bs) = last_of (last_of p as) bs"
  by (simp_all add: last_of_def)

text \<open>\<open>as\<close> are the nodes of a chain whose first node points back to \<open>p\<close> and last node on to \<open>q\<close>.\<close>
primrec chain :: "links \<Rightarrow> ptr \<Rightarrow> ptr list \<Rightarrow> ptr \<Rightarrow> bool" where
  "chain lk p [] q = True"
| "chain lk p (a # as) q = (a \<noteq> NULL \<and> lk a = Some (p, first_of as q) \<and> chain lk a as q)"

definition linked :: "links \<Rightarrow> ptr \<Rightarrow> ptr \<Rightarrow> ptr list \<Rightarrow> bool" where
  "linked lk h t as \<longleftrightarrow> distinct as \<and> h = first_of as NULL \<and> t = last_of NULL as \<and> chain lk NULL as NULL"

section \<open>Chains\<close>

lemma chain_append [simp]:
  "chain lk p (as @ bs) q \<longleftrightarrow> chain lk p as (first_of bs q) \<and> chain lk (last_of p as) bs q"
  by (induction as arbitrary: p) auto

lemma chain_cong: "(\<And>a. a \<in> set as \<Longrightarrow> lk' a = lk a) \<Longrightarrow> chain lk' p as q = chain lk p as q"
  by (induction as arbitrary: p) auto

lemma chain_nonnull: "chain lk p as q \<Longrightarrow> a \<in> set as \<Longrightarrow> a \<noteq> NULL \<and> lk a \<noteq> None"
  by (induction as arbitrary: p) auto

lemma first_of_in: "as \<noteq> [] \<Longrightarrow> first_of as q \<in> set as"
  by (cases as) simp_all

lemma last_of_in: "as \<noteq> [] \<Longrightarrow> last_of p as \<in> set as"
  by (simp add: last_of_def)

lemma chain_ends_nonnull:
  assumes "chain lk p as q"
  shows "as \<noteq> [] \<Longrightarrow> first_of as q' \<noteq> NULL" "as \<noteq> [] \<Longrightarrow> last_of p' as \<noteq> NULL"
  using chain_nonnull [OF assms] first_of_in last_of_in by blast+

lemma first_of_NULL: "chain lk p as q \<Longrightarrow> first_of as NULL = NULL \<longleftrightarrow> as = []"
  by (cases "as = []") (use chain_ends_nonnull(1) [of lk p as q NULL] in auto)

lemma last_of_NULL: "chain lk p as q \<Longrightarrow> last_of NULL as = NULL \<longleftrightarrow> as = []"
  by (cases "as = []") (use chain_ends_nonnull(2) [of lk p as q NULL] in auto)

lemma chain_set_prev_other: "a \<notin> set as \<Longrightarrow> chain (set_prev lk a v) p as q = chain lk p as q"
  by (rule chain_cong) (auto simp: set_prev_def)

lemma chain_set_next_other: "a \<notin> set as \<Longrightarrow> chain (set_next lk a v) p as q = chain lk p as q"
  by (rule chain_cong) (auto simp: set_next_def)

lemma chain_upd_other: "a \<notin> set as \<Longrightarrow> chain (lk(a := v)) p as q = chain lk p as q"
  by (rule chain_cong) auto

text \<open>Redirecting the back pointer of the first node, and the forward pointer of the last.\<close>

lemma chain_set_first:
  assumes "chain lk p as q" "distinct as" "as \<noteq> []"
  shows "chain (set_prev lk (first_of as r) p') p' as q"
  using assms by (cases as) (auto simp: chain_set_prev_other, auto simp: set_prev_def)

lemma chain_set_last:
  assumes "chain lk p as q" "distinct as" "as \<noteq> []"
  shows "chain (set_next lk (last_of r as) q') p as q'"
proof -
  from assms(3) obtain bs b where as: "as = bs @ [b]" by (metis rev_exhaust)
  with assms(1,2) show ?thesis by (auto simp: chain_set_next_other) (auto simp: set_next_def)
qed

section \<open>Insertion and removal\<close>

lemma linked_empty [simp]: "linked lk h t [] \<longleftrightarrow> h = NULL \<and> t = NULL"
  by (auto simp: linked_def)

lemma linked_head: "linked lk h t as \<Longrightarrow> h = NULL \<longleftrightarrow> as = []"
  by (auto simp: linked_def first_of_NULL)

lemma linked_tail: "linked lk h t as \<Longrightarrow> t = NULL \<longleftrightarrow> as = []"
  by (auto simp: linked_def last_of_NULL)

lemma linked_node:
  assumes "linked lk h t (xs @ a # ys)"
  shows "lk a = Some (last_of NULL xs, first_of ys NULL)" "a \<noteq> NULL"
  using assms by (auto simp: linked_def)

lemma linked_in_dom: "linked lk h t as \<Longrightarrow> a \<in> set as \<Longrightarrow> a \<in> dom lk \<and> a \<noteq> NULL"
  unfolding linked_def using chain_nonnull by (metis domIff)

lemma linked_frame:
  assumes "linked lk h t as" "\<And>a. a \<in> set as \<Longrightarrow> lk' a = lk a"
  shows "linked lk' h t as"
  using assms chain_cong [of as lk' lk] by (auto simp: linked_def)

lemma linked_insert_head:
  assumes "linked lk h t as" "a \<noteq> NULL" "a \<notin> set as"
  defines "lk1 \<equiv> lk(a \<mapsto> (NULL, h))"
  shows "linked (if h \<noteq> NULL then set_prev lk1 h a else lk1) a (if t = NULL then a else t) (a # as)"
proof (cases as)
  case Nil
  with assms show ?thesis by (auto simp: linked_def)
next
  case (Cons b bs)
  with assms(1,3) have "chain lk1 NULL as NULL" "distinct as" "as \<noteq> []" "h = first_of as NULL"
    by (auto simp: linked_def lk1_def chain_upd_other)
  then have "chain (set_prev lk1 h a) a as NULL"
    using chain_set_first by metis
  with assms Cons linked_tail [OF assms(1)] show ?thesis
    by (auto simp: linked_def lk1_def set_prev_def last_of_def)
qed

lemma linked_insert_tail:
  assumes "linked lk h t as" "a \<noteq> NULL" "a \<notin> set as"
  defines "lk1 \<equiv> lk(a \<mapsto> (t, NULL))"
  shows "linked (if t \<noteq> NULL then set_next lk1 t a else lk1) (if h = NULL then a else h) a (as @ [a])"
proof (cases "as = []")
  case True
  with assms show ?thesis by (auto simp: linked_def)
next
  case False
  with assms(1,3) have "chain lk1 NULL as NULL" "distinct as" "t = last_of NULL as"
    by (auto simp: linked_def lk1_def chain_upd_other)
  then have "chain (set_next lk1 t a) NULL as a"
    using chain_set_last False by metis
  moreover have "t \<in> set as" "t \<noteq> NULL" "h \<noteq> NULL" "h = first_of as a"
    using assms(1) False linked_head [OF assms(1)] linked_tail [OF assms(1)] last_of_in [OF False]
    by (auto simp: linked_def neq_Nil_conv)
  ultimately show ?thesis
    using assms False by (auto simp: linked_def lk1_def set_next_def last_of_def)
qed

text \<open>Unlinking a node: its neighbours, or the ends of the list, are joined.\<close>

definition unlink :: "links \<Rightarrow> ptr \<Rightarrow> ptr \<Rightarrow> links" where
  "unlink lk p n = (let lk = (if p \<noteq> NULL then set_next lk p n else lk)
     in if n \<noteq> NULL then set_prev lk n p else lk)"

lemma linked_unlink:
  assumes "linked lk h t (xs @ a # ys)" "lk a = Some (p, n)"
  shows "linked (unlink lk p n) (if p \<noteq> NULL then h else n) (if n \<noteq> NULL then t else p) (xs @ ys)"
proof -
  have p: "p = last_of NULL xs" and n: "n = first_of ys NULL"
    using linked_node(1) [OF assms(1)] assms(2) by auto
  have ch: "chain lk NULL xs a" "chain lk a ys NULL" and dist: "distinct (xs @ ys)" "a \<notin> set xs" "a \<notin> set ys"
    and ends: "h = first_of xs a" "t = last_of a ys"
    using assms(1) by (auto simp: linked_def)
  have pN: "p = NULL \<longleftrightarrow> xs = []" and nN: "n = NULL \<longleftrightarrow> ys = []"
    using last_of_NULL [OF ch(1)] first_of_NULL [OF ch(2)] by (simp_all add: p n)
  have pin: "xs \<noteq> [] \<Longrightarrow> p \<in> set xs" and nin: "ys \<noteq> [] \<Longrightarrow> n \<in> set ys"
    by (simp_all add: p n last_of_in first_of_in)
  let ?lk1 = "if p \<noteq> NULL then set_next lk p n else lk"
  have 1: "chain ?lk1 NULL xs n"
    using chain_set_last [OF ch(1)] dist pN by (auto simp: p)
  have 2: "chain ?lk1 a ys NULL"
    using ch(2) pin pN dist by (subst if_distrib [of "\<lambda>l. chain l a ys NULL"]) (auto intro!: iffD2 [OF chain_set_next_other])
  have 3: "chain (unlink lk p n) NULL xs n"
  proof -
    have "n \<notin> set xs" if "n \<noteq> NULL" using nin nN that dist(1) by auto
    with 1 show ?thesis unfolding unlink_def Let_def by (auto simp: chain_set_prev_other)
  qed
  have 4: "chain (unlink lk p n) p ys NULL"
    using chain_set_first [OF 2] dist nN by (auto simp: unlink_def Let_def n)
  have "(if p \<noteq> NULL then h else n) = first_of (xs @ ys) NULL"
    using pN ends(1) by (auto simp: n first_of_def split: list.split)
  moreover have "(if n \<noteq> NULL then t else p) = last_of NULL (xs @ ys)"
    using nN ends(2) by (auto simp: p last_of_def)
  ultimately show ?thesis
    using 3 4 dist(1) by (simp add: linked_def p [symmetric] n [symmetric])
qed

lemma set_prev_apply: "set_prev lk a v b = (if b = a then map_option (\<lambda>(p, n). (v, n)) (lk a) else lk b)"
  by (simp add: set_prev_def)

lemma set_next_apply: "set_next lk a v b = (if b = a then map_option (\<lambda>(p, n). (p, v)) (lk a) else lk b)"
  by (simp add: set_next_def)

section \<open>Nodes with two pointer fields\<close>

definition load_at :: "(ptr \<rightharpoonup> 'n) \<Rightarrow> ptr \<Rightarrow> 'n option" where
  "load_at h a = (if a = NULL then None else h a)"

text \<open>An assignment to fields of the node at \<open>a\<close>.\<close>
definition write_at :: "('n \<Rightarrow> 'n) \<Rightarrow> (ptr \<rightharpoonup> 'n) \<Rightarrow> ptr \<Rightarrow> (ptr \<rightharpoonup> 'n) option" where
  "write_at f h a = do { n \<leftarrow> load_at h a; Some (h(a \<mapsto> f n)) }"

text \<open>
  What the lists need of a structure type: two pointer fields that can be assigned
  independently of each other and of the rest, the payload.
\<close>

locale link_fields =
  fixes get_prev get_next :: "'n \<Rightarrow> ptr"
    and put_prev put_next :: "ptr \<Rightarrow> 'n \<Rightarrow> 'n"
    and payload :: "'n \<Rightarrow> 'p"
  assumes get_put: "get_prev (put_prev v n) = v" "get_next (put_prev v n) = get_next n"
      "get_next (put_next v n) = v" "get_prev (put_next v n) = get_prev n"
    and payload_put: "payload (put_prev v n) = payload n" "payload (put_next v n) = payload n"
begin

definition view :: "(ptr \<rightharpoonup> 'n) \<Rightarrow> links" where
  "view h a = map_option (\<lambda>n. (get_prev n, get_next n)) (h a)"

definition carried :: "(ptr \<rightharpoonup> 'n) \<Rightarrow> ptr \<Rightarrow> 'p option" where
  "carried h a = map_option payload (h a)"

lemma view_upd: "view (h(a \<mapsto> n)) = (view h)(a \<mapsto> (get_prev n, get_next n))"
  by (auto simp: view_def)

lemma write_prev:
  assumes "p \<noteq> NULL \<Longrightarrow> p \<in> dom h"
  obtains h' where "(if p \<noteq> NULL then write_at (put_prev v) h p else Some h) = Some h'"
    "view h' = (if p \<noteq> NULL then set_prev (view h) p v else view h)" "carried h' = carried h"
    "\<And>b. b \<noteq> p \<or> p = NULL \<Longrightarrow> h' b = h b" "dom h' = dom h"
proof (cases "p = NULL")
  case False
  with assms obtain m where m: "h p = Some m" by blast
  have "view (h(p \<mapsto> put_prev v m)) = set_prev (view h) p v" "carried (h(p \<mapsto> put_prev v m)) = carried h"
    using m by (auto simp: view_def carried_def set_prev_def get_put payload_put)
  with False m show thesis
    by (intro that [of "h(p \<mapsto> put_prev v m)"]) (auto simp: write_at_def load_at_def)
qed (rule that [of h], simp_all)

lemma write_next:
  assumes "p \<noteq> NULL \<Longrightarrow> p \<in> dom h"
  obtains h' where "(if p \<noteq> NULL then write_at (put_next v) h p else Some h) = Some h'"
    "view h' = (if p \<noteq> NULL then set_next (view h) p v else view h)" "carried h' = carried h"
    "\<And>b. b \<noteq> p \<or> p = NULL \<Longrightarrow> h' b = h b" "dom h' = dom h"
proof (cases "p = NULL")
  case False
  with assms obtain m where m: "h p = Some m" by blast
  have "view (h(p \<mapsto> put_next v m)) = set_next (view h) p v" "carried (h(p \<mapsto> put_next v m)) = carried h"
    using m by (auto simp: view_def carried_def set_next_def get_put payload_put)
  with False m show thesis
    by (intro that [of "h(p \<mapsto> put_next v m)"]) (auto simp: write_at_def load_at_def)
qed (rule that [of h], simp_all)

lemma linked_dom: "linked (view h) x y as \<Longrightarrow> a \<in> set as \<Longrightarrow> a \<in> dom h \<and> a \<noteq> NULL"
  using linked_in_dom [of "view h" x y as a] by (auto simp: view_def dom_def)

text \<open>Unlinking the node \<open>a\<close> as the code does it, from any position of the list.\<close>

lemma unlink_node:
  assumes links: "linked (view h) x y (xs @ a # ys)" and n: "h a = Some n"
  defines "p \<equiv> get_prev n" and "q \<equiv> get_next n"
  obtains h1 h2 where "(if p \<noteq> NULL then write_at (put_next q) h p else Some h) = Some h1" "h1 a = Some n"
    "(if q \<noteq> NULL then write_at (put_prev p) h1 q else Some h1) = Some h2"
    "linked (view h2) (if p \<noteq> NULL then x else q) (if q \<noteq> NULL then y else p) (xs @ ys)"
    "carried h2 = carried h" "\<And>b. b \<notin> set (xs @ ys) \<Longrightarrow> h2 b = h b" "dom h2 = dom h"
proof -
  have pq: "view h a = Some (p, q)" using n by (simp add: view_def p_def q_def)
  with linked_node(1) [OF links] have p: "p = last_of NULL xs" and q: "q = first_of ys NULL" by simp_all
  have dist: "distinct (xs @ a # ys)" using links by (simp add: linked_def)
  have pin: "p \<in> set xs" if "p \<noteq> NULL" using that p by (cases "xs = []") (auto simp: last_of_in)
  have qin: "q \<in> set ys" if "q \<noteq> NULL" using that q by (cases "ys = []") (auto simp: first_of_in)
  have pdom: "p \<in> dom h" if "p \<noteq> NULL" using linked_dom [OF links, of p] pin [OF that] by simp
  have qdom: "q \<in> dom h" if "q \<noteq> NULL" using linked_dom [OF links, of q] qin [OF that] by simp
  obtain h1 where h1: "(if p \<noteq> NULL then write_at (put_next q) h p else Some h) = Some h1"
    "view h1 = (if p \<noteq> NULL then set_next (view h) p q else view h)" "carried h1 = carried h"
    "\<And>b. b \<noteq> p \<or> p = NULL \<Longrightarrow> h1 b = h b" "dom h1 = dom h"
    by (rule write_next [of p h q, OF pdom]) (assumption, rule that)
  obtain h2 where h2: "(if q \<noteq> NULL then write_at (put_prev p) h1 q else Some h1) = Some h2"
    "view h2 = (if q \<noteq> NULL then set_prev (view h1) q p else view h1)" "carried h2 = carried h1"
    "\<And>b. b \<noteq> q \<or> q = NULL \<Longrightarrow> h2 b = h1 b" "dom h2 = dom h1"
    by (rule write_prev [of q h1 p]) (simp add: h1(5) qdom, rule that)
  show thesis
  proof (rule that [OF h1(1) _ h2(1)])
    show "h1 a = Some n" using h1(4) [of a] n dist pin by auto
    show "linked (view h2) (if p \<noteq> NULL then x else q) (if q \<noteq> NULL then y else p) (xs @ ys)"
      using linked_unlink [OF links pq] h1(2) h2(2) by (simp add: unlink_def Let_def split: if_splits)
    show "h2 b = h b" if "b \<notin> set (xs @ ys)" for b
    proof -
      have "b \<noteq> q \<or> q = NULL" "b \<noteq> p \<or> p = NULL" using that pin qin by auto
      then show ?thesis using h1(4) h2(4) by auto
    qed
  qed (use h1(3,5) h2(3,5) in auto)
qed

text \<open>Inserting a new node in front.\<close>

lemma insert_node_head:
  assumes links: "linked (view h) x y as" and new: "a \<noteq> NULL" "h a = None"
    and n: "get_prev n = NULL" "get_next n = x"
  obtains h' where "(if x \<noteq> NULL then write_at (put_prev a) (h(a \<mapsto> n)) x else Some (h(a \<mapsto> n))) = Some h'"
    "linked (view h') a (if y = NULL then a else y) (a # as)" "carried h' = carried (h(a \<mapsto> n))"
    "\<And>b. b \<notin> set (a # as) \<Longrightarrow> h' b = h b" "dom h' = insert a (dom h)"
proof -
  have fresh: "a \<notin> set as" using linked_dom [OF links, of a] new(2) by auto
  have xin: "x \<in> set as" if "x \<noteq> NULL"
    using links that by (cases "as = []") (auto simp: linked_def first_of_in)
  have xdom: "x \<in> dom (h(a \<mapsto> n))" if "x \<noteq> NULL" using linked_dom [OF links xin [OF that]] by simp
  obtain h' where h': "(if x \<noteq> NULL then write_at (put_prev a) (h(a \<mapsto> n)) x else Some (h(a \<mapsto> n))) = Some h'"
    "view h' = (if x \<noteq> NULL then set_prev (view (h(a \<mapsto> n))) x a else view (h(a \<mapsto> n)))"
    "carried h' = carried (h(a \<mapsto> n))" "\<And>b. b \<noteq> x \<or> x = NULL \<Longrightarrow> h' b = (h(a \<mapsto> n)) b"
    "dom h' = dom (h(a \<mapsto> n))"
    by (rule write_prev [of x "h(a \<mapsto> n)" a, OF xdom]) (assumption, rule that)
  show thesis
  proof (rule that [OF h'(1)])
    show "linked (view h') a (if y = NULL then a else y) (a # as)"
      using linked_insert_head [OF links new(1) fresh] h'(2) n by (simp add: view_upd split: if_splits)
    show "h' b = h b" if "b \<notin> set (a # as)" for b
      using that h'(4) [of b] xin by auto
  qed (use h'(3,5) in auto)
qed

end

end
