(* ===== verification/Deque.thy ===== *)
theory Deque imports Links begin

text \<open>
  The contract of a double-ended queue of nodes: what clients of the linked list (the
  condition variables of \<open>HW2-skeleton/synchronization.c\<close>, the testers of
  \<open>HW3-skeleton\<close>) may rely on. Its abstract state is the list of the nodes with their
  data; memory for a new node is an argument of the insertions.
\<close>

type_synonym item = "ptr \<times> ptr"

text \<open>An operation of a client, with the address \<open>malloc\<close> gives to a new node.\<close>
datatype deque_op = Push_head ptr ptr | Push_tail ptr ptr | Pop_head | Pop_tail

text \<open>The abstract result (a node, or NULL) and the abstract state after an operation.\<close>
primrec deque_spec :: "deque_op \<Rightarrow> item list \<Rightarrow> ptr \<times> item list" where
  "deque_spec (Push_head a d) ps = (a, (a, d) # ps)"
| "deque_spec (Push_tail a d) ps = (a, ps @ [(a, d)])"
| "deque_spec Pop_head ps = (case ps of [] \<Rightarrow> (NULL, []) | p # ps \<Rightarrow> (fst p, ps))"
| "deque_spec Pop_tail ps = (if ps = [] then (NULL, []) else (fst (last ps), butlast ps))"

primrec deque_specs :: "deque_op list \<Rightarrow> item list \<Rightarrow> ptr list \<times> item list" where
  "deque_specs [] ps = ([], ps)"
| "deque_specs (op # ops) ps =
     (let (r, ps) = deque_spec op ps; (rs, ps) = deque_specs ops ps in (r # rs, ps))"

text \<open>The addresses a sequence of operations allocates.\<close>
primrec new_nodes :: "deque_op list \<Rightarrow> ptr list" where
  "new_nodes [] = []"
| "new_nodes (op # ops) =
     (case op of Push_head a d \<Rightarrow> [a] | Push_tail a d \<Rightarrow> [a] | _ \<Rightarrow> []) @ new_nodes ops"

primrec run_seq :: "('op \<Rightarrow> 's \<Rightarrow> ('r \<times> 's) option) \<Rightarrow> 'op list \<Rightarrow> 's \<Rightarrow> ('r list \<times> 's) option" where
  "run_seq step [] s = Some ([], s)"
| "run_seq step (op # ops) s =
     do { (r, s) \<leftarrow> step op s; (rs, s) \<leftarrow> run_seq step ops s; Some (r # rs, s) }"

locale node_deque =
  fixes rep :: "'s \<Rightarrow> item list \<Rightarrow> bool"
    and fresh :: "'s \<Rightarrow> ptr set"
    and step :: "deque_op \<Rightarrow> 's \<Rightarrow> (ptr \<times> 's) option"
  assumes push_head: "rep s ps \<Longrightarrow> a \<in> fresh s \<Longrightarrow>
      \<exists>s'. step (Push_head a d) s = Some (a, s') \<and> rep s' ((a, d) # ps) \<and> fresh s' = fresh s - {a}"
    and push_tail: "rep s ps \<Longrightarrow> a \<in> fresh s \<Longrightarrow>
      \<exists>s'. step (Push_tail a d) s = Some (a, s') \<and> rep s' (ps @ [(a, d)]) \<and> fresh s' = fresh s - {a}"
    and pop_head: "rep s (p # ps) \<Longrightarrow>
      \<exists>s'. step Pop_head s = Some (fst p, s') \<and> rep s' ps \<and> fresh s' = fresh s"
    and pop_tail: "rep s (ps @ [p]) \<Longrightarrow>
      \<exists>s'. step Pop_tail s = Some (fst p, s') \<and> rep s' ps \<and> fresh s' = fresh s"
    and pop_empty: "rep s [] \<Longrightarrow> step Pop_head s = Some (NULL, s) \<and> step Pop_tail s = Some (NULL, s)"
begin

lemma step_refines:
  assumes "rep s ps" "set (new_nodes [op]) \<subseteq> fresh s"
  shows "\<exists>s'. step op s = Some (fst (deque_spec op ps), s') \<and> rep s' (snd (deque_spec op ps)) \<and>
    fresh s' = fresh s - set (new_nodes [op])"
proof (cases op)
  case (Push_head a d)
  with push_head [OF assms(1), of a d] assms(2) show ?thesis by simp
next
  case (Push_tail a d)
  with push_tail [OF assms(1), of a d] assms(2) show ?thesis by simp
next
  case Pop_head
  with pop_empty [of s] pop_head [of s] assms(1) show ?thesis by (cases ps) auto
next
  case Pop_tail
  show ?thesis
  proof (cases "ps = []")
    case True
    with Pop_tail pop_empty [of s] assms(1) show ?thesis by auto
  next
    case False
    then have "rep s (butlast ps @ [last ps])" using assms(1) by simp
    from pop_tail [OF this] False Pop_tail show ?thesis by simp
  qed
qed

text \<open>Every sequence of operations gives the results of the abstract queue.\<close>

lemma run_refines:
  assumes "rep s ps" "set (new_nodes ops) \<subseteq> fresh s" "distinct (new_nodes ops)"
  shows "\<exists>s'. run_seq step ops s = Some (fst (deque_specs ops ps), s') \<and> rep s' (snd (deque_specs ops ps))"
  using assms
proof (induction ops arbitrary: s ps)
  case (Cons op ops)
  from Cons.prems(2) have "set (new_nodes [op]) \<subseteq> fresh s" by auto
  from step_refines [OF Cons.prems(1) this] obtain s1 where
    s1: "step op s = Some (fst (deque_spec op ps), s1)" "rep s1 (snd (deque_spec op ps))"
      "fresh s1 = fresh s - set (new_nodes [op])" by blast
  have "set (new_nodes ops) \<subseteq> fresh s1" "distinct (new_nodes ops)"
    using Cons.prems(2,3) by (auto simp: s1(3))
  from Cons.IH [OF s1(2) this] obtain s' where
    "run_seq step ops s1 = Some (fst (deque_specs ops (snd (deque_spec op ps))), s')"
    "rep s' (snd (deque_specs ops (snd (deque_spec op ps))))" by blast
  with s1(1) show ?case by (simp add: case_prod_beta Let_def)
qed simp

text \<open>First in, first out; and last in, first out.\<close>

lemma fifo:
  assumes "rep s []" "set (map fst ps) \<subseteq> fresh s" "distinct (map fst ps)"
  shows "\<exists>s'. run_seq step (map (\<lambda>(a, d). Push_tail a d) ps @ replicate (length ps) Pop_head) s =
    Some (map fst ps @ map fst ps, s') \<and> rep s' []"
proof -
  have new: "new_nodes (map (\<lambda>(a, d). Push_tail a d) xs @ replicate n Pop_head) = map fst xs" for xs n
    by (induction xs) (induction n, auto)
  have pops: "deque_specs (replicate (length xs) Pop_head) xs = (map fst xs, [])" for xs
    by (induction xs) auto
  have "deque_specs (map (\<lambda>(a, d). Push_tail a d) xs @ replicate (length (ys @ xs)) Pop_head) ys =
      (map fst xs @ map fst (ys @ xs), [])" for xs ys
  proof (induction xs arbitrary: ys)
    case Nil
    with pops [of ys] show ?case by simp
  next
    case (Cons x xs)
    from Cons.IH [of "ys @ [x]"] show ?case by (cases x) (simp add: case_prod_beta Let_def)
  qed
  from this [of ps "[]"] run_refines [OF assms(1), of "map (\<lambda>(a, d). Push_tail a d) ps @ replicate (length ps) Pop_head"]
    assms(2,3) show ?thesis unfolding new by auto
qed

end

end
