(* ===== verification/LL_Double.thy ===== *)
theory LL_Double imports Deque begin

text \<open>
  The doubly linked list of \<open>HW2-skeleton/ll_double.c\<close> (the file in \<open>HW3-skeleton\<close> is the
  same). A heap maps addresses to nodes; the \<open>struct list\<close> is a value with its two
  pointers. The argument \<open>new_node\<close> of an insertion is what \<open>malloc\<close> returned. Results
  are \<open>None\<close> where the code dereferences an invalid pointer or does not return.
\<close>

record node =
  node_data :: ptr
  node_prev :: ptr
  node_next :: ptr

type_synonym heap = "ptr \<rightharpoonup> node"

record ll_list =
  list_head :: ptr
  list_tail :: ptr

section \<open>Memory accesses\<close>

definition set_node_prev :: "heap \<Rightarrow> ptr \<Rightarrow> ptr \<Rightarrow> heap option" where
  "set_node_prev h a v = write_at (\<lambda>n. n\<lparr>node_prev := v\<rparr>) h a"

definition set_node_next :: "heap \<Rightarrow> ptr \<Rightarrow> ptr \<Rightarrow> heap option" where
  "set_node_next h a v = write_at (\<lambda>n. n\<lparr>node_next := v\<rparr>) h a"

section \<open>The operations\<close>

text \<open>The argument is the pointer \<open>list\<close>: \<open>None\<close> is NULL, which the function accepts.\<close>
definition ll_init :: "ll_list option \<Rightarrow> ll_list option" where
  "ll_init list = (case list of None \<Rightarrow> None | Some l \<Rightarrow> Some (l\<lparr>list_head := NULL, list_tail := NULL\<rparr>))"

definition ll_insert_head :: "ptr \<Rightarrow> ptr \<Rightarrow> ll_list \<Rightarrow> heap \<Rightarrow> (ptr \<times> ll_list \<times> heap) option" where
  "ll_insert_head new_node data l h =
     (if new_node \<noteq> NULL then
        do {
          let h = h(new_node \<mapsto> \<lparr>node_data = data, node_prev = NULL, node_next = list_head l\<rparr>);
          h \<leftarrow> (if list_head l \<noteq> NULL then set_node_prev h (list_head l) new_node else Some h);
          let l = l\<lparr>list_head := new_node\<rparr>;
          let l = (if list_tail l = NULL then l\<lparr>list_tail := new_node\<rparr> else l);
          Some (new_node, l, h)
        }
      else Some (new_node, l, h))"

definition ll_insert_tail :: "ptr \<Rightarrow> ptr \<Rightarrow> ll_list \<Rightarrow> heap \<Rightarrow> (ptr \<times> ll_list \<times> heap) option" where
  "ll_insert_tail new_node data l h =
     (if new_node \<noteq> NULL then
        do {
          let h = h(new_node \<mapsto> \<lparr>node_data = data, node_prev = list_tail l, node_next = NULL\<rparr>);
          h \<leftarrow> (if list_tail l \<noteq> NULL then set_node_next h (list_tail l) new_node else Some h);
          let l = l\<lparr>list_tail := new_node\<rparr>;
          let l = (if list_head l = NULL then l\<lparr>list_head := new_node\<rparr> else l);
          Some (new_node, l, h)
        }
      else Some (new_node, l, h))"

text \<open>
  \<open>while(temporary != NULL) { if(...) return temporary; temporary = temporary->next; }\<close>:
  the loop of the three searches, with their test of the node's data.
\<close>
partial_function (option) ll_walk :: "(ptr \<Rightarrow> bool) \<Rightarrow> heap \<Rightarrow> ptr \<Rightarrow> ptr option" where
  "ll_walk test h temporary =
     (if temporary \<noteq> NULL then
        do {
          n \<leftarrow> load_at h temporary;
          (if test (node_data n) then Some temporary else ll_walk test h (node_next n))
        }
      else Some NULL)"

definition ll_search :: "ll_list \<Rightarrow> ptr \<Rightarrow> heap \<Rightarrow> ptr option" where
  "ll_search l data h = ll_walk (\<lambda>d. data = d) h (list_head l)"

definition ll_search_comparison :: "ll_list \<Rightarrow> ptr \<Rightarrow> (ptr \<Rightarrow> ptr \<Rightarrow> int) \<Rightarrow> heap \<Rightarrow> ptr option" where
  "ll_search_comparison l data compare h = ll_walk (\<lambda>d. compare data d = 1) h (list_head l)"

definition ll_search_predicate :: "ll_list \<Rightarrow> (ptr \<Rightarrow> int) \<Rightarrow> heap \<Rightarrow> ptr option" where
  "ll_search_predicate l predicate h = ll_walk (\<lambda>d. predicate d = 1) h (list_head l)"

text \<open>The result is the argument \<open>data\<close> itself, cast to a node pointer.\<close>
definition ll_remove :: "ll_list \<Rightarrow> ptr \<Rightarrow> heap \<Rightarrow> (ptr \<times> ll_list \<times> heap) option" where
  "ll_remove l data h =
     do {
       temporary \<leftarrow> ll_search l data h;
       (if temporary = NULL then Some (NULL, l, h)
        else do {
          n \<leftarrow> load_at h temporary;
          (l, h) \<leftarrow> (if node_prev n \<noteq> NULL then do { h \<leftarrow> set_node_next h (node_prev n) (node_next n); Some (l, h) }
                     else Some (l\<lparr>list_head := node_next n\<rparr>, h));
          n \<leftarrow> load_at h temporary;
          (l, h) \<leftarrow> (if node_next n \<noteq> NULL then do { h \<leftarrow> set_node_prev h (node_next n) (node_prev n); Some (l, h) }
                     else Some (l\<lparr>list_tail := node_prev n\<rparr>, h));
          Some (data, l, h)
        })
     }"

definition ll_remove_head :: "ll_list \<Rightarrow> heap \<Rightarrow> (ptr \<times> ll_list \<times> heap) option" where
  "ll_remove_head l h =
     (if list_head l = NULL then Some (NULL, l, h)
      else do {
        let result = list_head l;
        n \<leftarrow> load_at h (list_head l);
        let l = l\<lparr>list_head := node_next n\<rparr>;
        (l, h) \<leftarrow> (if list_head l \<noteq> NULL then do { h \<leftarrow> set_node_prev h (list_head l) NULL; Some (l, h) }
                   else Some (l\<lparr>list_tail := NULL\<rparr>, h));
        Some (result, l, h)
      })"

definition ll_remove_tail :: "ll_list \<Rightarrow> heap \<Rightarrow> (ptr \<times> ll_list \<times> heap) option" where
  "ll_remove_tail l h =
     (if list_tail l = NULL then Some (NULL, l, h)
      else do {
        let result = list_tail l;
        n \<leftarrow> load_at h (list_tail l);
        let l = l\<lparr>list_tail := node_prev n\<rparr>;
        (l, h) \<leftarrow> (if list_tail l \<noteq> NULL then do { h \<leftarrow> set_node_next h (list_tail l) NULL; Some (l, h) }
                   else Some (l\<lparr>list_head := NULL\<rparr>, h));
        Some (result, l, h)
      })"

section \<open>The list in a heap\<close>

definition links_of :: "heap \<Rightarrow> links" where
  "links_of h a = map_option (\<lambda>n. (node_prev n, node_next n)) (h a)"

definition data_at :: "heap \<Rightarrow> ptr \<Rightarrow> ptr option" where
  "data_at h a = map_option node_data (h a)"

text \<open>The nodes \<open>as\<close>, in order, carry the data \<open>ds\<close>.\<close>
definition list_at :: "heap \<Rightarrow> ll_list \<Rightarrow> ptr list \<Rightarrow> ptr list \<Rightarrow> bool" where
  "list_at h l as ds \<longleftrightarrow> linked (links_of h) (list_head l) (list_tail l) as \<and>
     map (data_at h) as = map Some ds"

lemma links_of_upd [simp]: "links_of (h(a \<mapsto> n)) = (links_of h)(a \<mapsto> (node_prev n, node_next n))"
  by (auto simp: links_of_def)

lemma data_at_upd [simp]: "data_at (h(a \<mapsto> n)) = (data_at h)(a \<mapsto> node_data n)"
  by (auto simp: data_at_def)

lemma links_of_Some: "links_of h a = Some (p, q) \<longleftrightarrow> (\<exists>n. h a = Some n \<and> node_prev n = p \<and> node_next n = q)"
  by (auto simp: links_of_def)

text \<open>The nodes of these lists are structures with two pointer fields and a payload.\<close>

interpretation nodes: link_fields node_prev node_next "\<lambda>v n. n\<lparr>node_prev := v\<rparr>" "\<lambda>v n. n\<lparr>node_next := v\<rparr>" node_data
  by unfold_locales simp_all

lemma nodes_views: "nodes.view = links_of" "nodes.carried = data_at"
  by (simp_all add: fun_eq_iff nodes.view_def links_of_def nodes.carried_def data_at_def)

lemma set_node_prev_if:
  assumes "p \<noteq> NULL \<Longrightarrow> p \<in> dom h"
  obtains h' where "(if p \<noteq> NULL then set_node_prev h p v else Some h) = Some h'"
    "links_of h' = (if p \<noteq> NULL then set_prev (links_of h) p v else links_of h)" "data_at h' = data_at h"
    "\<And>b. b \<noteq> p \<or> p = NULL \<Longrightarrow> h' b = h b" "dom h' = dom h"
  by (rule nodes.write_prev [of p h v, unfolded nodes_views set_node_prev_def [symmetric], OF assms])
    (assumption, rule that)

lemma set_node_next_if:
  assumes "p \<noteq> NULL \<Longrightarrow> p \<in> dom h"
  obtains h' where "(if p \<noteq> NULL then set_node_next h p v else Some h) = Some h'"
    "links_of h' = (if p \<noteq> NULL then set_next (links_of h) p v else links_of h)" "data_at h' = data_at h"
    "\<And>b. b \<noteq> p \<or> p = NULL \<Longrightarrow> h' b = h b" "dom h' = dom h"
  by (rule nodes.write_next [of p h v, unfolded nodes_views set_node_next_def [symmetric], OF assms])
    (assumption, rule that)

text \<open>A heap outside of the nodes of a list may change freely.\<close>

lemma list_at_frame:
  assumes "list_at h l as ds" "\<And>a. a \<in> set as \<Longrightarrow> h' a = h a"
  shows "list_at h' l as ds"
proof -
  have "linked (links_of h') (list_head l) (list_tail l) as"
    by (rule linked_frame [of "links_of h"]) (use assms in \<open>auto simp: list_at_def links_of_def\<close>)
  moreover have "map (data_at h') as = map (data_at h) as"
    using assms(2) by (simp add: data_at_def)
  ultimately show ?thesis using assms(1) unfolding list_at_def by (simp only:)
qed

lemma list_at_empty [simp]: "list_at h l [] ds \<longleftrightarrow> list_head l = NULL \<and> list_tail l = NULL \<and> ds = []"
  by (auto simp: list_at_def)

lemma list_at_length: "list_at h l as ds \<Longrightarrow> length ds = length as"
  unfolding list_at_def by (metis length_map)

lemma list_at_node:
  assumes "list_at h l as ds" "a \<in> set as"
  obtains n where "h a = Some n" "a \<noteq> NULL"
  using assms linked_in_dom [of "links_of h" "list_head l" "list_tail l" as a]
  by (auto simp: list_at_def links_of_def)

lemma list_at_fresh: "list_at h l as ds \<Longrightarrow> h a = None \<Longrightarrow> a \<notin> set as"
  by (auto elim: list_at_node)

lemma list_at_ends:
  assumes "list_at h l as ds"
  shows "list_head l = NULL \<longleftrightarrow> as = []" "list_tail l = NULL \<longleftrightarrow> as = []"
    "as \<noteq> [] \<Longrightarrow> list_head l \<in> set as" "as \<noteq> [] \<Longrightarrow> list_tail l \<in> set as"
  using assms linked_head [of "links_of h"] linked_tail [of "links_of h"]
  by (auto simp: list_at_def linked_def first_of_in last_of_in)

section \<open>What each operation does\<close>

lemma ll_insert_head_ok:
  assumes l: "list_at h l as ds" and new: "new_node \<noteq> NULL" "h new_node = None"
  obtains l' h' where "ll_insert_head new_node data l h = Some (new_node, l', h')"
    "list_at h' l' (new_node # as) (data # ds)"
    "\<And>a. a \<notin> set (new_node # as) \<Longrightarrow> h' a = h a" "dom h' = insert new_node (dom h)"
proof -
  let ?node = "\<lparr>node_data = data, node_prev = NULL, node_next = list_head l\<rparr>"
  let ?l = "l\<lparr>list_head := new_node, list_tail := if list_tail l = NULL then new_node else list_tail l\<rparr>"
  have links: "linked (nodes.view h) (list_head l) (list_tail l) as" and ds: "map (data_at h) as = map Some ds"
    using l by (simp_all add: list_at_def nodes_views)
  obtain h' where h': "(if list_head l \<noteq> NULL then set_node_prev (h(new_node \<mapsto> ?node)) (list_head l) new_node
      else Some (h(new_node \<mapsto> ?node))) = Some h'"
    "linked (nodes.view h') new_node (if list_tail l = NULL then new_node else list_tail l) (new_node # as)"
    "nodes.carried h' = nodes.carried (h(new_node \<mapsto> ?node))"
    "\<And>b. b \<notin> set (new_node # as) \<Longrightarrow> h' b = h b" "dom h' = insert new_node (dom h)"
    by (rule nodes.insert_node_head [of h _ _ as new_node ?node, OF links new, unfolded set_node_prev_def [symmetric]])
      (simp, simp, rule that)
  have "ll_insert_head new_node data l h = Some (new_node, ?l, h')"
    using h'(1) new(1) by (cases "list_head l = NULL") (simp_all add: ll_insert_head_def)
  moreover have "map (data_at h') (new_node # as) = map Some (data # ds)"
    using ds list_at_fresh [OF l new(2)] h'(3) unfolding nodes_views by (auto simp: map_eq_conv)
  with h'(2) have "list_at h' ?l (new_node # as) (data # ds)"
    unfolding list_at_def nodes_views by simp
  ultimately show thesis using h'(4,5) by (rule that)
qed

lemma ll_insert_tail_ok:
  assumes l: "list_at h l as ds" and new: "new_node \<noteq> NULL" "h new_node = None"
  obtains l' h' where "ll_insert_tail new_node data l h = Some (new_node, l', h')"
    "list_at h' l' (as @ [new_node]) (ds @ [data])"
    "\<And>a. a \<notin> set (new_node # as) \<Longrightarrow> h' a = h a" "dom h' = insert new_node (dom h)"
proof -
  let ?h1 = "h(new_node \<mapsto> \<lparr>node_data = data, node_prev = list_tail l, node_next = NULL\<rparr>)"
  let ?l = "l\<lparr>list_tail := new_node, list_head := if list_head l = NULL then new_node else list_head l\<rparr>"
  note ends = list_at_ends [OF l] and fresh = list_at_fresh [OF l new(2)]
  have links: "linked (links_of h) (list_head l) (list_tail l) as" and ds: "map (data_at h) as = map Some ds"
    using l by (simp_all add: list_at_def)
  have tdom: "list_tail l \<in> dom ?h1" if "list_tail l \<noteq> NULL"
    using ends(2,4) that list_at_node [OF l, of "list_tail l"] by auto
  obtain h' where h': "(if list_tail l \<noteq> NULL then set_node_next ?h1 (list_tail l) new_node else Some ?h1) = Some h'"
    "links_of h' = (if list_tail l \<noteq> NULL then set_next (links_of ?h1) (list_tail l) new_node else links_of ?h1)"
    "data_at h' = data_at ?h1" "\<And>b. b \<noteq> list_tail l \<or> list_tail l = NULL \<Longrightarrow> h' b = ?h1 b" "dom h' = dom ?h1"
    by (rule set_node_next_if [of "list_tail l" ?h1 new_node, OF tdom]) (assumption, rule that)
  have "ll_insert_tail new_node data l h = Some (new_node, ?l, h')"
    using h'(1) new(1) by (cases "list_tail l = NULL") (simp_all add: ll_insert_tail_def)
  moreover have "map (data_at h') (as @ [new_node]) = map Some (ds @ [data])"
    using ds fresh h'(3) by (auto simp: map_eq_conv)
  with linked_insert_tail [OF links new(1) fresh] h'(2) have "list_at h' ?l (as @ [new_node]) (ds @ [data])"
    unfolding list_at_def by (simp split: if_splits)
  moreover have "h' b = h b" if "b \<notin> set (new_node # as)" for b
    using that h'(4) [of b] ends(2,4) by auto
  moreover have "dom h' = insert new_node (dom h)" using h'(5) by auto
  ultimately show thesis by (rule that)
qed

lemma ll_insert_no_memory:
  "ll_insert_head NULL data l h = Some (NULL, l, h)" "ll_insert_tail NULL data l h = Some (NULL, l, h)"
  by (simp_all add: ll_insert_head_def ll_insert_tail_def)

section \<open>Searching\<close>

text \<open>The node in front of which all data fail the test, or NULL.\<close>

lemma ll_walk_chain:
  assumes "chain (links_of h) p as NULL" "map (data_at h) as = map Some ds"
  obtains (found) xs a ys dxs d dys where "as = xs @ a # ys" "ds = dxs @ d # dys" "length dxs = length xs"
      "ll_walk test h (first_of as NULL) = Some a" "test d" "\<And>x. x \<in> set dxs \<Longrightarrow> \<not> test x"
  | (missing) "ll_walk test h (first_of as NULL) = Some NULL" "\<And>x. x \<in> set ds \<Longrightarrow> \<not> test x"
  using assms
proof (induction as arbitrary: p ds thesis)
  case Nil
  have "ll_walk test h (first_of [] NULL) = Some NULL" by (subst ll_walk.simps) simp
  with Nil show ?case by auto
next
  case (Cons a as)
  from Cons.prems(3) obtain n where n: "h a = Some n" "a \<noteq> NULL" "node_next n = first_of as NULL"
    and ch: "chain (links_of h) a as NULL" by (auto simp: links_of_Some)
  from Cons.prems(4) obtain d dt where ds: "ds = d # dt" "data_at h a = Some d" "map (data_at h) as = map Some dt"
    by auto
  then have d: "node_data n = d" using n(1) by (simp add: data_at_def)
  have step: "ll_walk test h a = (if test d then Some a else ll_walk test h (first_of as NULL))"
    by (subst ll_walk.simps) (use n d in \<open>simp add: load_at_def\<close>)
  show ?case
  proof (cases "test d")
    case True
    with step ds show ?thesis by (intro Cons.prems(1) [of "[]" a as "[]" d dt]) auto
  next
    case False
    show ?thesis
    proof (rule Cons.IH [OF _ _ ch ds(3)])
      fix xs b ys dxs e dys
      assume IH: "as = xs @ b # ys" "dt = dxs @ e # dys" "length dxs = length xs"
        "ll_walk test h (first_of as NULL) = Some b" "test e" "\<And>x. x \<in> set dxs \<Longrightarrow> \<not> test x"
      with step ds False show thesis by (intro Cons.prems(1) [of "a # xs" b ys "d # dxs" e dys]) auto
    next
      assume "ll_walk test h (first_of as NULL) = Some NULL" "\<And>x. x \<in> set dt \<Longrightarrow> \<not> test x"
      with step ds False show thesis by (intro Cons.prems(2)) auto
    qed
  qed
qed

lemma ll_walk_cases:
  assumes "list_at h l as ds"
  obtains (found) xs a ys dxs d dys where "as = xs @ a # ys" "ds = dxs @ d # dys" "length dxs = length xs"
      "ll_walk test h (list_head l) = Some a" "a \<noteq> NULL" "test d" "\<And>x. x \<in> set dxs \<Longrightarrow> \<not> test x"
  | (missing) "ll_walk test h (list_head l) = Some NULL" "\<And>x. x \<in> set ds \<Longrightarrow> \<not> test x"
proof -
  from assms have ch: "chain (links_of h) NULL as NULL" "map (data_at h) as = map Some ds"
    and head: "list_head l = first_of as NULL" by (auto simp: list_at_def linked_def)
  from ch show thesis
  proof (cases rule: ll_walk_chain [where test = test])
    case (found xs a ys dxs d dys)
    with ch(1) have "a \<noteq> NULL" by simp
    with found head show ?thesis by (intro that(1) [of xs a ys dxs d dys]) auto
  next
    case missing
    with head show ?thesis by (intro that(2)) auto
  qed
qed

section \<open>Removal\<close>

text \<open>Joining the neighbours of a node, as \<open>ll_remove\<close> does it.\<close>

lemma ll_remove_found:
  assumes l: "list_at h l (xs @ a # ys) (dxs @ d # dys)" and len: "length dxs = length xs"
    and search: "ll_search l data h = Some a"
  obtains l' h' where "ll_remove l data h = Some (data, l', h')" "list_at h' l' (xs @ ys) (dxs @ dys)"
    "\<And>b. b \<notin> set (xs @ ys) \<Longrightarrow> h' b = h b" "dom h' = dom h"
proof -
  have links: "linked (nodes.view h) (list_head l) (list_tail l) (xs @ a # ys)"
    and ds: "map (data_at h) (xs @ a # ys) = map Some (dxs @ d # dys)"
    using l by (simp_all add: list_at_def nodes_views)
  obtain n where n: "h a = Some n" "a \<noteq> NULL" by (rule list_at_node [OF l, of a]) simp_all
  let ?p = "node_prev n" and ?q = "node_next n"
  obtain h1 h2 where u: "(if ?p \<noteq> NULL then set_node_next h ?p ?q else Some h) = Some h1" "h1 a = Some n"
    "(if ?q \<noteq> NULL then set_node_prev h1 ?q ?p else Some h1) = Some h2"
    "linked (nodes.view h2) (if ?p \<noteq> NULL then list_head l else ?q) (if ?q \<noteq> NULL then list_tail l else ?p) (xs @ ys)"
    "nodes.carried h2 = nodes.carried h" "\<And>b. b \<notin> set (xs @ ys) \<Longrightarrow> h2 b = h b" "dom h2 = dom h"
    by (rule nodes.unlink_node [OF links n(1), unfolded set_node_prev_def [symmetric] set_node_next_def [symmetric]])
      (rule that)
  let ?l = "l\<lparr>list_head := if ?p \<noteq> NULL then list_head l else ?q,
    list_tail := if ?q \<noteq> NULL then list_tail l else ?p\<rparr>"
  have "ll_remove l data h = Some (data, ?l, h2)"
    unfolding ll_remove_def search
    using u(1-3) n by (cases "?p = NULL"; cases "?q = NULL") (simp_all add: load_at_def)
  moreover have "list_at h2 ?l (xs @ ys) (dxs @ dys)"
    using u(4,5) ds len by (simp add: list_at_def nodes_views)
  ultimately show thesis using u(6,7) by (intro that [of ?l h2]) simp_all
qed

lemma ll_remove_missing:
  assumes "list_at h l as ds" "data \<notin> set ds"
  shows "ll_remove l data h = Some (NULL, l, h)"
proof -
  from assms(1) have "ll_search l data h = Some NULL"
    by (cases rule: ll_walk_cases [where test = "\<lambda>d. data = d"]) (use assms(2) in \<open>auto simp: ll_search_def\<close>)
  then show ?thesis by (simp add: ll_remove_def)
qed

lemma ll_remove_head_ok:
  assumes l: "list_at h l (a # as) (d # ds)"
  obtains l' h' where "ll_remove_head l h = Some (a, l', h')" "list_at h' l' as ds"
    "\<And>b. b \<notin> set as \<Longrightarrow> h' b = h b" "data_at h' a = Some d" "dom h' = dom h"
proof -
  have links: "linked (links_of h) (list_head l) (list_tail l) ([] @ a # as)"
    and ds: "map (data_at h) (a # as) = map Some (d # ds)"
    using l by (simp_all add: list_at_def)
  obtain n where n: "h a = Some n" "a \<noteq> NULL" by (rule list_at_node [OF l, of a]) simp_all
  have pq: "links_of h a = Some (NULL, node_next n)"
    using linked_node(1) [OF links] n(1) by (simp add: links_of_def)
  have q: "node_next n = first_of as NULL" using linked_node(1) [OF links] pq by simp
  have head: "list_head l = a" using links by (simp add: linked_def)
  have qin: "node_next n \<in> set as" if "node_next n \<noteq> NULL"
    using that q by (cases "as = []") (auto simp: first_of_in)
  have qdom: "node_next n \<in> dom h" if "node_next n \<noteq> NULL" using qin [OF that] l by (auto elim: list_at_node)
  obtain h1 where h1: "(if node_next n \<noteq> NULL then set_node_prev h (node_next n) NULL else Some h) = Some h1"
    "links_of h1 = (if node_next n \<noteq> NULL then set_prev (links_of h) (node_next n) NULL else links_of h)"
    "data_at h1 = data_at h" "\<And>b. b \<noteq> node_next n \<or> node_next n = NULL \<Longrightarrow> h1 b = h b" "dom h1 = dom h"
    by (rule set_node_prev_if [of "node_next n" h NULL, OF qdom]) (assumption, rule that)
  let ?l = "l\<lparr>list_head := node_next n, list_tail := if node_next n \<noteq> NULL then list_tail l else NULL\<rparr>"
  have "ll_remove_head l h = Some (a, ?l, h1)"
    using h1(1) n head by (cases "node_next n = NULL") (simp_all add: ll_remove_head_def load_at_def)
  moreover have "list_at h1 ?l as ds"
    using linked_unlink [OF links pq] ds h1(2,3) by (simp add: list_at_def unlink_def Let_def split: if_splits)
  moreover have "h1 b = h b" if "b \<notin> set as" for b
    using that qin h1(4) [of b] by auto
  ultimately show thesis using h1(3,5) ds by (intro that [of ?l h1]) simp_all
qed

lemma ll_remove_tail_ok:
  assumes l: "list_at h l (as @ [a]) (ds @ [d])"
  obtains l' h' where "ll_remove_tail l h = Some (a, l', h')" "list_at h' l' as ds"
    "\<And>b. b \<notin> set as \<Longrightarrow> h' b = h b" "data_at h' a = Some d" "dom h' = dom h"
proof -
  have links: "linked (links_of h) (list_head l) (list_tail l) (as @ a # [])"
    and ds: "map (data_at h) (as @ [a]) = map Some (ds @ [d])"
    using l by (simp_all add: list_at_def)
  have len: "length ds = length as" using list_at_length [OF l] by simp
  obtain n where n: "h a = Some n" "a \<noteq> NULL" by (rule list_at_node [OF l, of a]) simp_all
  have pq: "links_of h a = Some (node_prev n, NULL)"
    using linked_node(1) [OF links] n(1) by (simp add: links_of_def)
  have p: "node_prev n = last_of NULL as" using linked_node(1) [OF links] pq by simp
  have tail: "list_tail l = a" using links by (simp add: linked_def)
  have pin: "node_prev n \<in> set as" if "node_prev n \<noteq> NULL"
    using that p by (cases "as = []") (auto simp: last_of_in)
  have pdom: "node_prev n \<in> dom h" if "node_prev n \<noteq> NULL" using pin [OF that] l by (auto elim: list_at_node)
  obtain h1 where h1: "(if node_prev n \<noteq> NULL then set_node_next h (node_prev n) NULL else Some h) = Some h1"
    "links_of h1 = (if node_prev n \<noteq> NULL then set_next (links_of h) (node_prev n) NULL else links_of h)"
    "data_at h1 = data_at h" "\<And>b. b \<noteq> node_prev n \<or> node_prev n = NULL \<Longrightarrow> h1 b = h b" "dom h1 = dom h"
    by (rule set_node_next_if [of "node_prev n" h NULL, OF pdom]) (assumption, rule that)
  let ?l = "l\<lparr>list_tail := node_prev n, list_head := if node_prev n \<noteq> NULL then list_head l else NULL\<rparr>"
  have "ll_remove_tail l h = Some (a, ?l, h1)"
    using h1(1) n tail by (cases "node_prev n = NULL") (simp_all add: ll_remove_tail_def load_at_def)
  moreover have "list_at h1 ?l as ds"
    using linked_unlink [OF links pq] ds h1(2,3) len
    by (simp add: list_at_def unlink_def Let_def split: if_splits)
  moreover have "h1 b = h b" if "b \<notin> set as" for b
    using that pin h1(4) [of b] by auto
  ultimately show thesis using h1(3,5) ds len by (intro that [of ?l h1]) simp_all
qed

lemma ll_remove_empty:
  "list_head l = NULL \<Longrightarrow> ll_remove_head l h = Some (NULL, l, h)"
  "list_tail l = NULL \<Longrightarrow> ll_remove_tail l h = Some (NULL, l, h)"
  by (simp_all add: ll_remove_head_def ll_remove_tail_def)

lemma ll_init_list_at: "ll_init (Some l) = Some l' \<Longrightarrow> list_at h l' [] []"
  by (auto simp: ll_init_def)

section \<open>The list as a double-ended queue\<close>

primrec ll_step :: "deque_op \<Rightarrow> ll_list \<times> heap \<Rightarrow> (ptr \<times> ll_list \<times> heap) option" where
  "ll_step (Push_head a d) s = ll_insert_head a d (fst s) (snd s)"
| "ll_step (Push_tail a d) s = ll_insert_tail a d (fst s) (snd s)"
| "ll_step Pop_head s = ll_remove_head (fst s) (snd s)"
| "ll_step Pop_tail s = ll_remove_tail (fst s) (snd s)"

definition ll_rep :: "ll_list \<times> heap \<Rightarrow> item list \<Rightarrow> bool" where
  "ll_rep s ps \<longleftrightarrow> list_at (snd s) (fst s) (map fst ps) (map snd ps)"

text \<open>What \<open>malloc\<close> may return: an address that is not NULL and not in use.\<close>
definition ll_fresh :: "ll_list \<times> heap \<Rightarrow> ptr set" where
  "ll_fresh s = {a. a \<noteq> NULL \<and> snd s a = None}"

lemma ll_fresh_dom: "ll_fresh (l, h) = - dom h - {NULL}"
  by (auto simp: ll_fresh_def)

interpretation ll: node_deque ll_rep ll_fresh ll_step
proof unfold_locales
  fix s ps a d assume s: "ll_rep s ps" "a \<in> ll_fresh s"
  obtain l h where lh: "s = (l, h)" by fastforce
  from s have l: "list_at h l (map fst ps) (map snd ps)" and a: "a \<noteq> NULL" "h a = None"
    by (simp_all add: lh ll_rep_def ll_fresh_def)
  obtain l' h' where "ll_insert_head a d l h = Some (a, l', h')"
    "list_at h' l' (a # map fst ps) (d # map snd ps)" "dom h' = insert a (dom h)"
    by (rule ll_insert_head_ok [OF l a])
  then show "\<exists>s'. ll_step (Push_head a d) s = Some (a, s') \<and> ll_rep s' ((a, d) # ps) \<and> ll_fresh s' = ll_fresh s - {a}"
    by (intro exI [of _ "(l', h')"]) (auto simp: lh ll_rep_def ll_fresh_dom)
  obtain l' h' where "ll_insert_tail a d l h = Some (a, l', h')"
    "list_at h' l' (map fst ps @ [a]) (map snd ps @ [d])" "dom h' = insert a (dom h)"
    by (rule ll_insert_tail_ok [OF l a])
  then show "\<exists>s'. ll_step (Push_tail a d) s = Some (a, s') \<and> ll_rep s' (ps @ [(a, d)]) \<and> ll_fresh s' = ll_fresh s - {a}"
    by (intro exI [of _ "(l', h')"]) (auto simp: lh ll_rep_def ll_fresh_dom)
next
  fix s p ps assume s: "ll_rep s (p # ps)"
  obtain l h where lh: "s = (l, h)" by fastforce
  from s have l: "list_at h l (fst p # map fst ps) (snd p # map snd ps)" by (simp add: lh ll_rep_def)
  obtain l' h' where "ll_remove_head l h = Some (fst p, l', h')" "list_at h' l' (map fst ps) (map snd ps)" "dom h' = dom h"
    by (rule ll_remove_head_ok [OF l])
  then show "\<exists>s'. ll_step Pop_head s = Some (fst p, s') \<and> ll_rep s' ps \<and> ll_fresh s' = ll_fresh s"
    by (intro exI [of _ "(l', h')"]) (simp add: lh ll_rep_def ll_fresh_dom)
next
  fix s ps p assume s: "ll_rep s (ps @ [p])"
  obtain l h where lh: "s = (l, h)" by fastforce
  from s have l: "list_at h l (map fst ps @ [fst p]) (map snd ps @ [snd p])" by (simp add: lh ll_rep_def)
  obtain l' h' where "ll_remove_tail l h = Some (fst p, l', h')" "list_at h' l' (map fst ps) (map snd ps)" "dom h' = dom h"
    by (rule ll_remove_tail_ok [OF l])
  then show "\<exists>s'. ll_step Pop_tail s = Some (fst p, s') \<and> ll_rep s' ps \<and> ll_fresh s' = ll_fresh s"
    by (intro exI [of _ "(l', h')"]) (simp add: lh ll_rep_def ll_fresh_dom)
next
  fix s assume "ll_rep s []"
  then show "ll_step Pop_head s = Some (NULL, s) \<and> ll_step Pop_tail s = Some (NULL, s)"
    by (cases s) (simp add: ll_rep_def ll_remove_empty)
qed

end
