(* ===== verification/LL_Properties.thy ===== *)
theory LL_Properties imports LL_Double begin

text \<open>The properties of the doubly linked list of \<open>HW2-skeleton\<close> and \<open>HW3-skeleton\<close>.\<close>

abbreviation empty_list :: ll_list where
  "empty_list \<equiv> \<lparr>list_head = NULL, list_tail = NULL\<rparr>"

text \<open>A list of the two data 7 and 8, at the addresses 100 and 200.\<close>

definition two_nodes :: heap where
  "two_nodes = [100 \<mapsto> \<lparr>node_data = 7, node_prev = NULL, node_next = 200\<rparr>,
     200 \<mapsto> \<lparr>node_data = 8, node_prev = 100, node_next = NULL\<rparr>]"

definition two_list :: ll_list where
  "two_list = \<lparr>list_head = 100, list_tail = 200\<rparr>"

lemma two_nodes_list: "list_at two_nodes two_list [100, 200] [7, 8]"
  by (simp add: list_at_def linked_def two_nodes_def two_list_def links_of_def data_at_def)

text \<open>
  C5: Every sequence of insertions and removals at either end of the list gives, node by
  node, the results of a double-ended queue, when \<open>malloc\<close> returns addresses that are not
  in use: the pointers never go wrong, no operation dereferences an invalid pointer, and a
  removal from an empty list returns NULL.
\<close>
theorem list_operations_refine_deque:
  assumes "ll_init (Some l0) = Some l" "distinct (new_nodes ops)"
    and "\<forall>a \<in> set (new_nodes ops). a \<noteq> NULL \<and> h a = None"
  shows "\<exists>s. run_seq ll_step ops (l, h) = Some (fst (deque_specs ops []), s) \<and>
    ll_rep s (snd (deque_specs ops []))"
proof -
  have "ll_rep (l, h) []" using assms(1) by (auto simp: ll_rep_def ll_init_def)
  moreover have "set (new_nodes ops) \<subseteq> ll_fresh (l, h)" using assms(3) by (auto simp: ll_fresh_def)
  ultimately show ?thesis using assms(2) by (rule ll.run_refines)
qed

theorem list_operations_refine_deque_witness:
  "\<exists>s. run_seq ll_step [Push_tail 100 7, Push_tail 200 8, Push_head 50 9, Pop_tail, Pop_head, Pop_tail, Pop_head]
      (empty_list, Map.empty) = Some ([100, 200, 50, 200, 50, 100, NULL], s) \<and> ll_rep s []"
proof -
  have "ll_init (Some empty_list) = Some empty_list" by (simp add: ll_init_def)
  from list_operations_refine_deque [OF this, of
      "[Push_tail 100 7, Push_tail 200 8, Push_head 50 9, Pop_tail, Pop_head, Pop_tail, Pop_head]" Map.empty]
  show ?thesis by simp
qed

text \<open>
  Inserting at the tail and removing from the head is first in, first out: after any
  number of insertions into an empty list, as many removals return the same nodes in the
  same order and leave the list empty. The condition variables queue their waiters this way.
\<close>
lemma list_is_fifo:
  assumes "list_at h l [] []" "distinct (map fst ps)"
    and "\<forall>a \<in> set (map fst ps). a \<noteq> NULL \<and> h a = None"
  shows "\<exists>s. run_seq ll_step (map (\<lambda>(a, d). Push_tail a d) ps @ replicate (length ps) Pop_head) (l, h) =
    Some (map fst ps @ map fst ps, s) \<and> ll_rep s []"
proof -
  have "ll_rep (l, h) []" using assms(1) by (simp add: ll_rep_def)
  moreover have "set (map fst ps) \<subseteq> ll_fresh (l, h)" using assms(3) by (auto simp: ll_fresh_def)
  ultimately show ?thesis using assms(2) by (rule ll.fifo)
qed

lemma list_is_fifo_example:
  "\<exists>s. run_seq ll_step [Push_tail 100 7, Push_tail 200 8, Pop_head, Pop_head] (empty_list, Map.empty) =
    Some ([100, 200, 100, 200], s) \<and> ll_rep s []"
  using list_is_fifo [of Map.empty empty_list "[(100, 7), (200, 8)]"]
  by (simp add: numeral_2_eq_2)

text \<open>
  A search returns the first node whose data passes its test, and NULL exactly when no
  data does; it terminates on every well-formed list and changes nothing. The three searches
  of the code differ in their test only.
\<close>
lemma searches_find_first:
  assumes "list_at h l as ds"
  shows "(\<exists>r. ll_search_predicate l predicate h = Some r \<and>
      ((r = NULL \<and> (\<forall>d \<in> set ds. predicate d \<noteq> 1)) \<or>
       (\<exists>i < length ds. r = as ! i \<and> r \<noteq> NULL \<and> predicate (ds ! i) = 1 \<and> (\<forall>j < i. predicate (ds ! j) \<noteq> 1)))) \<and>
    ll_search_comparison l data compare h = ll_search_predicate l (compare data) h \<and>
    ll_search l data h = ll_search_predicate l (\<lambda>d. if data = d then 1 else 0) h"
proof (intro conjI)
  from assms show "\<exists>r. ll_search_predicate l predicate h = Some r \<and>
      ((r = NULL \<and> (\<forall>d \<in> set ds. predicate d \<noteq> 1)) \<or>
       (\<exists>i < length ds. r = as ! i \<and> r \<noteq> NULL \<and> predicate (ds ! i) = 1 \<and> (\<forall>j < i. predicate (ds ! j) \<noteq> 1)))"
  proof (cases rule: ll_walk_cases [where test = "\<lambda>d. predicate d = 1"])
    case (found xs a ys dxs d dys)
    then show ?thesis
      by (intro exI [of _ a] conjI disjI2 exI [of _ "length xs"])
        (auto simp: ll_search_predicate_def nth_append)
  qed (auto simp: ll_search_predicate_def)
qed (simp_all add: ll_search_def ll_search_comparison_def ll_search_predicate_def)

lemma searches_find_first_example:
  "ll_search two_list 8 two_nodes = Some 200 \<and> ll_search_predicate two_list (\<lambda>d. 0) two_nodes = Some NULL"
proof -
  from searches_find_first [OF two_nodes_list, of "\<lambda>d. if 8 = d then 1 else 0" 8 "\<lambda>_ _. 0"]
  have "ll_search_predicate two_list (\<lambda>d. if 8 = d then 1 else 0) two_nodes = Some 200"
    by (auto simp: less_Suc_eq nth_Cons')
  moreover from searches_find_first [OF two_nodes_list, of "\<lambda>d. 0" 8 "\<lambda>_ _. 0"]
  have "ll_search_predicate two_list (\<lambda>d. 0) two_nodes = Some NULL" by auto
  ultimately show ?thesis
    using searches_find_first [OF two_nodes_list, of "\<lambda>_. 0" 8 "\<lambda>_ _. 0"] by auto
qed

text \<open>
  C28: Removing a datum that the list holds unlinks exactly the first node carrying it, keeps
  the other nodes in order and the rest of memory as it is (the node is not freed), and
  returns the datum.
\<close>
theorem remove_unlinks_first_match:
  assumes "list_at h l as ds" "data \<in> set ds"
  shows "\<exists>xs a ys dxs dys l' h'. as = xs @ a # ys \<and> ds = dxs @ data # dys \<and> length dxs = length xs \<and>
    data \<notin> set dxs \<and> ll_remove l data h = Some (data, l', h') \<and> list_at h' l' (xs @ ys) (dxs @ dys) \<and>
    (\<forall>b. b \<notin> set (xs @ ys) \<longrightarrow> h' b = h b)"
proof -
  from assms(1) show ?thesis
  proof (cases rule: ll_walk_cases [where test = "\<lambda>d. data = d"])
    case (found xs a ys dxs d dys)
    then have d: "d = data" and search: "ll_search l data h = Some a" by (simp_all add: ll_search_def)
    obtain l' h' where "ll_remove l data h = Some (data, l', h')" "list_at h' l' (xs @ ys) (dxs @ dys)"
      "\<And>b. b \<notin> set (xs @ ys) \<Longrightarrow> h' b = h b"
      by (rule ll_remove_found [OF assms(1) [unfolded found(1,2)] found(3) search]) (rule that)
    with found d show ?thesis by blast
  qed (use assms(2) in blast)
qed

theorem remove_unlinks_first_match_witness:
  "\<exists>l' h'. ll_remove two_list 7 two_nodes = Some (7, l', h') \<and> list_at h' l' [200] [8]"
  using remove_unlinks_first_match [OF two_nodes_list, of 7]
  by (auto simp: Cons_eq_append_conv)

text \<open>
  Removing a datum the list does not hold returns NULL and changes nothing; so does an
  insertion when \<open>malloc\<close> fails.
\<close>
lemma list_unchanged_on_failure:
  assumes "list_at h l as ds" "data \<notin> set ds"
  shows "ll_remove l data h = Some (NULL, l, h) \<and> ll_insert_head NULL d l h = Some (NULL, l, h) \<and>
    ll_insert_tail NULL d l h = Some (NULL, l, h)"
  using ll_remove_missing [OF assms] by (simp add: ll_insert_no_memory)

lemma list_unchanged_on_failure_example:
  "ll_remove two_list 9 two_nodes = Some (NULL, two_list, two_nodes)"
  using list_unchanged_on_failure [OF two_nodes_list, of 9 0] by simp

end
