(* ===== verification/Frame.thy ===== *)
theory Frame imports C_Prelude Allocator begin

text \<open>
  The physical frame allocator of \<open>HW3-skeleton/frame.c\<close>: a bitmap of 1024 frames and
  two counters. Single frames are handed out first-fit and accounted for; this theory
  also shows what requests for several frames do.
\<close>

abbreviation NUM_FRAMES :: "'a::numeral" where
  "NUM_FRAMES \<equiv> 1024"

record frame_state =
  frames_allocated :: u64
  frames_available :: u64
  frame_bitmap :: buf

section \<open>The code\<close>

definition frame_init :: "'a frame_state_scheme \<Rightarrow> 'a frame_state_scheme" where
  "frame_init s =
     s\<lparr>frames_allocated := 0, frames_available := NUM_FRAMES, frame_bitmap := memset (frame_bitmap s) 0 0 128\<rparr>"

text \<open>The bitmap has 128 bytes; an access behind them is undefined.\<close>
definition bit_set :: "u64 \<Rightarrow> 'a frame_state_scheme \<Rightarrow> 'a frame_state_scheme option" where
  "bit_set frame_number s =
     (let i = unat (frame_number div 8); k = unat (frame_number mod 8)
      in do {
        guard (i < 128);
        Some (s\<lparr>frame_bitmap := (frame_bitmap s)(i := frame_bitmap s i OR push_bit k 1)\<rparr>)
      })"

definition bit_unset :: "u64 \<Rightarrow> 'a frame_state_scheme \<Rightarrow> 'a frame_state_scheme option" where
  "bit_unset frame_number s =
     (let i = unat (frame_number div 8); k = unat (frame_number mod 8)
      in do {
        guard (i < 128);
        Some (s\<lparr>frame_bitmap := (frame_bitmap s)(i := frame_bitmap s i AND NOT (push_bit k 1))\<rparr>)
      })"

definition get_value :: "u64 \<Rightarrow> 'a frame_state_scheme \<Rightarrow> int option" where
  "get_value frame_number s =
     (let i = unat (frame_number div 8); k = unat (frame_number mod 8)
      in do {
        guard (i < 128);
        Some (uint (drop_bit k (frame_bitmap s i) AND 1))
      })"

text \<open>\<open>for(int j = 0; j < number_frames; j++) bit_set(i - number_frames + 1);\<close>\<close>
primrec bit_set_times :: "nat \<Rightarrow> u64 \<Rightarrow> 'a frame_state_scheme \<Rightarrow> 'a frame_state_scheme option" where
  "bit_set_times 0 frame_number s = Some s"
| "bit_set_times (Suc j) frame_number s = do { s \<leftarrow> bit_set frame_number s; bit_set_times j frame_number s }"

text \<open>The search loop, from frame \<open>i\<close> on, with the value of \<open>consecutive_counter\<close>.\<close>
function allocate_loop :: "nat \<Rightarrow> int \<Rightarrow> int \<Rightarrow> 'a frame_state_scheme \<Rightarrow> (int \<times> 'a frame_state_scheme) option" where
  "allocate_loop i consecutive_counter number_frames s =
     (if i < NUM_FRAMES then
        do {
          v \<leftarrow> get_value (of_nat i) s;
          (if v = 0 then
             if consecutive_counter + 1 = number_frames then
               do {
                 s \<leftarrow> bit_set_times (nat number_frames) (of_int (int i - number_frames + 1)) s;
                 Some (int i - number_frames + 1,
                   s\<lparr>frames_allocated := frames_allocated s + of_int number_frames,
                     frames_available := frames_available s - of_int number_frames\<rparr>)
               }
             else allocate_loop (Suc i) (consecutive_counter + 1) number_frames s
           else allocate_loop (Suc i) 0 number_frames s)
        }
      else Some (-1, s))"
  by pat_completeness auto
termination by (relation "measure (\<lambda>(i, c, n, s). NUM_FRAMES - i)") auto

declare allocate_loop.simps [simp del]

definition allocate_frame :: "int \<Rightarrow> 'a frame_state_scheme \<Rightarrow> (int \<times> 'a frame_state_scheme) option" where
  "allocate_frame number_frames s = allocate_loop 0 0 number_frames s"

primrec deallocate_loop :: "nat \<Rightarrow> u64 \<Rightarrow> 'a frame_state_scheme \<Rightarrow> 'a frame_state_scheme option" where
  "deallocate_loop 0 frame_number s = Some s"
| "deallocate_loop (Suc i) frame_number s =
     do {
       s \<leftarrow> bit_unset frame_number s;
       deallocate_loop i frame_number
         (s\<lparr>frames_allocated := frames_allocated s - 1, frames_available := frames_available s + 1\<rparr>)
     }"

definition deallocate_frame :: "u64 \<Rightarrow> int \<Rightarrow> 'a frame_state_scheme \<Rightarrow> (int \<times> 'a frame_state_scheme) option" where
  "deallocate_frame frame_number number_frames s =
     do { s \<leftarrow> deallocate_loop (nat number_frames) frame_number s; Some (-1, s) }"

section \<open>The set of used frames\<close>

definition frame_used :: "'a frame_state_scheme \<Rightarrow> nat \<Rightarrow> bool" where
  "frame_used s f \<longleftrightarrow> f < NUM_FRAMES \<and> bit (frame_bitmap s (f div 8)) (f mod 8)"

text \<open>The state with the bit of frame \<open>f\<close> set or cleared.\<close>
definition with_frame :: "bool \<Rightarrow> nat \<Rightarrow> 'a frame_state_scheme \<Rightarrow> 'a frame_state_scheme" where
  "with_frame b f s = s\<lparr>frame_bitmap := (frame_bitmap s)(f div 8 :=
     (if b then frame_bitmap s (f div 8) OR push_bit (f mod 8) 1
      else frame_bitmap s (f div 8) AND NOT (push_bit (f mod 8) 1)))\<rparr>"

lemma frame_used_less: "frame_used s f \<Longrightarrow> f < NUM_FRAMES"
  by (simp add: frame_used_def)

lemma frame_position:
  assumes "f < NUM_FRAMES"
  shows "unat ((of_nat f :: u64) div 8) = f div 8" "unat ((of_nat f :: u64) mod 8) = f mod 8" "f div 8 < 128"
proof -
  have "unat (of_nat f :: u64) = f" using assms by (intro unat_of_nat_u64) simp
  then show "unat ((of_nat f :: u64) div 8) = f div 8" "unat ((of_nat f :: u64) mod 8) = f mod 8"
    by (simp_all add: unat_div unat_mod)
  show "f div 8 < 128" using assms by (simp add: less_mult_imp_div_less)
qed

lemma bit_operations_ok:
  assumes "f < NUM_FRAMES"
  shows "bit_set (of_nat f) s = Some (with_frame True f s)"
    "bit_unset (of_nat f) s = Some (with_frame False f s)"
    "get_value (of_nat f) s = Some (if frame_used s f then 1 else 0)"
proof -
  note pos = frame_position [OF assms]
  show "bit_set (of_nat f) s = Some (with_frame True f s)" "bit_unset (of_nat f) s = Some (with_frame False f s)"
    using pos by (simp_all add: bit_set_def bit_unset_def with_frame_def Let_def)
  have "uint (drop_bit k w AND 1) = (if bit w k then 1 else 0)" for w :: u8 and k
    by (simp add: and_one_eq mod_2_eq_odd bit_iff_odd_drop_bit)
  then show "get_value (of_nat f) s = Some (if frame_used s f then 1 else 0)"
    using pos assms by (simp add: get_value_def frame_used_def Let_def)
qed

lemma frame_used_with_frame:
  assumes "f < NUM_FRAMES"
  shows "frame_used (with_frame b f s) = (frame_used s)(f := b)"
proof
  fix g
  have eq: "g = f \<longleftrightarrow> g div 8 = f div 8 \<and> g mod 8 = f mod 8" by (metis div_mod_decomp)
  show "frame_used (with_frame b f s) g = ((frame_used s)(f := b)) g"
  proof (cases "g div 8 = f div 8")
    case True
    with eq assms show ?thesis
      by (cases b) (auto simp: frame_used_def with_frame_def bit_simps)
  next
    case False
    with eq show ?thesis by (auto simp: frame_used_def with_frame_def)
  qed
qed

lemma with_frame_fields [simp]:
  "frames_allocated (with_frame b f s) = frames_allocated s"
  "frames_available (with_frame b f s) = frames_available s"
  "with_frame b f (with_frame b f s) = with_frame b f s"
  by (cases b; simp add: with_frame_def or.right_idem and.right_idem)+

lemma frame_used_counters [simp]:
  "frame_used (s\<lparr>frames_allocated := x\<rparr>) = frame_used s"
  "frame_used (s\<lparr>frames_available := y\<rparr>) = frame_used s"
  by (simp_all add: frame_used_def fun_eq_iff)

lemma bit_set_times_ok:
  assumes "f < NUM_FRAMES" "0 < n"
  shows "bit_set_times n (of_nat f) s = Some (with_frame True f s)"
  using assms(2)
proof (induction n arbitrary: s)
  case (Suc n)
  then show ?case
    by (cases n) (simp_all add: bit_operations_ok(1) [OF assms(1)])
qed simp

section \<open>Allocation\<close>

text \<open>The frames from \<open>f\<close> on that a request for \<open>n\<close> frames looks at are all free.\<close>
definition free_run :: "'a frame_state_scheme \<Rightarrow> nat \<Rightarrow> nat \<Rightarrow> bool" where
  "free_run s f n \<longleftrightarrow> f + n \<le> NUM_FRAMES \<and> (\<forall>g. f \<le> g \<and> g < f + n \<longrightarrow> \<not> frame_used s g)"

text \<open>The state a successful request for \<open>n\<close> frames at \<open>f\<close> leaves behind.\<close>
definition after_allocation :: "nat \<Rightarrow> nat \<Rightarrow> 'a frame_state_scheme \<Rightarrow> 'a frame_state_scheme" where
  "after_allocation f n s = (with_frame True f s)
     \<lparr>frames_allocated := frames_allocated s + of_nat n, frames_available := frames_available s - of_nat n\<rparr>"

lemma allocate_loop_cases:
  assumes "c < n" "c \<le> i" "i \<le> NUM_FRAMES"
    and "\<And>g. i - c \<le> g \<Longrightarrow> g < i \<Longrightarrow> \<not> frame_used s g"
    and "\<And>f. f + n \<le> i \<Longrightarrow> \<not> free_run s f n"
    and "c < i \<Longrightarrow> frame_used s (i - c - 1)"
  obtains (got) f where "allocate_loop i (int c) (int n) s = Some (int f, after_allocation f n s)"
      "free_run s f n" "\<And>g. g < f \<Longrightarrow> \<not> free_run s g n"
  | (none) "allocate_loop i (int c) (int n) s = Some (-1, s)" "\<And>g. \<not> free_run s g n"
  using assms
proof (induction "NUM_FRAMES - i" arbitrary: i c thesis)
  case 0
  then have i: "i = 1024" by simp
  then have "allocate_loop i (int c) (int n) s = Some (-1, s)"
    by (subst allocate_loop.simps) simp
  moreover have "\<not> free_run s g n" for g
    using "0.prems"(7) [of g] by (auto simp: free_run_def i)
  ultimately show ?case by (rule "0.prems"(2))
next
  case (Suc m)
  then have i: "i < 1024" by simp
  note get = bit_operations_ok(3) [OF i, of s]
  show ?case
  proof (cases "frame_used s i")
    case True
    then have step: "allocate_loop i (int c) (int n) s = allocate_loop (Suc i) (int 0) (int n) s"
      by (subst allocate_loop.simps) (simp add: i get)
    show ?thesis
    proof (rule Suc.hyps(1) [of "Suc i" 0])
      show "\<not> free_run s f n" if "f + n \<le> Suc i" for f
        using that True Suc.prems(7) [of f] Suc.prems(3) by (cases "f + n = Suc i") (auto simp: free_run_def intro!: exI [of _ i])
    qed (use Suc.hyps(2) Suc.prems(1-3) i True step in auto)
  next
    case False
    show ?thesis
    proof (cases "Suc c = n")
      case True
      let ?f = "i - c"
      have run: "free_run s ?f n"
        unfolding free_run_def
      proof (intro conjI allI impI)
        fix g assume "?f \<le> g \<and> g < ?f + n"
        with True Suc.prems(4) have "?f \<le> g" "g < i \<or> g = i" by auto
        with Suc.prems(6) False show "\<not> frame_used s g" by blast
      qed (use True Suc.prems(4) i in simp)
      have first: "\<not> free_run s g n" if "g < ?f" for g
      proof
        assume run: "free_run s g n"
        with Suc.prems(7) [of g] have "i < g + n" by (meson not_le)
        with that True Suc.prems(4) have "g \<le> i - c - 1" "i - c - 1 < g + n" "c < i" by auto
        with run Suc.prems(8) show False by (auto simp: free_run_def)
      qed
      have f: "int i - int n + 1 = int ?f" and c1: "int c + 1 = int n" using True Suc.prems(4) by auto
      have marked: "bit_set_times n (of_nat ?f) s = Some (with_frame True ?f s)"
        using bit_set_times_ok [of ?f n s] i True by simp
      have "allocate_loop i (int c) (int n) s = Some (int ?f, after_allocation ?f n s)"
        by (subst allocate_loop.simps)
          (simp add: i get \<open>\<not> frame_used s i\<close> c1 f marked after_allocation_def)
      with run first show ?thesis by (intro Suc.prems(1)) auto
    next
      case False
      note more = this
      have step: "allocate_loop i (int c) (int n) s = allocate_loop (Suc i) (int (Suc c)) (int n) s"
        using more by (subst allocate_loop.simps) (simp add: i get \<open>\<not> frame_used s i\<close> add.commute)
      show ?thesis
      proof (rule Suc.hyps(1) [of "Suc i" "Suc c"])
        show "\<not> frame_used s g" if "Suc i - Suc c \<le> g" "g < Suc i" for g
          using that Suc.prems(6) [of g] \<open>\<not> frame_used s i\<close> by (cases "g = i") auto
        show "\<not> free_run s f n" if "f + n \<le> Suc i" for f
        proof (cases "f + n \<le> i")
          case False
          with that have fi: "f + n = Suc i" by simp
          with more Suc.prems(3,4) have "f \<le> i - c - 1" "i - c - 1 < f + n" "c < i" by auto
          with Suc.prems(8) show ?thesis by (auto simp: free_run_def)
        qed (rule Suc.prems(7))
      qed (use Suc.hyps(2) Suc.prems(1-5,8) more i step in auto)
    qed
  qed
qed

text \<open>
  A request for \<open>n\<close> frames returns the first run of \<open>n\<close> free frames, but marks only its
  first frame as used.
\<close>

lemma allocate_frame_cases:
  assumes "0 < n"
  obtains (got) f where "allocate_frame (int n) s = Some (int f, after_allocation f n s)"
      "free_run s f n" "\<And>g. g < f \<Longrightarrow> \<not> free_run s g n"
  | (none) "allocate_frame (int n) s = Some (-1, s)" "\<And>g. \<not> free_run s g n"
  unfolding allocate_frame_def
  by (rule allocate_loop_cases [of 0 n 0 s, simplified of_nat_0]) (use assms that in \<open>auto simp: free_run_def\<close>)

lemma allocate_one_cases:
  obtains (got) f where "allocate_frame 1 s = Some (int f, after_allocation f 1 s)" "f < NUM_FRAMES"
      "\<not> frame_used s f" "\<And>g. g < f \<Longrightarrow> frame_used s g"
  | (none) "allocate_frame 1 s = Some (-1, s)" "\<And>g. g < NUM_FRAMES \<Longrightarrow> frame_used s g"
proof -
  have run: "free_run s g 1 \<longleftrightarrow> g < 1024 \<and> \<not> frame_used s g" for g
    by (auto simp: free_run_def less_Suc_eq_le le_antisym)
  show thesis
  proof (rule allocate_frame_cases [of 1 s, simplified of_nat_1])
    fix f assume "allocate_frame 1 s = Some (int f, after_allocation f 1 s)" "free_run s f 1"
      "\<And>g. g < f \<Longrightarrow> \<not> free_run s g 1"
    with run show thesis by (intro got [of f]) auto
  next
    assume "allocate_frame 1 s = Some (-1, s)" "\<And>g. \<not> free_run s g 1"
    with run show thesis by (intro none) auto
  qed simp
qed

lemma frame_used_after_allocation:
  assumes "f < NUM_FRAMES"
  shows "frame_used (after_allocation f n s) = (frame_used s)(f := True)"
  using frame_used_with_frame [OF assms, of True s] by (simp add: after_allocation_def)

text \<open>The two counters agree with the bitmap.\<close>
definition frame_inv :: "'a frame_state_scheme \<Rightarrow> bool" where
  "frame_inv s \<longleftrightarrow> unat (frames_allocated s) = card {f. frame_used s f} \<and>
     frames_allocated s + frames_available s = NUM_FRAMES"

lemma finite_frame_used [simp]: "finite {f. frame_used s f}"
  by (rule finite_subset [of _ "{..<NUM_FRAMES}"]) (auto dest: frame_used_less)

lemma card_frame_used: "card {f. frame_used s f} \<le> NUM_FRAMES"
  using card_mono [of "{..<NUM_FRAMES}" "{f. frame_used s f}"] by (auto dest: frame_used_less)

lemma unat_suc_small: "unat w < 2 ^ 63 \<Longrightarrow> unat (w + 1) = Suc (unat w)" for w :: u64
  by (simp add: unat_word_ariths)

lemma frame_inv_allocate:
  assumes "frame_inv s" "f < NUM_FRAMES" "\<not> frame_used s f"
  shows "frame_inv (after_allocation f 1 s)"
proof -
  have small: "unat (frames_allocated s) < 2 ^ 63"
    using assms(1) card_frame_used [of s] by (simp add: frame_inv_def)
  have "{g. frame_used (after_allocation f 1 s) g} = insert f {g. frame_used s g}"
    by (auto simp: frame_used_after_allocation [OF assms(2)])
  then have "card {g. frame_used (after_allocation f 1 s) g} = Suc (card {g. frame_used s g})"
    using assms(3) by simp
  with assms(1) unat_suc_small [OF small] show ?thesis
    by (simp add: frame_inv_def after_allocation_def)
qed

interpretation frames: unit_allocator frame_inv frame_used "\<lambda>_. 0" NUM_FRAMES "allocate_frame 1"
proof unfold_locales
  fix s :: "'a frame_state_scheme" and b
  assume inv: "frame_inv s" and b: "b < NUM_FRAMES" "\<not> frame_used s b"
  show "\<exists>b' s'. b' \<le> b \<and> allocate_frame 1 s = Some (int b', s') \<and> 0 \<le> b' \<and> \<not> frame_used s b' \<and>
      frame_inv s' \<and> frame_used s' = (frame_used s)(b' := True) \<and> (0 :: nat) = 0"
  proof (cases rule: allocate_one_cases [of s])
    case (got f)
    then have f: "f < 1024" "\<not> frame_used s f" "f \<le> b" using b by (auto simp: not_less [symmetric])
    with got(1) frame_inv_allocate [OF inv f(1,2)] frame_used_after_allocation [OF f(1)]
    show ?thesis by (intro exI [of _ f] exI [of _ "after_allocation f 1 s"]) simp
  next
    case none
    with b show ?thesis by simp
  qed
next
  fix s :: "'a frame_state_scheme"
  assume "frame_inv s" and full: "\<forall>b. 0 \<le> b \<and> b < NUM_FRAMES \<longrightarrow> frame_used s b"
  show "allocate_frame 1 s = Some (-1, s)"
  proof (cases rule: allocate_one_cases [of s])
    case (got f)
    with full show ?thesis by blast
  qed simp
qed

section \<open>Deallocation\<close>

text \<open>The state after \<open>n\<close> frames were deallocated at \<open>f\<close>: the bit of \<open>f\<close> alone is cleared.\<close>
definition after_deallocation :: "nat \<Rightarrow> nat \<Rightarrow> 'a frame_state_scheme \<Rightarrow> 'a frame_state_scheme" where
  "after_deallocation f n s = (if n = 0 then s else with_frame False f s)
     \<lparr>frames_allocated := frames_allocated s - of_nat n, frames_available := frames_available s + of_nat n\<rparr>"

lemma deallocate_loop_eq:
  assumes "f < NUM_FRAMES"
  shows "deallocate_loop n (of_nat f) s = Some (after_deallocation f n s)"
proof (induction n arbitrary: s)
  case 0
  show ?case by (simp add: after_deallocation_def)
next
  case (Suc n)
  have "with_frame False f (with_frame False f s\<lparr>frames_allocated := x, frames_available := y\<rparr>) =
      with_frame False f s\<lparr>frames_allocated := x, frames_available := y\<rparr>" for x y
    by (simp add: with_frame_def and.right_idem)
  then show ?case
    by (simp add: bit_operations_ok(2) [OF assms] Suc after_deallocation_def algebra_simps)
qed

lemma deallocate_frame_eq:
  "f < NUM_FRAMES \<Longrightarrow> deallocate_frame (of_nat f) (int n) s = Some (-1, after_deallocation f n s)"
  by (simp add: deallocate_frame_def deallocate_loop_eq)

end
