(* ===== verification/Frame_Properties.thy ===== *)
theory Frame_Properties imports Frame begin

text \<open>The properties of the physical frame allocator of \<open>HW3-skeleton/frame.c\<close>.\<close>

definition new_frames :: frame_state where
  "new_frames = frame_init \<lparr>frames_allocated = 0, frames_available = 0, frame_bitmap = \<lambda>_. 0\<rparr>"

lemma frame_init_used: "\<not> frame_used (frame_init s) f"
  by (simp add: frame_used_def frame_init_def less_mult_imp_div_less)

lemma frame_init_inv: "frame_inv (frame_init s)"
proof -
  have "{f. frame_used (frame_init s) f} = {}" by (simp add: frame_init_used)
  then show ?thesis unfolding frame_inv_def by (simp add: frame_init_def)
qed

lemma new_frames: "frame_inv new_frames" "\<not> frame_used new_frames f"
  by (simp_all add: new_frames_def frame_init_inv frame_init_used)

lemma new_frames_allocate:
  assumes "0 < n" "n \<le> NUM_FRAMES"
  shows "allocate_frame (int n) new_frames = Some (0, after_allocation 0 n new_frames)"
proof -
  have run: "free_run new_frames 0 n" using assms(2) by (simp add: free_run_def new_frames)
  from assms(1) show ?thesis
  proof (cases rule: allocate_frame_cases [of n new_frames])
    case (got f)
    with run have "f = 0" by blast
    with got(1) show ?thesis by simp
  qed (use run in blast)
qed

lemma new_frames_used: "frame_used (after_allocation 0 n new_frames) = (\<lambda>f. f = 0)"
  by (auto simp: frame_used_after_allocation fun_eq_iff new_frames)

text \<open>
  C19: A request for one frame returns the lowest free frame, marks exactly that frame, and
  keeps the two counters equal to the number of used and free frames; when all 1024 frames
  are used it returns -1 and changes nothing.
\<close>
theorem single_frames_first_fit:
  assumes "frame_inv s"
  shows "(\<exists>f s'. allocate_frame 1 s = Some (int f, s') \<and> f < NUM_FRAMES \<and> \<not> frame_used s f \<and>
      (\<forall>g < f. frame_used s g) \<and> frame_used s' = (frame_used s)(f := True) \<and> frame_inv s') \<or>
    (allocate_frame 1 s = Some (-1, s) \<and> (\<forall>g < NUM_FRAMES. frame_used s g))"
  using assms by (cases rule: frames.alloc_cases) blast+

theorem single_frames_first_fit_witness:
  "\<exists>s'. allocate_frame 1 new_frames = Some (0, s') \<and> frame_used s' = (\<lambda>f. f = 0) \<and> frame_inv s'"
proof -
  from single_frames_first_fit [OF new_frames(1)] new_frames_allocate [of 1] obtain f s' where
    f: "allocate_frame 1 new_frames = Some (int f, s')" "f = 0"
      "frame_used s' = (frame_used new_frames)(f := True)" "frame_inv s'" by auto
  with new_frames(2) show ?thesis by (auto simp: fun_eq_iff)
qed

text \<open>
  Two requests for a single frame never return the same frame, whatever happened before.
\<close>
lemma single_frames_distinct:
  assumes "frame_inv s" "allocate_frame 1 s = Some (f, s1)" "allocate_frame 1 s1 = Some (g, s2)"
    and "f \<noteq> -1" "g \<noteq> -1"
  shows "f \<noteq> g"
  by (rule frames.alloc_twice_distinct [OF assms])

lemma single_frames_distinct_example:
  "\<exists>f g s1 s2. allocate_frame 1 new_frames = Some (f, s1) \<and> allocate_frame 1 s1 = Some (g, s2) \<and> f \<noteq> g"
proof -
  have s1: "allocate_frame 1 new_frames = Some (0, after_allocation 0 1 new_frames)"
    "frame_inv (after_allocation 0 1 new_frames)"
    using new_frames_allocate [of 1] frame_inv_allocate [OF new_frames(1), of 0] new_frames(2) by simp_all
  obtain g s2 where s2: "allocate_frame 1 (after_allocation 0 1 new_frames) = Some (int g, s2)"
    using s1(2) by (cases rule: frames.alloc_cases)
      (use new_frames_used [of 1] in \<open>auto dest: meta_spec [where x = 5]\<close>)
  have "0 \<noteq> int g" by (rule single_frames_distinct [OF new_frames(1) s1(1) s2]) simp_all
  with s1(1) s2 show ?thesis by blast
qed

text \<open>
  A request for several frames returns the first run of that many free frames, or -1 when
  there is none, but marks only the first frame of the run, while the counters move by
  the whole number of frames.
\<close>
lemma multi_frame_request:
  assumes "0 < n"
  shows "(\<exists>f s'. allocate_frame (int n) s = Some (int f, s') \<and> free_run s f n \<and> (\<forall>g < f. \<not> free_run s g n) \<and>
      frame_used s' = (frame_used s)(f := True) \<and> frames_allocated s' = frames_allocated s + of_nat n \<and>
      frames_available s' = frames_available s - of_nat n) \<or>
    (allocate_frame (int n) s = Some (-1, s) \<and> (\<forall>g. \<not> free_run s g n))"
  using assms
proof (cases rule: allocate_frame_cases [of n s])
  case (got f)
  then have "f < 1024" using assms by (simp add: free_run_def)
  with got show ?thesis
    by (intro disjI1 exI [of _ f] exI [of _ "after_allocation f n s"])
      (auto simp: frame_used_after_allocation, auto simp: after_allocation_def)
qed auto

lemma multi_frame_request_example:
  "\<exists>s'. allocate_frame 3 new_frames = Some (0, s') \<and> frame_used s' = (\<lambda>f. f = 0) \<and> frames_allocated s' = 3"
proof -
  from multi_frame_request [of 3 new_frames] new_frames_allocate [of 3] obtain s' where
    f: "allocate_frame 3 new_frames = Some (0, s')" "frame_used s' = (frame_used new_frames)(0 := True)"
      "frames_allocated s' = frames_allocated new_frames + 3"
    by auto
  with new_frames(2) show ?thesis
    by (auto simp: fun_eq_iff) (simp add: new_frames_def frame_init_def)
qed

text \<open>
  Consequently two requests for \<open>n \<ge> 2\<close> frames in a row overlap: when the frame behind
  the first run is free, the second request returns the second frame of the first run.
\<close>
lemma multi_frame_requests_overlap:
  assumes "2 \<le> n" "allocate_frame (int n) s = Some (int f, s1)" "f + n < NUM_FRAMES"
    and "\<not> frame_used s (f + n)"
  shows "\<exists>s2. allocate_frame (int n) s1 = Some (int (Suc f), s2)"
proof -
  have n: "0 < n" using assms(1) by simp
  from n have first: "s1 = after_allocation f n s \<and> free_run s f n \<and> (\<forall>g < f. \<not> free_run s g n)"
    by (cases rule: allocate_frame_cases [of n s]) (use assms(2) in auto)
  then have used: "frame_used s1 = (frame_used s)(f := True)"
    using assms(3) by (simp add: frame_used_after_allocation)
  have run: "free_run s1 (Suc f) n"
    unfolding free_run_def used
  proof (intro conjI allI impI)
    fix g assume "Suc f \<le> g \<and> g < Suc f + n"
    with first assms(4) show "\<not> ((frame_used s)(f := True)) g"
      by (cases "g = f + n") (auto simp: free_run_def)
  qed (use assms(3) in simp)
  have before: "\<not> free_run s1 g n" if "g \<le> f" for g
  proof (cases "g = f")
    case True
    with n used show ?thesis by (auto simp: free_run_def intro!: exI [of _ f])
  next
    case False
    with that first have "\<not> free_run s g n" by simp
    then show ?thesis by (auto simp: free_run_def used)
  qed
  from n show ?thesis
  proof (cases rule: allocate_frame_cases [of n s1])
    case (got g)
    with run before have "g = Suc f" by (metis not_less_eq_eq le_antisym not_less)
    with got(1) show ?thesis by blast
  qed (use run in blast)
qed

lemma multi_frame_requests_overlap_example:
  "\<exists>s1 s2. allocate_frame 2 new_frames = Some (0, s1) \<and> allocate_frame 2 s1 = Some (1, s2)"
proof -
  obtain s1 where s1: "allocate_frame 2 new_frames = Some (0, s1)"
    using new_frames_allocate [of 2] by simp
  have "\<exists>s2. allocate_frame (int 2) s1 = Some (int (Suc 0), s2)"
    by (rule multi_frame_requests_overlap [of 2 new_frames 0 s1]) (use s1 new_frames(2) in simp_all)
  with s1 show ?thesis by auto
qed

text \<open>
  C29: Deallocating one frame clears its bit and moves the counters back by one, so that it
  undoes the allocation of that frame; the result is -1 in every case, where the header
  promises the number of deallocated frames.
\<close>
theorem deallocation_undoes_allocation:
  assumes "frame_inv s" "allocate_frame 1 s = Some (int f, s1)"
  shows "\<exists>s2. deallocate_frame (of_nat f) 1 s1 = Some (-1, s2) \<and> frame_used s2 = frame_used s \<and>
    frames_allocated s2 = frames_allocated s \<and> frames_available s2 = frames_available s"
proof -
  have f: "f < 1024" "\<not> frame_used s f" "s1 = after_allocation f 1 s"
    by (cases rule: allocate_one_cases [of s]; use assms(2) in simp)+
  let ?s2 = "after_deallocation f 1 s1"
  have "frame_used ?s2 = (frame_used s1)(f := False)"
    using frame_used_with_frame [OF f(1), of False s1] by (simp add: after_deallocation_def)
  also have "\<dots> = frame_used s"
    using f(2) unfolding f(3) frame_used_after_allocation [OF f(1)] by (simp add: fun_upd_idem)
  finally have "frame_used ?s2 = frame_used s" .
  moreover have "deallocate_frame (of_nat f) 1 s1 = Some (-1, ?s2)"
    using deallocate_frame_eq [OF f(1), of 1 s1] by simp
  ultimately show ?thesis
    by (intro exI [of _ ?s2]) (simp add: after_deallocation_def f(3) after_allocation_def)
qed

theorem deallocation_undoes_allocation_witness:
  "\<exists>s1 s2. allocate_frame 1 new_frames = Some (0, s1) \<and> deallocate_frame 0 1 s1 = Some (-1, s2) \<and>
    frame_used s2 = frame_used new_frames"
proof -
  obtain s1 where s1: "allocate_frame 1 new_frames = Some (int 0, s1)"
    using new_frames_allocate [of 1] by simp
  from deallocation_undoes_allocation [OF new_frames(1) s1] s1 show ?thesis by auto
qed

end
