(* ===== verification/Sockets.thy ===== *)
theory Sockets imports Links begin

text \<open>
  What the web servers of \<open>HW1-skeleton\<close> use of the operating system and the C library:
  reading and writing sockets in pieces, closing them, and reading files through streams.
  The scripts \<open>reads\<close> and \<open>write_limits\<close> say, per descriptor, how the next calls will
  behave, so that short reads, short writes and errors can all be expressed. The functions
  of \<open>libWildcatNetworking\<close> are not part of the sources; they are the fields of \<open>lib\<close>.
\<close>

type_synonym bytes = "u8 list"

datatype signal = SIGCHLD | SIGPIPE | SIGTERM

text \<open>What a signal does: the default, nothing, or a call of a handler, given by its name.\<close>
datatype disposition = SIG_DFL | SIG_IGN | Calls string

text \<open>What the servers print, with the arguments of the format.\<close>
datatype message =
    Usage_server_port
  | Error_creating_server
  | Perror_sigaction
  | New_connection_from bytes int
  | Finishing_program_cleanly u64

record io_state =
  reads :: "int \<Rightarrow> bytes option list"
  write_limits :: "int \<Rightarrow> int list"
  sent :: "int \<Rightarrow> bytes"
  closed :: "int list"
  files :: "bytes \<rightharpoonup> bool \<times> bytes"
  streams :: "ptr \<rightharpoonup> bytes"
  next_stream :: ptr
  operations_completed :: u64
  nonblocking :: "int list"
  dispositions :: "signal \<Rightarrow> disposition"
  messages :: "message list"

record lib =
  header_complete :: "bytes \<Rightarrow> bool"
  get_filename :: "bytes \<Rightarrow> int \<times> bytes \<times> bytes"
  get_200 :: "bytes \<Rightarrow> bytes \<Rightarrow> int \<Rightarrow> bytes"
  get_403 :: "bytes \<Rightarrow> bytes \<Rightarrow> bytes"
  get_404 :: "bytes \<Rightarrow> bytes \<Rightarrow> bytes"
  get_peer_information :: "int \<Rightarrow> bytes \<times> int"

section \<open>System calls\<close>

text \<open>
  \<open>read\<close>: the next chunk of the script is delivered as far as it fits, \<open>None\<close> is an
  error, and an empty chunk or the end of the script is the end of the stream.
\<close>
definition sys_read :: "int \<Rightarrow> nat \<Rightarrow> io_state \<Rightarrow> int \<times> bytes \<times> io_state" where
  "sys_read fd n w =
     (if fd < 0 then (-1, [], w)
      else case reads w fd of
        [] \<Rightarrow> (0, [], w)
      | None # cs \<Rightarrow> (-1, [], w\<lparr>reads := (reads w)(fd := cs)\<rparr>)
      | Some bs # cs \<Rightarrow>
          (int (length (take n bs)), take n bs,
           w\<lparr>reads := (reads w)(fd := (if length bs \<le> n then cs else Some (drop n bs) # cs))\<rparr>))"

text \<open>\<open>write\<close>: at most the next limit of the script is taken; a negative limit is an error.\<close>
definition sys_write :: "int \<Rightarrow> bytes \<Rightarrow> io_state \<Rightarrow> int \<times> io_state" where
  "sys_write fd bs w =
     (if fd < 0 then (-1, w)
      else case write_limits w fd of
        [] \<Rightarrow> (int (length bs), w\<lparr>sent := (sent w)(fd := sent w fd @ bs)\<rparr>)
      | l # ls \<Rightarrow>
          let w = w\<lparr>write_limits := (write_limits w)(fd := ls)\<rparr>
          in if l < 0 then (-1, w)
             else (int (length (take (nat l) bs)), w\<lparr>sent := (sent w)(fd := sent w fd @ take (nat l) bs)\<rparr>))"

definition sys_close :: "int \<Rightarrow> io_state \<Rightarrow> io_state" where
  "sys_close fd w = w\<lparr>closed := closed w @ [fd]\<rparr>"

definition sys_access :: "bytes \<Rightarrow> io_state \<Rightarrow> int" where
  "sys_access filename w = (if files w filename = None then -1 else 0)"

text \<open>\<open>fopen\<close> for reading: a fresh stream over the contents, or NULL.\<close>
definition sys_fopen :: "bytes \<Rightarrow> io_state \<Rightarrow> ptr \<times> io_state" where
  "sys_fopen filename w =
     (case files w filename of
        Some (True, data) \<Rightarrow>
          (Suc (next_stream w),
           w\<lparr>streams := (streams w)(Suc (next_stream w) \<mapsto> data), next_stream := Suc (next_stream w)\<rparr>)
      | _ \<Rightarrow> (NULL, w))"

text \<open>\<open>fread\<close> of \<open>n\<close> bytes; using a stream that is not open is undefined.\<close>
definition sys_fread :: "ptr \<Rightarrow> nat \<Rightarrow> io_state \<Rightarrow> (bytes \<times> io_state) option" where
  "sys_fread f n w =
     (case streams w f of
        None \<Rightarrow> None
      | Some data \<Rightarrow> Some (take n data, w\<lparr>streams := (streams w)(f \<mapsto> drop n data)\<rparr>))"

definition sys_fclose :: "ptr \<Rightarrow> io_state \<Rightarrow> io_state option" where
  "sys_fclose f w = (case streams w f of None \<Rightarrow> None | Some _ \<Rightarrow> Some (w\<lparr>streams := (streams w)(f := None)\<rparr>))"

definition print :: "message \<Rightarrow> io_state \<Rightarrow> io_state" where
  "print m w = w\<lparr>messages := messages w @ [m]\<rparr>"

text \<open>
  The sets of descriptors of \<open>select\<close>. POSIX leaves \<open>FD_SET\<close> and \<open>FD_ISSET\<close> undefined for a
  descriptor that is negative or not below \<open>FD_SETSIZE\<close>.
\<close>
type_synonym fd_set = "int set"

abbreviation (input) FD_SETSIZE :: int where "FD_SETSIZE \<equiv> 1024"

definition FD_SET :: "int \<Rightarrow> fd_set \<Rightarrow> fd_set option" where
  "FD_SET fd fds = (if 0 \<le> fd \<and> fd < FD_SETSIZE then Some (insert fd fds) else None)"

definition FD_ISSET :: "int \<Rightarrow> fd_set \<Rightarrow> bool option" where
  "FD_ISSET fd fds = (if 0 \<le> fd \<and> fd < FD_SETSIZE then Some (fd \<in> fds) else None)"

section \<open>Buffers\<close>

definition store_bytes :: "buf \<Rightarrow> nat \<Rightarrow> bytes \<Rightarrow> buf" where
  "store_bytes b off bs = (\<lambda>i. if off \<le> i \<and> i < off + length bs then bs ! (i - off) else b i)"

definition fetch_bytes :: "buf \<Rightarrow> nat \<Rightarrow> nat \<Rightarrow> bytes" where
  "fetch_bytes b off n = map (\<lambda>i. b (off + i)) [0..<n]"

lemma length_fetch_bytes [simp]: "length (fetch_bytes b off n) = n"
  by (simp add: fetch_bytes_def)

lemma fetch_store [simp]: "fetch_bytes (store_bytes b off bs) off (length bs) = bs"
  by (rule nth_equalityI) (simp_all add: fetch_bytes_def store_bytes_def)

lemma fetch_store_append:
  "fetch_bytes (store_bytes b n bs) 0 (n + length bs) = fetch_bytes b 0 n @ bs"
  by (rule nth_equalityI) (simp_all add: fetch_bytes_def store_bytes_def nth_append)

lemma fetch_split:
  assumes "k \<le> n"
  shows "fetch_bytes b off n = fetch_bytes b off k @ fetch_bytes b (off + k) (n - k)"
  by (rule nth_equalityI) (use assms in \<open>auto simp: fetch_bytes_def nth_append diff_less_mono\<close>)

lemma take_fetch [simp]: "take k (fetch_bytes b off n) = fetch_bytes b off (min k n)"
  by (rule nth_equalityI) (simp_all add: fetch_bytes_def)

lemma fetch_0 [simp]: "fetch_bytes b off 0 = []"
  by (simp add: fetch_bytes_def)

text \<open>A C string: the bytes in front of the first NUL.\<close>
definition cstring :: "bytes \<Rightarrow> bytes" where
  "cstring bs = takeWhile (\<lambda>b. b \<noteq> 0) bs"

section \<open>A descriptor that accepts data\<close>

text \<open>No write on the descriptor fails or is empty.\<close>
definition willing :: "io_state \<Rightarrow> int \<Rightarrow> bool" where
  "willing w fd \<longleftrightarrow> 0 \<le> fd \<and> (\<forall>l \<in> set (write_limits w fd). 0 < l)"

text \<open>\<open>w'\<close> is \<open>w\<close> after \<open>bs\<close> went out on \<open>fd\<close>; nothing else is visible.\<close>
definition sent_on :: "io_state \<Rightarrow> int \<Rightarrow> bytes \<Rightarrow> io_state \<Rightarrow> bool" where
  "sent_on w fd bs w' \<longleftrightarrow> (\<exists>ls. w' = w\<lparr>write_limits := (write_limits w)(fd := ls),
     sent := (sent w)(fd := sent w fd @ bs)\<rparr> \<and> set ls \<subseteq> set (write_limits w fd))"

lemma sent_on_refl: "sent_on w fd [] w"
  unfolding sent_on_def by (rule exI [of _ "write_limits w fd"]) simp

lemma sent_on_trans: "sent_on w fd xs w1 \<Longrightarrow> sent_on w1 fd ys w2 \<Longrightarrow> sent_on w fd (xs @ ys) w2"
  unfolding sent_on_def by force

lemma sent_on_willing: "sent_on w fd bs w' \<Longrightarrow> willing w fd \<Longrightarrow> willing w' fd"
  unfolding sent_on_def willing_def by auto

lemma sent_on_fields:
  assumes "sent_on w fd bs w'"
  shows "sent w' = (sent w)(fd := sent w fd @ bs)" "streams w' = streams w" "closed w' = closed w"
    "files w' = files w" "reads w' = reads w" "next_stream w' = next_stream w"
    "operations_completed w' = operations_completed w"
  using assms by (auto simp: sent_on_def)

text \<open>A write of a non-empty buffer makes progress.\<close>

lemma sys_write_progress:
  assumes "willing w fd" "bs \<noteq> []"
  obtains k w' where "sys_write fd bs w = (int k, w')" "0 < k" "k \<le> length bs" "sent_on w fd (take k bs) w'"
proof (cases "write_limits w fd")
  case Nil
  let ?w = "w\<lparr>sent := (sent w)(fd := sent w fd @ bs)\<rparr>"
  from Nil have "?w = w\<lparr>write_limits := (write_limits w)(fd := []), sent := (sent w)(fd := sent w fd @ bs)\<rparr>"
    by (cases w) (simp add: fun_upd_idem)
  then have "sent_on w fd (take (length bs) bs) ?w"
    unfolding sent_on_def by (intro exI [of _ "[]"]) simp
  then show thesis
    using Nil assms by (intro that [of "length bs" ?w]) (simp_all add: sys_write_def willing_def)
next
  case (Cons l ls)
  with assms(1) have l: "0 \<le> fd" "0 < l" by (auto simp: willing_def)
  let ?w = "w\<lparr>write_limits := (write_limits w)(fd := ls), sent := (sent w)(fd := sent w fd @ take (nat l) bs)\<rparr>"
  have "sys_write fd bs w = (int (min (length bs) (nat l)), ?w)"
    using Cons l by (simp add: sys_write_def Let_def)
  moreover have "sent_on w fd (take (min (length bs) (nat l)) bs) ?w"
    unfolding sent_on_def using Cons by (intro exI [of _ ls]) (auto simp: min_def)
  ultimately show thesis
    using l assms(2) by (intro that) auto
qed

end
