(* ===== verification/Client.thy ===== *)
theory Client imports Sockets begin

text \<open>
  One connection of the web servers of \<open>HW1-skeleton\<close>: the functions of
  \<open>clients_common.c\<close> that serve a request in one go, and the two handlers of
  \<open>clients_statemachine.c\<close> that do one system call at a time. A function that changes
  \<open>*client\<close> returns the new client. \<open>None\<close> is undefined behaviour or a loop that does
  not end.
\<close>

abbreviation (input) E_RECV_REQUEST :: int where "E_RECV_REQUEST \<equiv> 1"
abbreviation (input) E_SEND_REPLY :: int where "E_SEND_REPLY \<equiv> 2"
abbreviation (input) STATUS_OK :: int where "STATUS_OK \<equiv> 0"
abbreviation (input) STATUS_BAD :: int where "STATUS_BAD \<equiv> 1"
abbreviation (input) STATUS_403 :: int where "STATUS_403 \<equiv> 128"
abbreviation (input) STATUS_404 :: int where "STATUS_404 \<equiv> 129"
abbreviation (input) BUFFER_SIZE :: "'a::numeral" where "BUFFER_SIZE \<equiv> 4096"

record client =
  socket :: int
  client_state :: int
  client_file :: ptr
  nread :: int
  nwritten :: int
  ntowrite :: int
  client_buffer :: buf
  client_status :: int
  client_prev :: ptr
  client_next :: ptr

text \<open>\<open>junk\<close> is what \<open>malloc\<close> left in the character buffer.\<close>
definition make_client :: "buf \<Rightarrow> int \<Rightarrow> client" where
  "make_client junk sock =
     \<lparr>socket = sock, client_state = E_RECV_REQUEST, client_file = NULL, nread = 0, nwritten = 0,
      ntowrite = 0, client_buffer = junk, client_status = STATUS_OK, client_prev = NULL, client_next = NULL\<rparr>"

definition finish_client :: "client \<Rightarrow> io_state \<Rightarrow> client \<times> io_state" where
  "finish_client c w = (c\<lparr>socket := -1\<rparr>, sys_close (socket c) w)"

text \<open>The error exit of the functions below: bad status, closed socket.\<close>
definition fail_client :: "client \<Rightarrow> io_state \<Rightarrow> client \<times> io_state" where
  "fail_client c w = finish_client (c\<lparr>client_status := STATUS_BAD\<rparr>) w"

text \<open>The size is an \<open>int\<close>; a failing \<open>stat\<close> leaves the structure uninitialised.\<close>
definition obtain_file_size :: "bytes \<Rightarrow> io_state \<Rightarrow> int option" where
  "obtain_file_size filename w =
     (case files w filename of
        None \<Rightarrow> None
      | Some (_, data) \<Rightarrow> Some (sint (of_nat (length data) :: 32 word)))"

definition switch_state :: "lib \<Rightarrow> bytes \<Rightarrow> bytes \<Rightarrow> client \<Rightarrow> io_state \<Rightarrow> (client \<times> io_state) option" where
  "switch_state L filename protocol c w =
     do {
       (temporary_buffer, c, w) \<leftarrow>
         (if sys_access filename w = -1 then
            Some (get_404 L filename protocol, c\<lparr>client_status := STATUS_404\<rparr>, w)
          else let (f, w) = sys_fopen filename w; c = c\<lparr>client_file := f\<rparr>
            in if f = NULL then Some (get_403 L filename protocol, c\<lparr>client_status := STATUS_403\<rparr>, w)
               else do {
                 n \<leftarrow> obtain_file_size filename w;
                 Some (get_200 L filename protocol n, c, w)
               });
       let reply = cstring temporary_buffer;
       guard (length reply < BUFFER_SIZE);
       let c = c\<lparr>client_buffer := store_bytes (client_buffer c) 0 (reply @ [0])\<rparr>;
       let c = c\<lparr>ntowrite := int (length reply), nwritten := 0, client_state := E_SEND_REPLY\<rparr>;
       Some (c, w)
     }"

text \<open>The bytes \<open>buffer + nwritten\<close> to \<open>buffer + nwritten + ntowrite\<close>, inside the buffer.\<close>
definition pending :: "client \<Rightarrow> bytes" where
  "pending c = fetch_bytes (client_buffer c) (nat (nwritten c)) (nat (ntowrite c))"

definition in_buffer :: "client \<Rightarrow> bool" where
  "in_buffer c \<longleftrightarrow> 0 \<le> nwritten c \<and> 0 \<le> ntowrite c \<and> nwritten c + ntowrite c \<le> BUFFER_SIZE"

text \<open>
  \<open>header_complete\<close> of the networking library puts a null character behind the bytes received,
  as its documentation says, and asks for a buffer that has room for it.
\<close>
definition header_end :: "client \<Rightarrow> client option" where
  "header_end c =
     do {
       guard (0 \<le> nread c \<and> nread c < BUFFER_SIZE);
       Some (c\<lparr>client_buffer := store_bytes (client_buffer c) (nat (nread c)) [0]\<rparr>)
     }"

section \<open>Serving a request in one go\<close>

text \<open>The loop ends because every round either returns or increases \<open>nread\<close>.\<close>
function read_request :: "lib \<Rightarrow> client \<Rightarrow> io_state \<Rightarrow> (int \<times> client \<times> io_state) option" where
  "read_request L c w =
     (if nread c < BUFFER_SIZE - 1 then
        if nread c < 0 then None
        else case sys_read (socket c) (nat (BUFFER_SIZE - nread c)) w of (bytesRead, data, w) \<Rightarrow>
          if bytesRead \<le> 0 then Some (0, fail_client c w)
          else
            let c = c\<lparr>client_buffer := store_bytes (client_buffer c) (nat (nread c)) data,
                      nread := nread c + bytesRead\<rparr>;
                request = fetch_bytes (client_buffer c) 0 (nat (nread c))
            in do {
                 c \<leftarrow> header_end c;
                 (if header_complete L request then
                    (case get_filename L request of (r, filename, protocol) \<Rightarrow>
                       if r = -1 then Some (0, fail_client c w)
                       else do { (c, w) \<leftarrow> switch_state L filename protocol c w; Some (1, c, w) })
                  else read_request L c w)
               }
      else Some (0, fail_client c w))"
  by pat_completeness auto
termination by (relation "measure (\<lambda>(L, c, w). nat (BUFFER_SIZE - nread c))")
  (auto simp: header_end_def split: Option.bind_splits)

declare read_request.simps [simp del]

partial_function (option) flush_buffer :: "client \<Rightarrow> io_state \<Rightarrow> (int \<times> client \<times> io_state) option" where
  "flush_buffer c w =
     (if ntowrite c > 0 then
        do {
          guard (in_buffer c);
          (let (result, w) = sys_write (socket c) (pending c) w
           in if result < 0 then Some (0, c, w)
              else flush_buffer (c\<lparr>nwritten := nwritten c + result, ntowrite := ntowrite c - result\<rparr>) w)
        }
      else Some (1, c, w))"

text \<open>
  \<open>while(readResult == BUFFER_SIZE)\<close>: read a chunk of the file and flush it. The result 0
  says that the function returned from inside the loop.
\<close>
partial_function (option) reply_loop :: "int \<Rightarrow> client \<Rightarrow> io_state \<Rightarrow> (int \<times> client \<times> io_state) option" where
  "reply_loop readResult c w =
     (if readResult = BUFFER_SIZE then
        do {
          (data, w) \<leftarrow> sys_fread (client_file c) BUFFER_SIZE w;
          let readResult = int (length data);
          let c = c\<lparr>client_buffer := store_bytes (client_buffer c) 0 data, nwritten := 0, ntowrite := readResult\<rparr>;
          (r, c, w) \<leftarrow> flush_buffer c w;
          (if r = 0 then Some (0, fail_client c w) else reply_loop readResult c w)
        }
      else Some (1, c, w))"

definition write_reply :: "client \<Rightarrow> io_state \<Rightarrow> (int \<times> client \<times> io_state) option" where
  "write_reply c w =
     do {
       (flushResult, c, w) \<leftarrow> flush_buffer c w;
       (if flushResult = 0 then Some (0, fail_client c w)
        else if client_file c \<noteq> NULL then
          do {
            (r, c, w) \<leftarrow> reply_loop BUFFER_SIZE c w;
            (if r = 0 then Some (0, c, w)
             else do { w \<leftarrow> sys_fclose (client_file c) w; Some (1, c, w) })
          }
        else Some (1, c, w))
     }"

section \<open>One step at a time\<close>

text \<open>
  After a failed \<open>get_filename\<close> the handler closes the socket, but goes on to
  \<open>switch_state\<close> with the two local arrays, which were never initialised: that is undefined.
\<close>
definition continue_reading_request :: "lib \<Rightarrow> client \<Rightarrow> io_state \<Rightarrow> (client \<times> io_state) option" where
  "continue_reading_request L c w =
     do {
       guard (0 \<le> nread c \<and> nread c \<le> BUFFER_SIZE - 1);
       (case sys_read (socket c) (nat (BUFFER_SIZE - 1 - nread c)) w of (result, data, w) \<Rightarrow>
          if result \<le> 0 then Some (fail_client c w)
          else
            let c = c\<lparr>client_buffer := store_bytes (client_buffer c) (nat (nread c)) data,
                      nread := nread c + result\<rparr>;
                request = fetch_bytes (client_buffer c) 0 (nat (nread c))
            in do {
                 c \<leftarrow> header_end c;
                 (if header_complete L request then
                    (case get_filename L request of (r, filename, protocol) \<Rightarrow>
                       if r = -1 then None else switch_state L filename protocol c w)
                  else Some (c, w))
               })
     }"

definition continue_sending_reply :: "client \<Rightarrow> io_state \<Rightarrow> (client \<times> io_state) option" where
  "continue_sending_reply c w =
     (if ntowrite c \<noteq> 0 then
        do {
          guard (in_buffer c);
          (case sys_write (socket c) (pending c) w of (result, w) \<Rightarrow>
             (case (if result = -1 then fail_client c w else (c, w)) of (c, w) \<Rightarrow>
                Some (c\<lparr>nwritten := nwritten c + result, ntowrite := ntowrite c - result\<rparr>, w)))
        }
      else if client_file c = NULL then
        (case finish_client c w of (c, w) \<Rightarrow>
           Some (c, if client_status c = STATUS_OK
                    then w\<lparr>operations_completed := operations_completed w + 1\<rparr> else w))
      else
        do {
          (data, w) \<leftarrow> sys_fread (client_file c) BUFFER_SIZE w;
          let c = c\<lparr>client_buffer := store_bytes (client_buffer c) 0 data\<rparr>;
          let result = int (length data);
          (c, w) \<leftarrow> (if result < BUFFER_SIZE then do { w \<leftarrow> sys_fclose (client_file c) w; Some (c\<lparr>client_file := NULL\<rparr>, w) }
                     else Some (c, w));
          Some (c\<lparr>nwritten := 0, ntowrite := result\<rparr>, w)
        })"

definition handle_client :: "lib \<Rightarrow> client \<Rightarrow> io_state \<Rightarrow> (client \<times> io_state) option" where
  "handle_client L c w =
     (if client_state c = E_RECV_REQUEST then continue_reading_request L c w
      else if client_state c = E_SEND_REPLY then continue_sending_reply c w
      else Some (c, w))"

end
