(* ===== verification/Client_Reply.thy ===== *)
theory Client_Reply imports Client begin

text \<open>
  Sending a reply, in one go and step by step: both send the pending bytes of the buffer
  and then the whole file, however the writes are cut into pieces.
\<close>

section \<open>Flushing the buffer\<close>

definition flushed :: "client \<Rightarrow> client" where
  "flushed c = c\<lparr>nwritten := nwritten c + ntowrite c, ntowrite := 0\<rparr>"

lemma pending_advance:
  assumes "in_buffer c" "k \<le> nat (ntowrite c)"
  defines "c' \<equiv> c\<lparr>nwritten := nwritten c + int k, ntowrite := ntowrite c - int k\<rparr>"
  shows "in_buffer c'" "pending c = take k (pending c) @ pending c'" "flushed c' = flushed c"
    "length (pending c) = nat (ntowrite c)"
proof -
  from assms show "in_buffer c'" "flushed c' = flushed c" "length (pending c) = nat (ntowrite c)"
    by (simp_all add: in_buffer_def flushed_def pending_def le_nat_iff)
  have pos: "nat (nwritten c') = nat (nwritten c) + k" "nat (ntowrite c') = nat (ntowrite c) - k"
    using assms by (auto simp: in_buffer_def)
  show "pending c = take k (pending c) @ pending c'"
    using fetch_split [OF assms(2), of "client_buffer c" "nat (nwritten c)"] assms(2)
    unfolding pending_def pos by (simp add: c'_def min_def)
qed

lemma pending_empty: "ntowrite c \<le> 0 \<Longrightarrow> pending c = []"
  by (simp add: pending_def)

lemma flushed_done: "ntowrite c = 0 \<Longrightarrow> flushed c = c"
  by (simp add: flushed_def)

lemma flush_buffer_ok:
  assumes "willing w (socket c)" "in_buffer c"
  obtains w' where "flush_buffer c w = Some (1, flushed c, w')" "sent_on w (socket c) (pending c) w'"
  using assms
proof (induction "nat (ntowrite c)" arbitrary: c w thesis rule: less_induct)
  case less
  show ?case
  proof (cases "ntowrite c > 0")
    case False
    then have "ntowrite c = 0" using less.prems(3) by (simp add: in_buffer_def)
    then have "flush_buffer c w = Some (1, flushed c, w)"
      by (subst flush_buffer.simps) (simp add: flushed_done)
    with False show ?thesis
      by (intro less.prems(1) [of w]) (simp_all add: pending_empty sent_on_refl)
  next
    case True
    then have "pending c \<noteq> []" by (auto simp: pending_def fetch_bytes_def)
    with less.prems(2) obtain k w1 where k: "sys_write (socket c) (pending c) w = (int k, w1)" "0 < k"
      "k \<le> length (pending c)" "sent_on w (socket c) (take k (pending c)) w1"
      by (rule sys_write_progress)
    let ?c = "c\<lparr>nwritten := nwritten c + int k, ntowrite := ntowrite c - int k\<rparr>"
    have k_le: "k \<le> nat (ntowrite c)" using k(3) by (simp add: pending_def)
    note adv = pending_advance [OF less.prems(3) k_le]
    have step: "flush_buffer c w = flush_buffer ?c w1"
      by (subst flush_buffer.simps) (simp add: True less.prems(3) k(1))
    obtain w' where w': "flush_buffer ?c w1 = Some (1, flushed ?c, w')" "sent_on w1 (socket ?c) (pending ?c) w'"
      by (rule less.hyps [of ?c w1])
        (use True k(2) adv(1) sent_on_willing [OF k(4) less.prems(2)] in \<open>simp_all\<close>)
    have "sent_on w (socket c) (take k (pending c) @ pending ?c) w'"
      by (rule sent_on_trans [OF k(4)]) (use w'(2) in simp)
    then show ?thesis
      using step w'(1) adv(2,3) by (intro less.prems(1) [of w']) (simp_all only:)
  qed
qed

section \<open>Sending a file in one go\<close>

text \<open>\<open>w'\<close> is \<open>w\<close> after \<open>bs\<close> went out on \<open>fd\<close> and stream \<open>f\<close> became \<open>st\<close>.\<close>
definition served :: "io_state \<Rightarrow> int \<Rightarrow> bytes \<Rightarrow> ptr \<Rightarrow> bytes option \<Rightarrow> io_state \<Rightarrow> bool" where
  "served w fd bs f st w' \<longleftrightarrow> (\<exists>ls. w' = w\<lparr>write_limits := (write_limits w)(fd := ls),
     sent := (sent w)(fd := sent w fd @ bs), streams := (streams w)(f := st)\<rparr> \<and> set ls \<subseteq> set (write_limits w fd))"

lemma served_sent_on:
  assumes "sent_on w fd bs w'"
  shows "served w fd bs f (streams w f) w'"
proof -
  from assms obtain ls where ls: "set ls \<subseteq> set (write_limits w fd)"
    "w' = w\<lparr>write_limits := (write_limits w)(fd := ls), sent := (sent w)(fd := sent w fd @ bs)\<rparr>"
    by (auto simp: sent_on_def)
  then have "w' = w\<lparr>write_limits := (write_limits w)(fd := ls), sent := (sent w)(fd := sent w fd @ bs),
      streams := (streams w)(f := streams w f)\<rparr>"
    by (cases w) simp
  with ls(1) show ?thesis unfolding served_def by blast
qed

lemma served_stream: "streams w f = st0 \<Longrightarrow> served w fd [] f st (w\<lparr>streams := (streams w)(f := st)\<rparr>)"
  unfolding served_def by (intro exI [of _ "write_limits w fd"]) simp

lemma served_trans:
  "served w fd xs f st w1 \<Longrightarrow> served w1 fd ys f st' w2 \<Longrightarrow> served w fd (xs @ ys) f st' w2"
  unfolding served_def by force

lemma served_willing: "served w fd bs f st w' \<Longrightarrow> willing w fd \<Longrightarrow> willing w' fd"
  unfolding served_def willing_def by auto

lemma served_fields:
  assumes "served w fd bs f st w'"
  shows "sent w' = (sent w)(fd := sent w fd @ bs)" "streams w' = (streams w)(f := st)" "closed w' = closed w"
    "operations_completed w' = operations_completed w"
  using assms by (auto simp: served_def)

text \<open>One chunk of the file is read into the buffer.\<close>
definition with_chunk :: "client \<Rightarrow> bytes \<Rightarrow> client" where
  "with_chunk c data = c\<lparr>client_buffer := store_bytes (client_buffer c) 0 data,
     nwritten := 0, ntowrite := int (length data)\<rparr>"

lemma with_chunk:
  assumes "length data \<le> BUFFER_SIZE"
  shows "in_buffer (with_chunk c data)" "pending (with_chunk c data) = data"
  using assms by (simp_all add: in_buffer_def pending_def with_chunk_def)

definition same_client :: "client \<Rightarrow> client \<Rightarrow> bool" where
  "same_client c c' \<longleftrightarrow> socket c' = socket c \<and> client_file c' = client_file c \<and>
     client_status c' = client_status c \<and> client_state c' = client_state c \<and> nread c' = nread c"

lemma same_client_steps:
  "same_client c c" "same_client c (flushed c)" "same_client c (with_chunk c data)"
  "same_client c c1 \<Longrightarrow> same_client c1 c2 \<Longrightarrow> same_client c c2"
  by (simp_all add: same_client_def flushed_def with_chunk_def)

lemma reply_loop_ok:
  assumes "willing w (socket c)" "streams w (client_file c) = Some data"
  obtains c' w' where "reply_loop BUFFER_SIZE c w = Some (1, c', w')" "same_client c c'" "ntowrite c' = 0"
    "served w (socket c) data (client_file c) (Some []) w'"
  using assms
proof (induction "length data" arbitrary: c w data thesis rule: less_induct)
  case less
  let ?f = "client_file c" and ?fd = "socket c"
  let ?chunk = "take 4096 data" and ?rest = "drop 4096 data"
  let ?w1 = "w\<lparr>streams := (streams w)(?f \<mapsto> ?rest)\<rparr>" and ?c1 = "with_chunk c ?chunk"
  have len: "length ?chunk \<le> 4096" by simp
  note chunk = with_chunk [OF len, of c]
  have s1: "served w ?fd [] ?f (Some ?rest) ?w1" using less.prems(3) by (rule served_stream)
  have will1: "willing ?w1 (socket ?c1)" using less.prems(2) by (simp add: willing_def with_chunk_def)
  obtain w2 where w2: "flush_buffer ?c1 ?w1 = Some (1, flushed ?c1, w2)" "sent_on ?w1 (socket ?c1) (pending ?c1) w2"
    by (rule flush_buffer_ok [OF will1 chunk(1)])
  have s2: "served ?w1 ?fd ?chunk ?f (Some ?rest) w2"
    using served_sent_on [OF w2(2), of ?f] chunk(2) by (simp add: with_chunk_def)
  then have s: "served w ?fd ?chunk ?f (Some ?rest) w2" using served_trans [OF s1] by simp
  have same: "same_client c (flushed ?c1)" and fin: "ntowrite (flushed ?c1) = 0"
    using same_client_steps by (blast, simp add: flushed_def)
  have step: "reply_loop BUFFER_SIZE c w = reply_loop (int (length ?chunk)) (flushed ?c1) w2"
    using w2(1) less.prems(3) by (subst reply_loop.simps) (simp add: sys_fread_def with_chunk_def Let_def)
  show ?case
  proof (cases "length data < 4096")
    case True
    then have "reply_loop (int (length ?chunk)) (flushed ?c1) w2 = Some (1, flushed ?c1, w2)"
      by (subst reply_loop.simps) simp
    with step same fin s True show ?thesis by (intro less.prems(1)) simp_all
  next
    case False
    then have more: "length ?rest < length data" and full: "int (length ?chunk) = 4096" by simp_all
    have fil: "client_file (flushed ?c1) = ?f" and sock: "socket (flushed ?c1) = ?fd"
      using same by (simp_all add: same_client_def)
    obtain c' w' where r: "reply_loop BUFFER_SIZE (flushed ?c1) w2 = Some (1, c', w')"
      "same_client (flushed ?c1) c'" "ntowrite c' = 0" "served w2 ?fd ?rest ?f (Some []) w'"
      by (rule less.hyps [OF more, of "flushed ?c1" w2, unfolded fil sock])
        (use served_fields(2) [OF s] served_willing [OF s less.prems(2)] in simp_all)
    have "served w ?fd (?chunk @ ?rest) ?f (Some []) w'" by (rule served_trans [OF s r(4)])
    with step full r(1,3) same_client_steps(4) [OF same r(2)] show ?thesis
      by (intro less.prems(1) [of c' w']) simp_all
  qed
qed

text \<open>What is still to be read from the client's file.\<close>
definition file_rest :: "client \<Rightarrow> io_state \<Rightarrow> bytes option" where
  "file_rest c w = (if client_file c = NULL then Some [] else streams w (client_file c))"

lemma write_reply_ok:
  assumes will: "willing w (socket c)" and buf: "in_buffer c" and rest: "file_rest c w = Some data"
  obtains c' w' where "write_reply c w = Some (1, c', w')" "same_client c c'" "ntowrite c' = 0"
    "sent w' = (sent w)(socket c := sent w (socket c) @ pending c @ data)" "closed w' = closed w"
    "operations_completed w' = operations_completed w"
    "client_file c \<noteq> NULL \<Longrightarrow> streams w' (client_file c) = None"
proof -
  let ?f = "client_file c" and ?fd = "socket c"
  obtain w1 where w1: "flush_buffer c w = Some (1, flushed c, w1)" "sent_on w ?fd (pending c) w1"
    by (rule flush_buffer_ok [OF will buf])
  note f1 = sent_on_fields [OF w1(2)]
  show thesis
  proof (cases "?f = NULL")
    case True
    then have "data = []" using rest by (simp add: file_rest_def)
    moreover have "write_reply c w = Some (1, flushed c, w1)"
      using w1(1) True by (simp add: write_reply_def flushed_def)
    ultimately show ?thesis
      using f1 same_client_steps(2) True by (intro that [of "flushed c" w1]) (simp_all add: flushed_def)
  next
    case False
    then have stream: "streams w1 (client_file (flushed c)) = Some data"
      using rest by (simp add: file_rest_def f1 flushed_def)
    have will1: "willing w1 (socket (flushed c))"
      using sent_on_willing [OF w1(2) will] by (simp add: flushed_def)
    obtain c2 w2 where r: "reply_loop BUFFER_SIZE (flushed c) w1 = Some (1, c2, w2)"
      "same_client (flushed c) c2" "ntowrite c2 = 0"
      "served w1 (socket (flushed c)) data (client_file (flushed c)) (Some []) w2"
      by (rule reply_loop_ok [OF will1 stream]) (rule that)
    have c2: "client_file c2 = ?f" "same_client c c2"
      using same_client_steps(4) [OF same_client_steps(2) r(2)] by (simp_all add: same_client_def)
    note f2 = served_fields [OF r(4)]
    let ?w3 = "w2\<lparr>streams := (streams w2)(?f := None)\<rparr>"
    have "write_reply c w = Some (1, c2, ?w3)"
      using w1(1) r(1) False f2(2) c2(1)
      by (simp add: write_reply_def sys_fclose_def flushed_def)
    with c2(2) r(3) f1 f2 show ?thesis
      by (intro that [of c2 ?w3]) (simp_all add: flushed_def)
  qed
qed

section \<open>Sending step by step\<close>

text \<open>
  The server calls the handler of a client again and again until its socket is closed;
  \<open>n\<close> bounds the number of calls.
\<close>
primrec drive :: "nat \<Rightarrow> lib \<Rightarrow> client \<Rightarrow> io_state \<Rightarrow> (client \<times> io_state) option" where
  "drive 0 L c w = Some (c, w)"
| "drive (Suc n) L c w =
     (if socket c = -1 then Some (c, w) else do { (c, w) \<leftarrow> handle_client L c w; drive n L c w })"

lemma drive_add:
  "drive m L c w = Some (c1, w1) \<Longrightarrow> drive n L c1 w1 = Some (c2, w2) \<Longrightarrow> drive (m + n) L c w = Some (c2, w2)"
proof (induction m arbitrary: c w)
  case (Suc m)
  show ?case
  proof (cases "socket c = -1")
    case True
    then have "drive k L c w = Some (c, w)" for k by (cases k) simp_all
    with Suc.prems True show ?thesis by simp
  next
    case False
    with Suc.prems(1) obtain c3 w3 where "handle_client L c w = Some (c3, w3)" "drive m L c3 w3 = Some (c1, w1)"
      by (auto split: Option.bind_splits)
    with Suc.IH [of c3 w3] Suc.prems(2) False show ?thesis by simp
  qed
qed simp

lemma drive_step:
  assumes "socket c \<noteq> -1" "handle_client L c w = Some (c1, w1)" "drive n L c1 w1 = Some (c2, w2)"
  shows "drive (Suc n) L c w = Some (c2, w2)"
  using assms by simp

lemma drive_flush:
  assumes "willing w (socket c)" "in_buffer c" "client_state c = E_SEND_REPLY"
  obtains n w' where "drive n L c w = Some (flushed c, w')" "sent_on w (socket c) (pending c) w'"
  using assms
proof (induction "nat (ntowrite c)" arbitrary: c w thesis rule: less_induct)
  case less
  show ?case
  proof (cases "ntowrite c > 0")
    case False
    then have "ntowrite c = 0" using less.prems(3) by (simp add: in_buffer_def)
    then show ?thesis
      by (intro less.prems(1) [of 0 w]) (simp_all add: flushed_done pending_empty sent_on_refl)
  next
    case True
    then have "pending c \<noteq> []" by (auto simp: pending_def fetch_bytes_def)
    with less.prems(2) obtain k w1 where k: "sys_write (socket c) (pending c) w = (int k, w1)" "0 < k"
      "k \<le> length (pending c)" "sent_on w (socket c) (take k (pending c)) w1"
      by (rule sys_write_progress)
    let ?c = "c\<lparr>nwritten := nwritten c + int k, ntowrite := ntowrite c - int k\<rparr>"
    have k_le: "k \<le> nat (ntowrite c)" using k(3) by (simp add: pending_def)
    note adv = pending_advance [OF less.prems(3) k_le]
    have step: "handle_client L c w = Some (?c, w1)"
      using True less.prems(3,4) k(1) by (simp add: handle_client_def continue_sending_reply_def)
    obtain n w' where w': "drive n L ?c w1 = Some (flushed ?c, w')" "sent_on w1 (socket ?c) (pending ?c) w'"
      by (rule less.hyps [of ?c w1])
        (use True k(2) adv(1) sent_on_willing [OF k(4) less.prems(2)] less.prems(4) in \<open>simp_all\<close>)
    have "sent_on w (socket c) (take k (pending c) @ pending ?c) w'"
      by (rule sent_on_trans [OF k(4)]) (use w'(2) in simp)
    moreover have "socket c \<noteq> -1" using less.prems(2) by (simp add: willing_def)
    note drive_step [OF this step w'(1)]
    ultimately show ?thesis
      using adv(2,3) by (intro less.prems(1) [of "Suc n" w']) (simp_all only:)
  qed
qed

text \<open>The call that finds everything sent closes the socket and counts the operation.\<close>
lemma drive_finish:
  assumes "socket c \<noteq> -1" "client_state c = E_SEND_REPLY" "ntowrite c = 0" "client_file c = NULL"
  shows "drive 1 L c w = Some (c\<lparr>socket := -1\<rparr>, w\<lparr>closed := closed w @ [socket c],
    operations_completed := operations_completed w + (if client_status c = STATUS_OK then 1 else 0)\<rparr>)"
  using assms by (simp add: handle_client_def continue_sending_reply_def finish_client_def sys_close_def)

text \<open>One call reads the next chunk of the file, and closes the file at its end.\<close>
lemma drive_read_chunk:
  assumes "socket c \<noteq> -1" "client_state c = E_SEND_REPLY" "ntowrite c = 0" "client_file c \<noteq> NULL"
    and "streams w (client_file c) = Some data"
  defines "chunk \<equiv> take BUFFER_SIZE data"
  shows "drive 1 L c w = Some (if length data < BUFFER_SIZE
    then ((with_chunk c chunk)\<lparr>client_file := NULL\<rparr>, w\<lparr>streams := (streams w)(client_file c := None)\<rparr>)
    else (with_chunk c chunk, w\<lparr>streams := (streams w)(client_file c \<mapsto> drop BUFFER_SIZE data)\<rparr>))"
  using assms(1-5) unfolding chunk_def
  by (simp add: handle_client_def continue_sending_reply_def sys_fread_def sys_fclose_def with_chunk_def Let_def)

text \<open>\<open>(c', w')\<close> is what serving the client \<open>c\<close> to the end leaves behind.\<close>
definition served_fully :: "client \<Rightarrow> io_state \<Rightarrow> bytes \<Rightarrow> client \<Rightarrow> io_state \<Rightarrow> bool" where
  "served_fully c w bs c' w' \<longleftrightarrow> socket c' = -1 \<and> client_status c' = client_status c \<and>
     sent w' = (sent w)(socket c := sent w (socket c) @ bs) \<and> closed w' = closed w @ [socket c] \<and>
     operations_completed w' = operations_completed w + (if client_status c = STATUS_OK then 1 else 0) \<and>
     streams w' = (if client_file c = NULL then streams w else (streams w)(client_file c := None))"

lemma drive_reply:
  assumes "willing w (socket c)" "in_buffer c" "client_state c = E_SEND_REPLY" "file_rest c w = Some data"
  shows "\<exists>n c' w'. drive n L c w = Some (c', w') \<and> served_fully c w (pending c @ data) c' w'"
  using assms
proof (induction "if client_file c = NULL then 0 else Suc (length data)" arbitrary: c w data rule: less_induct)
  case less
  let ?f = "client_file c" and ?fd = "socket c"
  have sock: "?fd \<noteq> -1" using less.prems(1) by (simp add: willing_def)
  obtain m w1 where w1: "drive m L c w = Some (flushed c, w1)" "sent_on w ?fd (pending c) w1"
    by (rule drive_flush [OF less.prems(1-3)])
  note f1 = sent_on_fields [OF w1(2)]
  have c1: "socket (flushed c) = ?fd" "client_state (flushed c) = E_SEND_REPLY" "ntowrite (flushed c) = 0"
    "client_file (flushed c) = ?f" "client_status (flushed c) = client_status c"
    using less.prems(3) by (simp_all add: flushed_def)
  show ?case
  proof (cases "?f = NULL")
    case True
    then have data: "data = []" using less.prems(4) by (simp add: file_rest_def)
    let ?c = "flushed c\<lparr>socket := -1\<rparr>" and ?w = "w1\<lparr>closed := closed w1 @ [?fd],
      operations_completed := operations_completed w1 + (if client_status c = STATUS_OK then 1 else 0)\<rparr>"
    have "drive 1 L (flushed c) w1 = Some (?c, ?w)"
      using drive_finish [of "flushed c" L w1] c1 sock True by simp
    from drive_add [OF w1(1) this] have "drive (m + 1) L c w = Some (?c, ?w)" .
    moreover have "served_fully c w (pending c @ data) ?c ?w"
      using data True f1 c1 by (simp add: served_fully_def)
    ultimately show ?thesis by blast
  next
    case False
    then have st: "streams w1 (client_file (flushed c)) = Some data"
      using less.prems(4) by (simp add: file_rest_def f1 c1)
    let ?chunk = "take 4096 data" and ?rest = "drop 4096 data"
    have len: "length ?chunk \<le> 4096" by simp
    have "\<exists>c2 w2. drive 1 L (flushed c) w1 = Some (c2, w2) \<and> pending c2 = ?chunk \<and> in_buffer c2 \<and>
        file_rest c2 w2 = Some ?rest \<and> client_file c2 = (if length data < 4096 then NULL else ?f) \<and>
        w2 = w1\<lparr>streams := (streams w1)(?f := (if length data < 4096 then None else Some ?rest))\<rparr> \<and>
        socket c2 = ?fd \<and> client_state c2 = E_SEND_REPLY \<and> client_status c2 = client_status c"
      using drive_read_chunk [OF _ _ _ _ st, of L] sock False c1 with_chunk [OF len, of "flushed c"]
      by (auto simp: file_rest_def with_chunk_def pending_def in_buffer_def)
    then obtain c2 w2 where s: "drive 1 L (flushed c) w1 = Some (c2, w2)" "pending c2 = ?chunk" "in_buffer c2"
      "file_rest c2 w2 = Some ?rest" "client_file c2 = (if length data < 4096 then NULL else ?f)"
      "w2 = w1\<lparr>streams := (streams w1)(?f := (if length data < 4096 then None else Some ?rest))\<rparr>"
      "socket c2 = ?fd" "client_state c2 = E_SEND_REPLY" "client_status c2 = client_status c" by blast
    have smaller: "(if client_file c2 = NULL then 0 else Suc (length ?rest)) < (if ?f = NULL then 0 else Suc (length data))"
      using False s(5) by auto
    have will2: "willing w2 (socket c2)"
      using sent_on_willing [OF w1(2) less.prems(1)] by (simp add: s(6,7) willing_def)
    from less.hyps [OF smaller will2 s(3,8,4)] obtain n c' w' where
      r: "drive n L c2 w2 = Some (c', w')" "served_fully c2 w2 (pending c2 @ ?rest) c' w'" by blast
    from drive_add [OF w1(1) drive_add [OF s(1) r(1)]]
    have "drive (m + (1 + n)) L c w = Some (c', w')" .
    moreover have "served_fully c w (pending c @ data) c' w'"
      using r(2) s(2,5,7,9) False f1 unfolding served_fully_def s(6) by auto
    ultimately show ?thesis by blast
  qed
qed

end
