(* ===== verification/Client_Request.thy ===== *)
theory Client_Request imports Client_Reply begin

text \<open>
  Reading a request that arrives in any number of pieces: both versions of the server put
  the pieces together in the buffer, and act when the header is complete.
\<close>

text \<open>
  The client whose buffer holds the request bytes \<open>req\<close> with the null character behind them,
  which the first read adds, and the state after reading.
\<close>
definition received :: "client \<Rightarrow> bytes \<Rightarrow> client" where
  "received c req = c\<lparr>client_buffer := store_bytes (client_buffer c) 0 (if req = [] then [] else req @ [0]), nread := int (length req)\<rparr>"

definition after_reads :: "io_state \<Rightarrow> int \<Rightarrow> bytes option list \<Rightarrow> io_state" where
  "after_reads w fd cs = w\<lparr>reads := (reads w)(fd := cs)\<rparr>"

lemma after_reads_again [simp]: "after_reads (after_reads w fd cs) fd cs' = after_reads w fd cs'"
  by (simp add: after_reads_def)

lemma received_fields [simp]:
  "socket (received c req) = socket c" "client_state (received c req) = client_state c"
  "client_file (received c req) = client_file c" "client_status (received c req) = client_status c"
  "nread (received c req) = int (length req)"
  by (simp_all add: received_def)

text \<open>One more piece behind the bytes already received.\<close>

lemma received_append:
  fixes c :: client
  assumes "bs \<noteq> []" "length req + length bs < BUFFER_SIZE"
  defines "c' \<equiv> (received c req)\<lparr>client_buffer := store_bytes (client_buffer (received c req)) (length req) bs,
     nread := int (length req) + int (length bs)\<rparr>"
  shows "header_end c' = Some (received c (req @ bs))"
    "fetch_bytes (store_bytes (client_buffer (received c req)) (length req) bs) 0 (length req + length bs) = req @ bs"
proof -
  have eq: "store_bytes (store_bytes (store_bytes b 0 (if req = [] then [] else req @ [0])) (length req) bs)
      (length req + length bs) [0] = store_bytes b 0 (req @ bs @ [0])" for b
    by (rule ext) (use assms(1) in \<open>auto simp: store_bytes_def nth_append\<close>)
  have "nat (int (length req) + int (length bs)) = length req + length bs" by simp
  then show "header_end c' = Some (received c (req @ bs))"
    using assms(1,2) by (simp add: header_end_def c'_def received_def eq)
  have "store_bytes (client_buffer (received c req)) (length req) bs i = store_bytes (client_buffer c) 0 (req @ bs) i"
    if "i < length req + length bs" for i
    using that by (auto simp: received_def store_bytes_def nth_append)
  then have "fetch_bytes (store_bytes (client_buffer (received c req)) (length req) bs) 0 (length req + length bs) =
      fetch_bytes (store_bytes (client_buffer c) 0 (req @ bs)) 0 (length (req @ bs))"
    unfolding fetch_bytes_def by (intro map_cong) simp_all
  also have "\<dots> = req @ bs" by (rule fetch_store)
  finally show "fetch_bytes (store_bytes (client_buffer (received c req)) (length req) bs) 0 (length req + length bs) = req @ bs" .
qed

lemma sys_read_chunk:
  assumes "0 \<le> fd" "reads w fd = Some bs # cs" "length bs \<le> n"
  shows "sys_read fd n w = (int (length bs), bs, after_reads w fd cs)"
  using assms by (simp add: sys_read_def after_reads_def)

text \<open>What happens when the header is complete.\<close>
definition dispatch :: "lib \<Rightarrow> client \<Rightarrow> bytes \<Rightarrow> io_state \<Rightarrow> (int \<times> client \<times> io_state) option" where
  "dispatch L c req w =
     (case get_filename L req of (r, filename, protocol) \<Rightarrow>
        if r = -1 then Some (0, fail_client c w)
        else do { (c, w) \<leftarrow> switch_state L filename protocol c w; Some (1, c, w) })"

definition pieces_of_header :: "lib \<Rightarrow> bytes \<Rightarrow> bytes list \<Rightarrow> bool" where
  "pieces_of_header L req pieces \<longleftrightarrow> pieces \<noteq> [] \<and> [] \<notin> set pieces \<and>
     header_complete L (req @ concat pieces) \<and>
     (\<forall>k. 0 < k \<and> k < length pieces \<longrightarrow> \<not> header_complete L (req @ concat (take k pieces)))"

lemma pieces_of_header_Cons:
  assumes "pieces_of_header L req (bs # pieces)"
  shows "bs \<noteq> []" "pieces = [] \<Longrightarrow> header_complete L (req @ bs)"
    "pieces \<noteq> [] \<Longrightarrow> \<not> header_complete L (req @ bs) \<and> pieces_of_header L (req @ bs) pieces"
proof -
  show "bs \<noteq> []" "pieces = [] \<Longrightarrow> header_complete L (req @ bs)"
    using assms by (auto simp: pieces_of_header_def)
  assume more: "pieces \<noteq> []"
  from assms have before: "\<not> header_complete L (req @ concat (take k (bs # pieces)))"
    if "0 < k" "k < Suc (length pieces)" for k
    using that by (simp add: pieces_of_header_def)
  have "\<not> header_complete L (req @ bs)" using before [of 1] more by simp
  moreover have "\<not> header_complete L ((req @ bs) @ concat (take k pieces))" if "0 < k" "k < length pieces" for k
    using before [of "Suc k"] that by simp
  ultimately show "\<not> header_complete L (req @ bs) \<and> pieces_of_header L (req @ bs) pieces"
    using assms more by (simp add: pieces_of_header_def)
qed

lemma read_request_pieces:
  assumes "pieces_of_header L req pieces" "0 \<le> socket c" "reads w (socket c) = map Some pieces @ cs"
    and "length (req @ concat pieces) < BUFFER_SIZE"
  shows "read_request L (received c req) w =
    dispatch L (received c (req @ concat pieces)) (req @ concat pieces) (after_reads w (socket c) cs)"
  using assms
proof (induction pieces arbitrary: req w)
  case (Cons bs pieces)
  note h = pieces_of_header_Cons [OF Cons.prems(1)]
  have len: "length req + length bs < 4096" "length bs \<le> nat (4096 - int (length req))" "length req < 4095"
  proof -
    have pos: "0 < length bs" using h(1) by simp
    have sum: "length req + length bs < 4096" using Cons.prems(4) by simp
    with pos show "length req + length bs < 4096" "length bs \<le> nat (4096 - int (length req))" "length req < 4095"
      by (linarith, linarith, linarith)
  qed
  let ?w1 = "after_reads w (socket c) (map Some pieces @ cs)"
  have "sys_read (socket c) (nat (4096 - int (length req))) w = (int (length bs), bs, ?w1)"
    by (rule sys_read_chunk) (use Cons.prems(2,3) len in simp_all)
  then have step: "read_request L (received c req) w =
      (if header_complete L (req @ bs) then dispatch L (received c (req @ bs)) (req @ bs) ?w1
       else read_request L (received c (req @ bs)) ?w1)"
    using len h(1) by (subst read_request.simps) (simp add: Let_def dispatch_def nat_int_add received_append [OF h(1) len(1)] cong: if_cong)
  show ?case
  proof (cases "pieces = []")
    case True
    with step h(2) show ?thesis by simp
  next
    case False
    from h(3) [OF this] have "read_request L (received c (req @ bs)) ?w1 =
        dispatch L (received c ((req @ bs) @ concat pieces)) ((req @ bs) @ concat pieces)
          (after_reads ?w1 (socket c) cs)"
      by (intro Cons.IH) (use Cons.prems(2,4) in \<open>simp_all add: after_reads_def\<close>)
    with step h(3) [OF False] show ?thesis by simp
  qed
qed (simp add: pieces_of_header_def)

text \<open>The state machine reads one piece per call and agrees, unless the header is malformed.\<close>

lemma drive_pieces:
  assumes "pieces_of_header L req pieces" "0 \<le> socket c" "reads w (socket c) = map Some pieces @ cs"
    and "length (req @ concat pieces) < BUFFER_SIZE" "client_state c = E_RECV_REQUEST"
    and "fst (get_filename L (req @ concat pieces)) \<noteq> -1"
  shows "map_option (\<lambda>(c, w). (1, c, w)) (drive (length pieces) L (received c req) w) =
    dispatch L (received c (req @ concat pieces)) (req @ concat pieces) (after_reads w (socket c) cs)"
  using assms
proof (induction pieces arbitrary: req w)
  case (Cons bs pieces)
  note h = pieces_of_header_Cons [OF Cons.prems(1)]
  have len: "length req + length bs < 4096" "length bs \<le> nat (4095 - int (length req))" "0 < length bs"
    using Cons.prems(4) h(1) by simp_all
  have sock: "socket c \<noteq> -1" using Cons.prems(2) by simp
  let ?w1 = "after_reads w (socket c) (map Some pieces @ cs)"
  have rd: "sys_read (socket c) (nat (4095 - int (length req))) w = (int (length bs), bs, ?w1)"
    by (rule sys_read_chunk) (use Cons.prems(2,3) len in simp_all)
  have step: "handle_client L (received c req) w =
      (if header_complete L (req @ bs)
       then (case get_filename L (req @ bs) of (r, filename, protocol) \<Rightarrow>
          if r = -1 then None else switch_state L filename protocol (received c (req @ bs)) ?w1)
       else Some (received c (req @ bs), ?w1))"
    using len rd Cons.prems(5)
    by (simp add: handle_client_def continue_reading_request_def Let_def nat_int_add received_append [OF h(1) len(1)] cong: if_cong)
  show ?case
  proof (cases "pieces = []")
    case True
    with step h(2) Cons.prems(6) sock show ?thesis
      by (auto simp: dispatch_def split: prod.splits Option.bind_splits)
  next
    case False
    from h(3) [OF this] have "map_option (\<lambda>(c, w). (1, c, w)) (drive (length pieces) L (received c (req @ bs)) ?w1) =
        dispatch L (received c ((req @ bs) @ concat pieces)) ((req @ bs) @ concat pieces)
          (after_reads ?w1 (socket c) cs)"
      by (intro Cons.IH) (use Cons.prems(2,4,5,6) in \<open>simp_all add: after_reads_def\<close>)
    with step h(3) [OF False] sock show ?thesis by simp
  qed
qed (simp add: pieces_of_header_def)

end
