(* ===== verification/Client_List.thy ===== *)
theory Client_List imports Client_Request begin

text \<open>
  The list of clients of \<open>HW1-skeleton/clients_statemachine.c\<close>: its two global pointers,
  insertion, search and removal by socket, and the part of the main loop of
  \<open>server_statemachine.c\<close> that serves the ready clients and removes the finished ones.
  The clients are linked through their own \<open>prev\<close> and \<open>next\<close> fields, so the facts about
  links apply as they do to the nodes of the other lists.
\<close>

record server_state =
  client_heap :: "ptr \<rightharpoonup> client"
  clients_head :: ptr
  clients_tail :: ptr

section \<open>The code\<close>

definition init :: "server_state \<Rightarrow> server_state" where
  "init s = s\<lparr>clients_head := NULL, clients_tail := NULL\<rparr>"

text \<open>
  \<open>new_client\<close> is the address from the \<open>malloc\<close> in \<open>make_client\<close>, \<open>junk\<close> the contents of
  its character buffer.
\<close>
definition insert_client :: "ptr \<Rightarrow> buf \<Rightarrow> int \<Rightarrow> server_state \<Rightarrow> (int \<times> server_state) option" where
  "insert_client new_client junk sock s =
     (if new_client \<noteq> NULL then
        do {
          let c = (make_client junk sock)\<lparr>client_prev := NULL, client_next := clients_head s\<rparr>;
          let h = (client_heap s)(new_client \<mapsto> c);
          h \<leftarrow> (if clients_head s \<noteq> NULL then write_at (\<lambda>c. c\<lparr>client_prev := new_client\<rparr>) h (clients_head s) else Some h);
          Some (1, s\<lparr>client_heap := h, clients_head := new_client,
            clients_tail := (if clients_tail s = NULL then new_client else clients_tail s)\<rparr>)
        }
      else Some (0, s))"

partial_function (option) client_walk :: "int \<Rightarrow> (ptr \<rightharpoonup> client) \<Rightarrow> ptr \<Rightarrow> ptr option" where
  "client_walk sock h temporary =
     (if temporary \<noteq> NULL then
        do {
          c \<leftarrow> load_at h temporary;
          (if sock = socket c then Some temporary else client_walk sock h (client_next c))
        }
      else Some NULL)"

definition search_client :: "int \<Rightarrow> server_state \<Rightarrow> ptr option" where
  "search_client sock s = client_walk sock (client_heap s) (clients_head s)"

definition remove_client :: "int \<Rightarrow> server_state \<Rightarrow> (int \<times> server_state) option" where
  "remove_client sock s =
     do {
       found \<leftarrow> search_client sock s;
       (if found = NULL then Some (0, s)
        else do {
          c \<leftarrow> load_at (client_heap s) found;
          h \<leftarrow> (if client_prev c \<noteq> NULL
                then write_at (\<lambda>n. n\<lparr>client_next := client_next c\<rparr>) (client_heap s) (client_prev c)
                else Some (client_heap s));
          let s = s\<lparr>client_heap := h, clients_head := (if client_prev c \<noteq> NULL then clients_head s else client_next c)\<rparr>;
          c \<leftarrow> load_at (client_heap s) found;
          h \<leftarrow> (if client_next c \<noteq> NULL
                then write_at (\<lambda>n. n\<lparr>client_prev := client_prev c\<rparr>) (client_heap s) (client_next c)
                else Some (client_heap s));
          let s = s\<lparr>client_heap := h, clients_tail := (if client_next c \<noteq> NULL then clients_tail s else client_prev c)\<rparr>;
          Some (1, s\<lparr>client_heap := (client_heap s)(found := None)\<rparr>)
        })
     }"

text \<open>\<open>while(remove_client(-1)) {};\<close>\<close>
partial_function (option) remove_dead :: "server_state \<Rightarrow> server_state option" where
  "remove_dead s = do { (r, s) \<leftarrow> remove_client (-1) s; (if r \<noteq> 0 then remove_dead s else Some s) }"

text \<open>
  The test \<open>FD_ISSET(fd, &set_read) || FD_ISSET(fd, &set_write)\<close>, and the loop over the
  accepted clients after \<open>select\<close> that makes it.
\<close>
definition fd_ready :: "fd_set \<Rightarrow> fd_set \<Rightarrow> int \<Rightarrow> bool option" where
  "fd_ready set_read set_write fd =
     do { r \<leftarrow> FD_ISSET fd set_read; if r then Some True else FD_ISSET fd set_write }"

definition handle_if_ready :: "lib \<Rightarrow> fd_set \<Rightarrow> fd_set \<Rightarrow> client \<Rightarrow> io_state \<Rightarrow> (client \<times> io_state) option" where
  "handle_if_ready L set_read set_write c w =
     do { is_ready \<leftarrow> fd_ready set_read set_write (socket c); if is_ready then handle_client L c w else Some (c, w) }"

partial_function (option) handle_ready ::
    "lib \<Rightarrow> fd_set \<Rightarrow> fd_set \<Rightarrow> ptr \<Rightarrow> server_state \<Rightarrow> io_state \<Rightarrow> (server_state \<times> io_state) option" where
  "handle_ready L set_read set_write current s w =
     (if current \<noteq> NULL then
        do {
          c \<leftarrow> load_at (client_heap s) current;
          (c, w) \<leftarrow> handle_if_ready L set_read set_write c w;
          let s = s\<lparr>client_heap := (client_heap s)(current \<mapsto> c)\<rparr>;
          handle_ready L set_read set_write (client_next c) s w
        }
      else Some (s, w))"

section \<open>The list in memory\<close>

interpretation clients: link_fields client_prev client_next "\<lambda>v c. c\<lparr>client_prev := v\<rparr>" "\<lambda>v c. c\<lparr>client_next := v\<rparr>"
    "\<lambda>c. c\<lparr>client_prev := NULL, client_next := NULL\<rparr>"
  by unfold_locales simp_all

definition clients_at :: "server_state \<Rightarrow> ptr list \<Rightarrow> bool" where
  "clients_at s as \<longleftrightarrow> linked (clients.view (client_heap s)) (clients_head s) (clients_tail s) as"

definition socket_at :: "server_state \<Rightarrow> ptr \<Rightarrow> int" where
  "socket_at s a = (case client_heap s a of None \<Rightarrow> 0 | Some c \<Rightarrow> socket c)"

lemma socket_at_carried:
  assumes "clients.carried (client_heap s') a = clients.carried (client_heap s) a"
  shows "socket_at s' a = socket_at s a"
proof -
  let ?f = "\<lambda>c. c\<lparr>client_prev := NULL, client_next := NULL\<rparr>"
  have "map_option (socket \<circ> ?f) (client_heap s' a) = map_option (socket \<circ> ?f) (client_heap s a)"
    using assms by (simp only: clients.carried_def option.map_comp [symmetric])
  then show ?thesis by (auto simp: socket_at_def comp_def split: option.splits)
qed

lemma clients_at_node:
  assumes "clients_at s as" "a \<in> set as"
  obtains c where "client_heap s a = Some c" "a \<noteq> NULL"
  using clients.linked_dom [OF assms(1) [unfolded clients_at_def] assms(2)] by blast

lemma carried_socket:
  assumes "clients.carried h' = clients.carried h"
  shows "map_option socket (h' a) = map_option socket (h a)"
proof -
  have "map_option (\<lambda>c. c\<lparr>client_prev := NULL, client_next := NULL\<rparr>) (h' a) =
      map_option (\<lambda>c. c\<lparr>client_prev := NULL, client_next := NULL\<rparr>) (h a)"
    using fun_cong [OF assms, of a] by (simp add: clients.carried_def)
  then have "map_option (socket \<circ> (\<lambda>c. c\<lparr>client_prev := NULL, client_next := NULL\<rparr>)) (h' a) =
      map_option (socket \<circ> (\<lambda>c. c\<lparr>client_prev := NULL, client_next := NULL\<rparr>)) (h a)"
    by (simp only: option.map_comp [symmetric])
  then show ?thesis by (simp add: comp_def)
qed

lemma insert_client_ok:
  assumes l: "clients_at s as" and new: "new_client \<noteq> NULL" "client_heap s new_client = None"
  obtains s' where "insert_client new_client junk sock s = Some (1, s')" "clients_at s' (new_client # as)"
    "socket_at s' new_client = sock" "\<And>a. a \<in> set as \<Longrightarrow> socket_at s' a = socket_at s a"
    "dom (client_heap s') = insert new_client (dom (client_heap s))"
    "clients.carried (client_heap s') = (clients.carried (client_heap s))(new_client \<mapsto> make_client junk sock)"
proof -
  let ?c = "(make_client junk sock)\<lparr>client_prev := NULL, client_next := clients_head s\<rparr>"
  let ?h = "(client_heap s)(new_client \<mapsto> ?c)"
  have links: "linked (clients.view (client_heap s)) (clients_head s) (clients_tail s) as"
    using l by (simp add: clients_at_def)
  obtain h' where h': "(if clients_head s \<noteq> NULL then write_at (\<lambda>c. c\<lparr>client_prev := new_client\<rparr>) ?h (clients_head s)
      else Some ?h) = Some h'"
    "linked (clients.view h') new_client (if clients_tail s = NULL then new_client else clients_tail s) (new_client # as)"
    "clients.carried h' = clients.carried ?h" "\<And>b. b \<notin> set (new_client # as) \<Longrightarrow> h' b = client_heap s b"
    "dom h' = insert new_client (dom (client_heap s))"
    by (rule clients.insert_node_head [of "client_heap s" _ _ as new_client ?c, OF links new]) (simp, simp, rule that)
  let ?s = "s\<lparr>client_heap := h', clients_head := new_client,
    clients_tail := if clients_tail s = NULL then new_client else clients_tail s\<rparr>"
  have sock: "map_option socket (h' a) = map_option socket (?h a)" for a
    by (rule carried_socket [OF h'(3)])
  have fresh: "new_client \<notin> set as"
    using new(2) clients.linked_dom [OF links, of new_client] by auto
  show thesis
  proof (rule that [of ?s])
    show "insert_client new_client junk sock s = Some (1, ?s)"
      using h'(1) new(1) by (cases "clients_head s = NULL") (simp_all add: insert_client_def)
    show "clients_at ?s (new_client # as)" using h'(2) by (simp add: clients_at_def)
    show "socket_at ?s new_client = sock"
      using sock [of new_client] by (auto simp: socket_at_def make_client_def)
    show "socket_at ?s a = socket_at s a" if "a \<in> set as" for a
      using sock [of a] that fresh by (auto simp: socket_at_def split: option.splits if_splits)
    have "clients.carried ?h = (clients.carried (client_heap s))(new_client \<mapsto> make_client junk sock)"
      by (auto simp: clients.carried_def make_client_def)
    with h'(3) show "clients.carried (client_heap ?s) = (clients.carried (client_heap s))(new_client \<mapsto> make_client junk sock)"
      by simp
  qed (use h'(5) in simp)
qed

section \<open>Search and removal\<close>

lemma client_walk_chain:
  assumes "chain (clients.view h) p as NULL"
  obtains (found) xs a ys c where "as = xs @ a # ys" "client_walk sock h (first_of as NULL) = Some a"
      "h a = Some c" "socket c = sock" "\<And>x. x \<in> set xs \<Longrightarrow> map_option socket (h x) \<noteq> Some sock"
  | (missing) "client_walk sock h (first_of as NULL) = Some NULL"
      "\<And>x. x \<in> set as \<Longrightarrow> map_option socket (h x) \<noteq> Some sock"
  using assms
proof (induction as arbitrary: p thesis)
  case Nil
  have "client_walk sock h (first_of [] NULL) = Some NULL" by (subst client_walk.simps) simp
  with Nil show ?case by auto
next
  case (Cons a as)
  from Cons.prems(3) have ch: "chain (clients.view h) a as NULL" and a: "a \<noteq> NULL"
    and v: "clients.view h a = Some (p, first_of as NULL)" by simp_all
  from v a obtain c where c: "h a = Some c" "a \<noteq> NULL" "client_next c = first_of as NULL"
    by (auto simp: clients.view_def)
  have step: "client_walk sock h a = (if sock = socket c then Some a else client_walk sock h (first_of as NULL))"
    by (subst client_walk.simps) (use c in \<open>simp add: load_at_def\<close>)
  show ?case
  proof (cases "sock = socket c")
    case True
    with step c show ?thesis by (intro Cons.prems(1) [of "[]" a as c]) auto
  next
    case False
    show ?thesis
    proof (rule Cons.IH [OF _ _ ch])
      fix xs b ys d
      assume IH: "as = xs @ b # ys" "client_walk sock h (first_of as NULL) = Some b" "h b = Some d" "socket d = sock"
        "\<And>x. x \<in> set xs \<Longrightarrow> map_option socket (h x) \<noteq> Some sock"
      with step c False show thesis by (intro Cons.prems(1) [of "a # xs" b ys d]) auto
    next
      assume "client_walk sock h (first_of as NULL) = Some NULL"
        "\<And>x. x \<in> set as \<Longrightarrow> map_option socket (h x) \<noteq> Some sock"
      with step c False show thesis by (intro Cons.prems(2)) auto
    qed
  qed
qed

lemma search_client_cases:
  assumes "clients_at s as"
  obtains (found) xs a ys where "as = xs @ a # ys" "search_client sock s = Some a" "a \<noteq> NULL"
      "socket_at s a = sock" "\<And>x. x \<in> set xs \<Longrightarrow> socket_at s x \<noteq> sock"
  | (missing) "search_client sock s = Some NULL" "\<And>x. x \<in> set as \<Longrightarrow> socket_at s x \<noteq> sock"
proof -
  from assms have ch: "chain (clients.view (client_heap s)) NULL as NULL" and h: "clients_head s = first_of as NULL"
    by (simp_all add: clients_at_def linked_def)
  have sock: "socket_at s x \<noteq> sock" if "map_option socket (client_heap s x) \<noteq> Some sock" "x \<in> set as" for x
  proof -
    note x = that
    obtain c where "client_heap s x = Some c" by (rule clients_at_node [OF assms x(2)])
    with x(1) show ?thesis by (simp add: socket_at_def)
  qed
  from ch show thesis
  proof (cases rule: client_walk_chain [where sock = sock])
    case (found xs a ys c)
    with ch have "a \<noteq> NULL" by simp
    with found h sock show ?thesis
      by (intro that(1) [of xs a ys]) (auto simp: search_client_def socket_at_def)
  next
    case missing
    with h sock show ?thesis by (intro that(2)) (auto simp: search_client_def)
  qed
qed

lemma remove_client_found:
  assumes l: "clients_at s (xs @ a # ys)" and search: "search_client sock s = Some a"
  obtains s' where "remove_client sock s = Some (1, s')" "clients_at s' (xs @ ys)" "client_heap s' a = None"
    "\<And>b. b \<in> set (xs @ ys) \<Longrightarrow> clients.carried (client_heap s') b = clients.carried (client_heap s) b"
    "\<And>b. b \<notin> set (xs @ a # ys) \<Longrightarrow> client_heap s' b = client_heap s b"
proof -
  let ?h = "client_heap s"
  have links: "linked (clients.view ?h) (clients_head s) (clients_tail s) (xs @ a # ys)"
    using l by (simp add: clients_at_def)
  obtain c where c: "?h a = Some c" "a \<noteq> NULL" by (rule clients_at_node [OF l, of a]) simp_all
  let ?p = "client_prev c" and ?q = "client_next c"
  obtain h1 h2 where u: "(if ?p \<noteq> NULL then write_at (\<lambda>n. n\<lparr>client_next := ?q\<rparr>) ?h ?p else Some ?h) = Some h1" "h1 a = Some c"
    "(if ?q \<noteq> NULL then write_at (\<lambda>n. n\<lparr>client_prev := ?p\<rparr>) h1 ?q else Some h1) = Some h2"
    "linked (clients.view h2) (if ?p \<noteq> NULL then clients_head s else ?q) (if ?q \<noteq> NULL then clients_tail s else ?p) (xs @ ys)"
    "clients.carried h2 = clients.carried ?h" "\<And>b. b \<notin> set (xs @ ys) \<Longrightarrow> h2 b = ?h b"
    by (rule clients.unlink_node [OF links c(1)]) (rule that)
  let ?s = "s\<lparr>client_heap := h2(a := None), clients_head := (if ?p \<noteq> NULL then clients_head s else ?q),
    clients_tail := (if ?q \<noteq> NULL then clients_tail s else ?p)\<rparr>"
  have dist: "distinct (xs @ a # ys)" using links by (simp add: linked_def)
  show thesis
  proof (rule that [of ?s])
    show "remove_client sock s = Some (1, ?s)"
      unfolding remove_client_def search
      using u(1-3) c by (cases "?p = NULL"; cases "?q = NULL") (simp_all add: load_at_def)
    have "linked (clients.view (h2(a := None))) (clients_head ?s) (clients_tail ?s) (xs @ ys)"
      by (rule linked_frame [of "clients.view h2"]) (use u(4) dist in \<open>auto simp: clients.view_def\<close>)
    then show "clients_at ?s (xs @ ys)" by (simp add: clients_at_def)
    show "clients.carried (client_heap ?s) b = clients.carried (client_heap s) b" if "b \<in> set (xs @ ys)" for b
    proof -
      have "b \<noteq> a" using that dist by auto
      then show ?thesis using fun_cong [OF u(5), of b] by (simp add: clients.carried_def)
    qed
  qed (use u(6) in auto)
qed

lemma remove_client_missing:
  assumes "clients_at s as" "\<And>x. x \<in> set as \<Longrightarrow> socket_at s x \<noteq> sock"
  shows "remove_client sock s = Some (0, s)"
  using assms(1) by (cases rule: search_client_cases [where sock = sock])
    (use assms(2) in \<open>auto simp: remove_client_def\<close>)

lemma remove_dead_ok:
  assumes "clients_at s as"
  obtains s' where "remove_dead s = Some s'" "clients_at s' (filter (\<lambda>a. socket_at s a \<noteq> -1) as)"
    "\<And>a. a \<in> set as \<Longrightarrow> socket_at s a \<noteq> -1 \<Longrightarrow> socket_at s' a = socket_at s a"
    "\<And>a. a \<in> set as \<Longrightarrow> socket_at s a = -1 \<Longrightarrow> client_heap s' a = None"
    "\<And>a. a \<notin> set as \<Longrightarrow> client_heap s' a = client_heap s a"
    "\<And>a. a \<in> set as \<Longrightarrow> socket_at s a \<noteq> -1 \<Longrightarrow>
      clients.carried (client_heap s') a = clients.carried (client_heap s) a"
  using assms
proof (induction "length as" arbitrary: s as thesis rule: less_induct)
  case less
  from less.prems(2) show ?case
  proof (cases rule: search_client_cases [where sock = "-1"])
    case missing
    then have "remove_client (-1) s = Some (0, s)" by (simp add: remove_client_def)
    then have "remove_dead s = Some s" by (subst remove_dead.simps) simp
    moreover have "filter (\<lambda>a. socket_at s a \<noteq> -1) as = as" using missing by simp
    ultimately show ?thesis using less.prems(2) missing by (intro less.prems(1) [of s]) auto
  next
    case (found xs a ys)
    obtain s1 where s1: "remove_client (-1) s = Some (1, s1)" "clients_at s1 (xs @ ys)" "client_heap s1 a = None"
      "\<And>b. b \<in> set (xs @ ys) \<Longrightarrow> clients.carried (client_heap s1) b = clients.carried (client_heap s) b"
      "\<And>b. b \<notin> set (xs @ a # ys) \<Longrightarrow> client_heap s1 b = client_heap s b"
      by (rule remove_client_found [OF less.prems(2) [unfolded found(1)] found(2)]) (rule that)
    have sock1: "socket_at s1 b = socket_at s b" if "b \<in> set (xs @ ys)" for b
      by (rule socket_at_carried [OF s1(4) [OF that]])
    have step: "remove_dead s = remove_dead s1" by (subst remove_dead.simps) (simp add: s1(1))
    obtain s' where s': "remove_dead s1 = Some s'" "clients_at s' (filter (\<lambda>a. socket_at s1 a \<noteq> -1) (xs @ ys))"
      "\<And>b. b \<in> set (xs @ ys) \<Longrightarrow> socket_at s1 b \<noteq> -1 \<Longrightarrow> socket_at s' b = socket_at s1 b"
      "\<And>b. b \<in> set (xs @ ys) \<Longrightarrow> socket_at s1 b = -1 \<Longrightarrow> client_heap s' b = None"
      "\<And>b. b \<notin> set (xs @ ys) \<Longrightarrow> client_heap s' b = client_heap s1 b"
      "\<And>b. b \<in> set (xs @ ys) \<Longrightarrow> socket_at s1 b \<noteq> -1 \<Longrightarrow>
        clients.carried (client_heap s') b = clients.carried (client_heap s1) b"
      by (rule less.hyps [of "xs @ ys" s1]) (use found(1) s1(2) in auto)
    have "distinct as" using less.prems(2) by (simp add: clients_at_def linked_def)
    then have a: "a \<notin> set (xs @ ys)" by (auto simp: found(1))
    have "filter (\<lambda>a. socket_at s1 a \<noteq> -1) (xs @ ys) = filter (\<lambda>a. socket_at s a \<noteq> -1) (xs @ ys)"
      by (rule filter_cong) (auto simp: sock1)
    then have flt: "filter (\<lambda>a. socket_at s1 a \<noteq> -1) (xs @ ys) = filter (\<lambda>a. socket_at s a \<noteq> -1) as"
      using found(1,4) by simp
    show ?thesis
    proof (rule less.prems(1) [of s'])
      show "remove_dead s = Some s'" using step s'(1) by simp
      show "clients_at s' (filter (\<lambda>a. socket_at s a \<noteq> -1) as)" using s'(2) flt by simp
      show "socket_at s' b = socket_at s b" if "b \<in> set as" "socket_at s b \<noteq> -1" for b
        using that s'(3) [of b] sock1 [of b] found(1,4) by auto
      show "client_heap s' b = None" if "b \<in> set as" "socket_at s b = -1" for b
        using that s'(4) [of b] s'(5) [of a] s1(3) sock1 [of b] found(1) a by auto
      show "client_heap s' b = client_heap s b" if "b \<notin> set as" for b
        using that s'(5) [of b] s1(5) [of b] found(1) by auto
      show "clients.carried (client_heap s') b = clients.carried (client_heap s) b"
        if "b \<in> set as" "socket_at s b \<noteq> -1" for b
        using that s'(6) [of b] s1(4) [of b] sock1 [of b] found(1,4) by auto
    qed
  qed
qed

section \<open>Serving the ready clients\<close>

text \<open>No handler touches the links of a client.\<close>

definition same_links :: "client \<Rightarrow> client \<Rightarrow> bool" where
  "same_links c c' \<longleftrightarrow> client_prev c' = client_prev c \<and> client_next c' = client_next c"

lemma same_links_finish: "finish_client c w = (c', w') \<Longrightarrow> same_links c c'"
  "fail_client c w = (c', w') \<Longrightarrow> same_links c c'"
  by (auto simp: finish_client_def fail_client_def same_links_def)

lemma same_links_switch: "switch_state L filename protocol c w = Some (c', w') \<Longrightarrow> same_links c c'"
  by (auto simp: switch_state_def same_links_def Let_def split: Option.bind_splits if_splits prod.splits)

lemma same_links_trans: "same_links c c1 \<Longrightarrow> same_links c1 c2 \<Longrightarrow> same_links c c2"
  by (simp add: same_links_def)

lemma same_links_end:
  assumes "header_end (c\<lparr>client_buffer := b, nread := n\<rparr>) = Some c'"
  shows "same_links c c'"
  using assms by (auto simp: header_end_def same_links_def split: Option.bind_splits)

lemma same_links_reading:
  assumes "continue_reading_request L c w = Some (c', w')"
  shows "same_links c c'"
  using assms unfolding continue_reading_request_def Let_def
  by (auto split: prod.splits if_splits Option.bind_splits
      dest!: same_links_switch same_links_finish same_links_end intro: same_links_trans)

lemma same_links_sending:
  assumes "continue_sending_reply c w = Some (c', w')"
  shows "same_links c c'"
  using assms unfolding continue_sending_reply_def Let_def
  by (auto simp: same_links_def fail_client_def finish_client_def split: prod.splits if_splits Option.bind_splits)

lemma same_links_handle: "handle_client L c w = Some (c', w') \<Longrightarrow> same_links c c'"
  by (auto simp: handle_client_def dest: same_links_reading same_links_sending split: if_splits)
    (simp add: same_links_def)

text \<open>The loop handles each ready client once, in the order of the list.\<close>

fun serve_list :: "lib \<Rightarrow> fd_set \<Rightarrow> fd_set \<Rightarrow> ptr list \<Rightarrow> (ptr \<rightharpoonup> client) \<Rightarrow> io_state \<Rightarrow> ((ptr \<rightharpoonup> client) \<times> io_state) option" where
  "serve_list L rs ws [] h w = Some (h, w)"
| "serve_list L rs ws (a # as) h w =
     do {
       c \<leftarrow> h a;
       (c, w) \<leftarrow> handle_if_ready L rs ws c w;
       serve_list L rs ws as (h(a \<mapsto> c)) w
     }"

lemma view_same_links:
  assumes "h a = Some c" "same_links c c'"
  shows "clients.view (h(a \<mapsto> c')) = clients.view h"
  using assms by (auto simp: clients.view_def same_links_def)

lemma same_links_if_ready: "handle_if_ready L rs ws c w = Some (c', w') \<Longrightarrow> same_links c c'"
  by (auto simp: handle_if_ready_def same_links_def split: if_splits Option.bind_splits dest: same_links_handle)

lemma handle_ready_chain:
  assumes "chain (clients.view (client_heap s)) p as NULL"
  shows "handle_ready L rs ws (first_of as NULL) s w =
    map_option (\<lambda>(h, w). (s\<lparr>client_heap := h\<rparr>, w)) (serve_list L rs ws as (client_heap s) w)"
  using assms
proof (induction as arbitrary: p s w)
  case Nil
  show ?case by (subst handle_ready.simps) simp
next
  case (Cons a as)
  from Cons.prems have ch: "chain (clients.view (client_heap s)) a as NULL" and a: "a \<noteq> NULL"
    and v: "clients.view (client_heap s) a = Some (p, first_of as NULL)" by simp_all
  from v obtain c where c: "client_heap s a = Some c" "client_next c = first_of as NULL"
    by (auto simp: clients.view_def)
  let ?r = "handle_if_ready L rs ws c w"
  have step: "handle_ready L rs ws a s w =
      ?r \<bind> (\<lambda>(c', w'). handle_ready L rs ws (client_next c') (s\<lparr>client_heap := (client_heap s)(a \<mapsto> c')\<rparr>) w')"
    using a c(1) by (subst handle_ready.simps) (simp add: load_at_def case_prod_beta)
  show ?case
  proof (cases ?r)
    case None
    with step c(1) show ?thesis by simp
  next
    case (Some r)
    obtain c' w' where r: "r = (c', w')" by fastforce
    with Some have run: "?r = Some (c', w')" by simp
    then have same: "same_links c c'" by (rule same_links_if_ready)
    let ?s = "s\<lparr>client_heap := (client_heap s)(a \<mapsto> c')\<rparr>"
    have "chain (clients.view (client_heap ?s)) a as NULL"
      using ch view_same_links [of "client_heap s" a c c', OF c(1) same] by simp
    note IH = Cons.IH [OF this, of w']
    have "client_next c' = first_of as NULL" using same c(2) by (simp add: same_links_def)
    with step run have 1: "handle_ready L rs ws a s w = handle_ready L rs ws (first_of as NULL) ?s w'"
      by (simp only: bind.bind_lunit prod.case)
    have 2: "serve_list L rs ws (a # as) (client_heap s) w = serve_list L rs ws as (client_heap ?s) w'"
      using c(1) run by (simp only: serve_list.simps bind.bind_lunit prod.case) simp
    show ?thesis unfolding first_of_simps 1 2 IH by simp
  qed
qed

lemma serve_list_links:
  assumes "serve_list L rs ws as h w = Some (h', w')" "linked (clients.view h) x y bs"
  shows "linked (clients.view h') x y bs"
  using assms
proof (induction as arbitrary: h w)
  case (Cons a as)
  from Cons.prems(1) obtain c c1 w1 where c: "h a = Some c"
    "handle_if_ready L rs ws c w = Some (c1, w1)"
    "serve_list L rs ws as (h(a \<mapsto> c1)) w1 = Some (h', w')"
    by (auto split: Option.bind_splits)
  from c(2) have "same_links c c1" by (rule same_links_if_ready)
  from Cons.IH [OF c(3)] view_same_links [of h a c c1, OF c(1) this] Cons.prems(2) show ?case by (simp only:)
qed simp

end
