(* ===== verification/Client_Properties.thy ===== *)
theory Client_Properties imports Client_List begin

text \<open>
  The properties of the web servers of \<open>HW1-skeleton\<close>: what a connection gets, in the
  blocking version and in the state machine, and how the list of clients evolves.
\<close>

section \<open>A concrete connection\<close>

text \<open>A header is complete at its first newline, and names the file \<open>f\<close>.\<close>
definition sample_lib :: lib where
  "sample_lib = \<lparr>header_complete = (\<lambda>bs. 10 \<in> set bs), get_filename = (\<lambda>bs. (if hd bs = 63 then -1 else 0, [102], [])),
     get_200 = (\<lambda>f p n. [50, 48, 48]), get_403 = (\<lambda>f p. [52, 48, 51]), get_404 = (\<lambda>f p. [52, 48, 52]),
     get_peer_information = (\<lambda>fd. ([108, 111], 40000))\<rparr>"

text \<open>The request arrives in two pieces; writes on descriptor 5 take 2 bytes, then 1, then any number.\<close>
definition sample_io :: io_state where
  "sample_io = \<lparr>reads = (\<lambda>_. [Some [71], Some [10]]), write_limits = (\<lambda>_. [2, 1]), sent = (\<lambda>_. []), closed = [],
     files = [[102] \<mapsto> (True, [7, 8, 9])], streams = Map.empty, next_stream = 0, operations_completed = 0,
     nonblocking = [], dispositions = (\<lambda>_. SIG_DFL), messages = []\<rparr>"

definition sample_client :: client where
  "sample_client = make_client (\<lambda>_. 0) 5"

lemma received_empty: "nread c = 0 \<Longrightarrow> received c [] = c"
  by (cases c) (simp add: received_def store_bytes_def)

lemma sample_pieces: "pieces_of_header sample_lib [] [[71], [10]]"
  by (auto simp: pieces_of_header_def sample_lib_def less_Suc_eq)

section \<open>From the request to the reply\<close>

text \<open>What \<open>switch_state\<close> prepares for a readable file.\<close>

lemma switch_state_readable:
  assumes "files w filename = Some (True, data)"
    and "reply = cstring (get_200 L filename protocol (sint (of_nat (length data) :: 32 word)))"
    and "length reply < BUFFER_SIZE"
  obtains c' w' where "switch_state L filename protocol c w = Some (c', w')" "in_buffer c'" "pending c' = reply"
    "client_state c' = E_SEND_REPLY" "socket c' = socket c" "client_status c' = client_status c"
    "client_file c' = Suc (next_stream w)" "w' = w\<lparr>streams := (streams w)(Suc (next_stream w) \<mapsto> data),
      next_stream := Suc (next_stream w)\<rparr>"
proof -
  let ?f = "Suc (next_stream w)"
  let ?w = "w\<lparr>streams := (streams w)(?f \<mapsto> data), next_stream := ?f\<rparr>"
  let ?c = "c\<lparr>client_file := ?f, client_buffer := store_bytes (client_buffer c) 0 (reply @ [0]),
    ntowrite := int (length reply), nwritten := 0, client_state := E_SEND_REPLY\<rparr>"
  have "switch_state L filename protocol c w = Some (?c, ?w)"
    using assms by (simp add: switch_state_def sys_access_def sys_fopen_def obtain_file_size_def Let_def)
  moreover have "pending ?c = reply"
    using take_fetch [of "length reply" "store_bytes (client_buffer c) 0 (reply @ [0])" 0 "length (reply @ [0])"]
    by (simp only: fetch_store) (simp add: pending_def min_def)
  ultimately show thesis
    using assms(3) by (intro that [of ?c ?w]) (simp_all add: in_buffer_def)
qed

text \<open>
  C7: A connection of the state machine whose request arrives in any number of pieces, and
  whose writes are accepted in pieces of any positive size, is served completely: after
  finitely many calls of its handler exactly the response header followed by the whole file
  has been sent on its socket, the socket is closed once, and one more operation is counted.
\<close>
theorem state_machine_serves_file:
  assumes c: "c = make_client junk sock" and sock: "willing w sock"
    and req: "pieces_of_header L [] pieces" "reads w sock = map Some pieces @ cs" "length (concat pieces) < BUFFER_SIZE"
    and name: "get_filename L (concat pieces) = (r, filename, protocol)" "r \<noteq> -1"
    and data: "files w filename = Some (True, data)"
    and reply: "reply = cstring (get_200 L filename protocol (sint (of_nat (length data) :: 32 word)))"
      "length reply < BUFFER_SIZE"
  shows "\<exists>n c' w'. drive n L c w = Some (c', w') \<and> socket c' = -1 \<and>
    sent w' sock = sent w sock @ reply @ data \<and> closed w' = closed w @ [sock] \<and>
    operations_completed w' = operations_completed w + 1"
proof -
  have fields: "socket c = sock" "client_state c = E_RECV_REQUEST" "client_status c = STATUS_OK" "received c [] = c"
    using c by (simp_all add: make_client_def received_empty)
  have sock0: "0 \<le> socket c" using sock fields(1) by (simp add: willing_def)
  let ?c1 = "received c (concat pieces)" and ?w1 = "after_reads w sock cs"
  have files1: "files ?w1 filename = Some (True, data)" using data by (simp add: after_reads_def)
  obtain c2 w2 where s: "switch_state L filename protocol ?c1 ?w1 = Some (c2, w2)" "in_buffer c2" "pending c2 = reply"
    "client_state c2 = E_SEND_REPLY" "socket c2 = socket ?c1" "client_status c2 = client_status ?c1"
    "client_file c2 = Suc (next_stream ?w1)" "w2 = ?w1\<lparr>streams := (streams ?w1)(Suc (next_stream ?w1) \<mapsto> data),
      next_stream := Suc (next_stream ?w1)\<rparr>"
    by (rule switch_state_readable [OF files1 reply, where c = ?c1]) (rule that)
  have "map_option (\<lambda>(c, w). (1, c, w)) (drive (length pieces) L c w) = dispatch L ?c1 (concat pieces) ?w1"
    using drive_pieces [of L "[]" pieces c w cs] req name fields sock0 by simp
  then have first: "drive (length pieces) L c w = Some (c2, w2)"
    using name s(1) by (auto simp: dispatch_def)
  have rest: "file_rest c2 w2 = Some data" by (simp add: file_rest_def s(7,8))
  have will: "willing w2 (socket c2)" using sock fields(1) by (simp add: s(5,8) after_reads_def willing_def)
  from drive_reply [OF will s(2,4) rest] obtain n c' w' where
    n: "drive n L c2 w2 = Some (c', w')" "served_fully c2 w2 (pending c2 @ data) c' w'" by blast
  have w2: "sent w2 = sent w" "closed w2 = closed w" "operations_completed w2 = operations_completed w"
    by (simp_all add: s(8) after_reads_def)
  show ?thesis
  proof (intro exI conjI)
    show "drive (length pieces + n) L c w = Some (c', w')" by (rule drive_add [OF first n(1)])
  qed (use n(2) s(3,5,6) fields w2 in \<open>simp_all add: served_fully_def\<close>)
qed

theorem state_machine_serves_file_witness:
  "\<exists>n c' w'. drive n sample_lib sample_client sample_io = Some (c', w') \<and> sent w' 5 = [50, 48, 48, 7, 8, 9] \<and>
    closed w' = [5]"
proof -
  have "willing sample_io 5" by (simp add: willing_def sample_io_def)
  moreover have "reads sample_io 5 = map Some [[71], [10]] @ []" "files sample_io [102] = Some (True, [7, 8, 9])"
    "sent sample_io 5 = []" "closed sample_io = []"
    by (simp_all add: sample_io_def)
  moreover have "length [50 :: u8, 48, 48] < 4096" by simp
  moreover have "get_filename sample_lib (concat [[71], [10]]) = (0, [102], [])"
    "[50, 48, 48] = cstring (get_200 sample_lib [102] [] (sint (of_nat (length [7 :: u8, 8, 9]) :: 32 word)))"
    by (simp_all add: sample_lib_def cstring_def)
  ultimately have "\<exists>n c' w'. drive n sample_lib sample_client sample_io = Some (c', w') \<and> socket c' = -1 \<and>
      sent w' 5 = sent sample_io 5 @ [50, 48, 48] @ [7, 8, 9] \<and> closed w' = closed sample_io @ [5] \<and>
      operations_completed w' = operations_completed sample_io + 1"
    by (intro state_machine_serves_file [OF sample_client_def _ sample_pieces]) (assumption | simp only: | simp)+
  then show ?thesis by (auto simp: sample_io_def)
qed

text \<open>
  The blocking version sends the same bytes: \<open>write_reply\<close> returns 1 after the pending
  header and then the whole file went out, whatever the sizes of the writes, and closes
  the file; but it leaves the socket open, although its comments promise \<open>finish\<close>.
\<close>
lemma write_reply_sends_file:
  assumes "willing w (socket c)" "in_buffer c" "file_rest c w = Some data"
  shows "\<exists>c' w'. write_reply c w = Some (1, c', w') \<and>
    sent w' = (sent w)(socket c := sent w (socket c) @ pending c @ data) \<and>
    (client_file c \<noteq> NULL \<longrightarrow> streams w' (client_file c) = None) \<and>
    socket c' = socket c \<and> closed w' = closed w"
proof -
  obtain c' w' where "write_reply c w = Some (1, c', w')" "same_client c c'" "ntowrite c' = 0"
    "sent w' = (sent w)(socket c := sent w (socket c) @ pending c @ data)" "closed w' = closed w"
    "operations_completed w' = operations_completed w"
    "client_file c \<noteq> NULL \<Longrightarrow> streams w' (client_file c) = None"
    by (rule write_reply_ok [OF assms]) (rule that)
  then show ?thesis by (auto simp: same_client_def)
qed

text \<open>A client about to send three bytes and then the file.\<close>
definition sending_client :: client where
  "sending_client = sample_client\<lparr>client_state := E_SEND_REPLY, client_file := 1, ntowrite := 3,
     client_buffer := (\<lambda>i. of_nat (i + 1))\<rparr>"

definition sending_io :: io_state where
  "sending_io = sample_io\<lparr>streams := [1 \<mapsto> [7, 8, 9]], next_stream := 1\<rparr>"

lemma sending: "willing sending_io (socket sending_client)" "in_buffer sending_client"
  "file_rest sending_client sending_io = Some [7, 8, 9]" "pending sending_client = [1, 2, 3]"
  "client_state sending_client = E_SEND_REPLY"
  by (simp_all add: sending_client_def sending_io_def sample_io_def sample_client_def make_client_def
      willing_def in_buffer_def file_rest_def pending_def fetch_bytes_def upt_rec)

lemma write_reply_sends_file_example:
  "\<exists>c' w'. write_reply sending_client sending_io = Some (1, c', w') \<and> sent w' 5 = [1, 2, 3, 7, 8, 9] \<and> closed w' = []"
  using write_reply_sends_file [OF sending(1-3)] sending(4)
  by (auto simp: sending_io_def sending_client_def sample_client_def make_client_def sample_io_def)

text \<open>
  C12: The blocking reply and the step-by-step reply put the same bytes on every socket;
  they differ in that only the state machine closes the connection and counts it.
\<close>
theorem reply_versions_agree:
  assumes "willing w (socket c)" "in_buffer c" "client_state c = E_SEND_REPLY" "file_rest c w = Some data"
  shows "\<exists>n c1 w1 c2 w2. write_reply c w = Some (1, c1, w1) \<and> drive n L c w = Some (c2, w2) \<and>
    sent w1 = sent w2 \<and> closed w2 = closed w1 @ [socket c] \<and> socket c1 = socket c \<and> socket c2 = -1 \<and>
    operations_completed w1 = operations_completed w \<and>
    operations_completed w2 = operations_completed w + (if client_status c = STATUS_OK then 1 else 0)"
proof -
  obtain c1 w1 where 1: "write_reply c w = Some (1, c1, w1)" "same_client c c1" "ntowrite c1 = 0"
    "sent w1 = (sent w)(socket c := sent w (socket c) @ pending c @ data)" "closed w1 = closed w"
    "operations_completed w1 = operations_completed w"
    "client_file c \<noteq> NULL \<Longrightarrow> streams w1 (client_file c) = None"
    by (rule write_reply_ok [OF assms(1,2,4)]) (rule that)
  from drive_reply [OF assms, of L] obtain n c2 w2 where
    2: "drive n L c w = Some (c2, w2)" "served_fully c w (pending c @ data) c2 w2" by blast
  show ?thesis
    by (intro exI conjI, rule 1(1), rule 2(1)) (use 1 2(2) in \<open>simp_all add: same_client_def served_fully_def\<close>)
qed

theorem reply_versions_agree_witness:
  "\<exists>n c1 w1 c2 w2. write_reply sending_client sending_io = Some (1, c1, w1) \<and>
    drive n sample_lib sending_client sending_io = Some (c2, w2) \<and> sent w1 = sent w2 \<and> closed w1 = [] \<and> closed w2 = [5]"
proof -
  have "socket sending_client = 5" "closed sending_io = []"
    by (simp_all add: sending_client_def sending_io_def sample_client_def make_client_def sample_io_def)
  moreover from reply_versions_agree [OF sending(1,2,5,3), of sample_lib] obtain n c1 w1 c2 w2 where
    r: "write_reply sending_client sending_io = Some (1, c1, w1)"
    "drive n sample_lib sending_client sending_io = Some (c2, w2)"
    "sent w1 = sent w2" "closed w2 = closed w1 @ [socket sending_client]" by blast
  moreover obtain c' w' where "write_reply sending_client sending_io = Some (1, c', w')"
    "closed w' = closed sending_io"
    by (rule write_reply_ok [OF sending(1-3)])
  ultimately have "closed w1 = []" "closed w2 = [5]" by simp_all
  with r show ?thesis by blast
qed

section \<open>Requests\<close>

text \<open>
  A request that arrives in any number of non-empty pieces is put together in the buffer,
  and the blocking version acts on the whole of it exactly when the header is complete: it
  prepares the reply and returns 1, or closes the connection with a bad status and returns
  0 when the header cannot be parsed. Whenever the header can be parsed, the state machine
  reaches the same state by one handler call per piece.
\<close>
lemma request_reassembled:
  assumes "pieces_of_header L [] pieces" "0 \<le> socket c" "reads w (socket c) = map Some pieces @ cs"
    and "length (concat pieces) < BUFFER_SIZE" "nread c = 0" "client_state c = E_RECV_REQUEST"
  shows "read_request L c w =
      dispatch L (received c (concat pieces)) (concat pieces) (after_reads w (socket c) cs) \<and>
    (fst (get_filename L (concat pieces)) \<noteq> -1 \<longrightarrow>
      read_request L c w = map_option (\<lambda>(c, w). (1, c, w)) (drive (length pieces) L c w))"
  using read_request_pieces [of L "[]" pieces c w cs] drive_pieces [of L "[]" pieces c w cs] assms
  by (simp add: received_empty)

lemma request_reassembled_example:
  "\<exists>c w. read_request sample_lib sample_client sample_io = Some (1, c, w) \<and>
    drive 2 sample_lib sample_client sample_io = Some (c, w)"
proof -
  let ?c1 = "received sample_client [71, 10]" and ?w1 = "after_reads sample_io 5 []"
  have "0 \<le> socket sample_client" "socket sample_client = 5" "nread sample_client = 0" "client_state sample_client = E_RECV_REQUEST"
    by (simp_all add: sample_client_def make_client_def)
  moreover have "reads sample_io 5 = map Some [[71], [10]] @ []" "get_filename sample_lib [71, 10] = (0, [102], [])"
    by (simp_all add: sample_io_def sample_lib_def)
  ultimately have r: "read_request sample_lib sample_client sample_io = dispatch sample_lib ?c1 [71, 10] ?w1"
    "read_request sample_lib sample_client sample_io = map_option (\<lambda>(c, w). (1, c, w)) (drive 2 sample_lib sample_client sample_io)"
    using request_reassembled [OF sample_pieces, of sample_client sample_io "[]"] by (auto simp: numeral_2_eq_2 simp del: drive.simps)
  have files1: "files ?w1 [102] = Some (True, [7, 8, 9])" by (simp add: after_reads_def sample_io_def)
  obtain c2 w2 where "switch_state sample_lib [102] [] ?c1 ?w1 = Some (c2, w2)"
    by (rule switch_state_readable [OF files1 refl, where L = sample_lib and c = ?c1 and protocol = "[]"])
      (simp add: sample_lib_def cstring_def)
  then have "dispatch sample_lib ?c1 [71, 10] ?w1 = Some (1, c2, w2)"
    using \<open>get_filename sample_lib [71, 10] = (0, [102], [])\<close> by (simp add: dispatch_def)
  with r show ?thesis by auto
qed

text \<open>
  When the header cannot be parsed, the two versions differ: the blocking version leaves a
  closed client with a bad status, but the handler of the state machine is undefined, as it
  goes on with a file name that nobody has written.
\<close>
lemma malformed_header_undefined:
  assumes "0 \<le> socket c" "nread c = 0" "client_state c = E_RECV_REQUEST" "reads w (socket c) = Some req # cs"
    and "req \<noteq> []" "length req < BUFFER_SIZE" "header_complete L req" "get_filename L req = (-1, filename, protocol)"
  shows "handle_client L c w = None \<and>
    (\<exists>c1 w1. read_request L c w = Some (0, c1, w1) \<and> client_status c1 = STATUS_BAD \<and> socket c1 = -1)"
proof -
  have pieces: "pieces_of_header L [] [req]" using assms(5,7) by (simp add: pieces_of_header_def)
  let ?w = "after_reads w (socket c) cs"
  have 1: "read_request L c w = Some (0, fail_client (received c req) ?w)"
    using read_request_pieces [OF pieces assms(1), of w cs] assms(2,4,6,8) by (simp add: received_empty dispatch_def)
  have rd: "sys_read (socket c) 4095 w = (int (length req), req, ?w)"
    using assms(1,4,6) by (intro sys_read_chunk) simp_all
  have end_ok: "header_end (c\<lparr>client_buffer := store_bytes (client_buffer c) 0 req, nread := int (length req)\<rparr>) \<noteq> None"
    using assms(6) by (simp add: header_end_def)
  have fb: "fetch_bytes (store_bytes (client_buffer c) 0 req) 0 (length req) = req" by simp
  have "handle_client L c w = None"
    using assms(2,3,5,7,8) rd end_ok by (auto simp: handle_client_def continue_reading_request_def Let_def fb)
  with 1 show ?thesis by (simp add: fail_client_def finish_client_def)
qed

lemma malformed_header_undefined_example:
  "handle_client sample_lib sample_client (sample_io\<lparr>reads := (\<lambda>_. [Some [63, 10]])\<rparr>) = None"
  using malformed_header_undefined [of sample_client "sample_io\<lparr>reads := (\<lambda>_. [Some [63, 10]])\<rparr>"
      "[63, 10]" "[]" sample_lib "[102]" "[]"]
  by (simp add: sample_client_def make_client_def sample_lib_def)

text \<open>
  A request of 4096 bytes without the end of its header fills the buffer of the blocking
  version, and the null character behind it is written outside.
\<close>
lemma long_request_undefined:
  assumes "0 \<le> socket c" "nread c = 0" "reads w (socket c) = Some req # cs" "length req = BUFFER_SIZE"
  shows "read_request L c w = None"
proof -
  have "sys_read (socket c) 4096 w = (4096, req, after_reads w (socket c) cs)"
    using sys_read_chunk [OF assms(1,3), of 4096] assms(4) by simp
  with assms(2) show ?thesis by (subst read_request.simps) (simp add: header_end_def Let_def)
qed

lemma long_request_undefined_example:
  "read_request sample_lib sample_client (sample_io\<lparr>reads := (\<lambda>_. [Some (replicate 4096 65)])\<rparr>) = None"
  by (rule long_request_undefined [where cs = "[]" and req = "replicate 4096 65"])
    (simp_all add: sample_client_def make_client_def)

text \<open>
  When the connection breaks, both versions close it exactly once: if the first write
  of the reply fails, \<open>write_reply\<close> returns 0 with a bad status and a closed socket, and the
  handler does the same, with nothing more sent.
\<close>
lemma write_error_closes:
  assumes "0 \<le> socket c" "in_buffer c" "0 < ntowrite c" "client_state c = E_SEND_REPLY"
    and "write_limits w (socket c) = -1 # ls"
  shows "\<exists>c1 c2 w'. write_reply c w = Some (0, c1, w') \<and> handle_client L c w = Some (c2, w') \<and>
    client_status c1 = STATUS_BAD \<and> client_status c2 = STATUS_BAD \<and> socket c1 = -1 \<and> socket c2 = -1 \<and>
    sent w' = sent w \<and> closed w' = closed w @ [socket c]"
proof -
  let ?w = "w\<lparr>write_limits := (write_limits w)(socket c := ls)\<rparr>"
  have wr: "sys_write (socket c) (pending c) w = (-1, ?w)"
    using assms(1,5) by (simp add: sys_write_def Let_def)
  have "flush_buffer c w = Some (0, c, ?w)"
    using assms(2,3) wr by (subst flush_buffer.simps) simp
  then have "write_reply c w = Some (0, fail_client c ?w)" by (simp add: write_reply_def)
  moreover have "handle_client L c w = (case fail_client c ?w of (c', w') \<Rightarrow>
      Some (c'\<lparr>nwritten := nwritten c' - 1, ntowrite := ntowrite c' + 1\<rparr>, w'))"
    using assms(2,3,4) wr by (simp add: handle_client_def continue_sending_reply_def)
  ultimately show ?thesis by (simp add: fail_client_def finish_client_def sys_close_def)
qed

lemma write_error_closes_example:
  "\<exists>c1 w'. write_reply sending_client (sending_io\<lparr>write_limits := (\<lambda>_. [-1])\<rparr>) = Some (0, c1, w') \<and>
    client_status c1 = STATUS_BAD \<and> closed w' = [5]"
proof -
  have "socket sending_client = 5" "0 < ntowrite sending_client" "closed sending_io = []"
    by (simp_all add: sending_client_def sample_client_def make_client_def sending_io_def sample_io_def)
  with write_error_closes [of sending_client "sending_io\<lparr>write_limits := (\<lambda>_. [-1])\<rparr>" "[]" sample_lib] sending(2,5)
  show ?thesis by auto
qed

section \<open>The list of clients\<close>

definition no_clients :: server_state where
  "no_clients = init \<lparr>client_heap = Map.empty, clients_head = 0, clients_tail = 0\<rparr>"

lemma no_clients: "clients_at no_clients []" "client_heap no_clients = Map.empty"
  by (simp_all add: clients_at_def no_clients_def init_def)

text \<open>
  Accepting a connection puts its client in front of the list and leaves the other
  clients and their sockets as they are; when memory is exhausted nothing changes and the
  result is 0.
\<close>
lemma insert_client_prepends:
  assumes "clients_at s as" "new_client \<noteq> NULL" "client_heap s new_client = None"
  shows "\<exists>s'. insert_client new_client junk sock s = Some (1, s') \<and> clients_at s' (new_client # as) \<and>
    socket_at s' new_client = sock \<and> (\<forall>a \<in> set as. socket_at s' a = socket_at s a) \<and>
    insert_client NULL junk sock s = Some (0, s)"
proof -
  obtain s' where "insert_client new_client junk sock s = Some (1, s')" "clients_at s' (new_client # as)"
    "socket_at s' new_client = sock" "\<And>a. a \<in> set as \<Longrightarrow> socket_at s' a = socket_at s a"
    by (rule insert_client_ok [OF assms, where junk = junk and sock = sock]) (rule that)
  then show ?thesis by (auto simp: insert_client_def)
qed

lemma two_clients_with:
  obtains s where "clients_at s [200, 100]" "socket_at s 100 = x" "socket_at s 200 = y"
proof -
  obtain s1 where s1: "clients_at s1 [100]" "socket_at s1 100 = x" "dom (client_heap s1) = {100}"
    by (rule insert_client_ok [OF no_clients(1), of 100, where junk = "\<lambda>_. 0" and sock = x])
      (auto simp: no_clients(2) dom_def)
  then have "200 \<notin> dom (client_heap s1)" by simp
  then have "client_heap s1 200 = None" by (simp add: domIff)
  then obtain s2 where "clients_at s2 [200, 100]" "socket_at s2 200 = y" "\<And>a. a \<in> set [100] \<Longrightarrow> socket_at s2 a = socket_at s1 a"
    by (rule insert_client_ok [OF s1(1), of 200, where junk = "\<lambda>_. 0" and sock = y, rotated]) simp_all
  with s1(2) that show thesis by auto
qed

lemma two_clients:
  obtains s where "clients_at s [200, 100]" "socket_at s 100 = -1" "socket_at s 200 = 6"
  by (rule two_clients_with)

lemma insert_client_prepends_example:
  "\<exists>s'. insert_client 100 (\<lambda>_. 0) 6 no_clients = Some (1, s') \<and> clients_at s' [100] \<and> socket_at s' 100 = 6"
  using insert_client_prepends [OF no_clients(1), of 100] by (auto simp: no_clients(2))

text \<open>
  C26: The loop that removes finished clients terminates on every well-formed list; it removes
  and frees exactly the clients whose socket is -1 and keeps the others in order, with their
  sockets and the rest of memory unchanged.
\<close>
theorem dead_clients_removed:
  assumes "clients_at s as"
  shows "\<exists>s'. remove_dead s = Some s' \<and> clients_at s' (filter (\<lambda>a. socket_at s a \<noteq> -1) as) \<and>
    (\<forall>a \<in> set as. (socket_at s a \<noteq> -1 \<longrightarrow> socket_at s' a = socket_at s a) \<and>
      (socket_at s a = -1 \<longrightarrow> client_heap s' a = None)) \<and>
    (\<forall>a. a \<notin> set as \<longrightarrow> client_heap s' a = client_heap s a)"
proof -
  obtain s' where "remove_dead s = Some s'" "clients_at s' (filter (\<lambda>a. socket_at s a \<noteq> -1) as)"
    "\<And>a. a \<in> set as \<Longrightarrow> socket_at s a \<noteq> -1 \<Longrightarrow> socket_at s' a = socket_at s a"
    "\<And>a. a \<in> set as \<Longrightarrow> socket_at s a = -1 \<Longrightarrow> client_heap s' a = None"
    "\<And>a. a \<notin> set as \<Longrightarrow> client_heap s' a = client_heap s a"
    by (rule remove_dead_ok [OF assms]) (rule that)
  then show ?thesis by blast
qed

theorem dead_clients_removed_witness:
  "\<exists>s s'. clients_at s [200, 100] \<and> remove_dead s = Some s' \<and> clients_at s' [200] \<and> client_heap s' 100 = None"
proof -
  obtain s where s: "clients_at s [200, 100]" "socket_at s 100 = -1" "socket_at s 200 = 6" by (rule two_clients)
  with dead_clients_removed [OF s(1)] show ?thesis by auto
qed

text \<open>
  One pass of the main loop calls the handler of every ready client exactly once, in
  the order of the list, and of no other client; the list itself stays as it is.
\<close>
lemma ready_clients_handled_once:
  assumes "clients_at s as" "serve_list L rs ws as (client_heap s) w = Some (h, w')"
  shows "handle_ready L rs ws (clients_head s) s w = Some (s\<lparr>client_heap := h\<rparr>, w') \<and>
    clients_at (s\<lparr>client_heap := h\<rparr>) as"
proof -
  from assms(1) have ch: "chain (clients.view (client_heap s)) NULL as NULL" and head: "clients_head s = first_of as NULL"
    by (simp_all add: clients_at_def linked_def)
  show ?thesis
    using handle_ready_chain [OF ch, of L rs ws w] serve_list_links [OF assms(2) assms(1) [unfolded clients_at_def]] assms(2)
    by (simp add: head clients_at_def)
qed

lemma ready_clients_handled_once_example:
  "\<exists>s h w'. clients_at s [200, 100] \<and> handle_ready sample_lib {} {} (clients_head s) s sample_io =
    Some (s\<lparr>client_heap := h\<rparr>, w')"
proof -
  obtain s where s: "clients_at s [200, 100]" "socket_at s 100 = 5" "socket_at s 200 = 6" by (rule two_clients_with)
  obtain c where "client_heap s 200 = Some c" by (rule clients_at_node [OF s(1), of 200]) simp_all
  moreover obtain d where "client_heap s 100 = Some d" by (rule clients_at_node [OF s(1), of 100]) simp_all
  ultimately have "serve_list sample_lib {} {} [200, 100] (client_heap s) sample_io =
      Some ((client_heap s)(200 \<mapsto> c, 100 \<mapsto> d), sample_io)"
    using s(2,3) by (simp add: handle_if_ready_def fd_ready_def FD_ISSET_def socket_at_def)
  from ready_clients_handled_once [OF s(1) this] s(1) show ?thesis by blast
qed

end
