(* ===== verification/Threads.thy ===== *)
theory Threads imports Links begin

text \<open>
  The user-level threads of \<open>HW2-skeleton/threads.c\<close>: the table of 128 contexts, the pointer
  to the current one (its index here), and control transfer by \<open>setjmp\<close>/\<open>longjmp\<close>. A
  function that may jump away has an outcome: it returns, or control continues where the
  buffer of a context was saved, or the program ends. \<open>None\<close> is undefined behaviour: a jump
  through a buffer that was never saved, an index outside the table, or a signal delivered
  on a stack that \<open>malloc\<close> did not give.

  The stacks: context 0 is that of the main program and runs on its stack; the first pass of
  every other context \<open>i\<close> is a signal handler on \<open>stack_array[i]\<close>, which it never leaves.
  \<open>sigaltstack\<close> fails, as POSIX says, when the caller runs on the stack that is registered;
  its size and flags are in order. \<open>setitimer\<close> does not fail with the intervals used here.
\<close>

abbreviation (input) MAX_THREADS :: "'a::numeral" where "MAX_THREADS \<equiv> 128"

text \<open>The places where a context is saved: the call of \<open>setjmp\<close> a jump returns from.\<close>
datatype resume_point = In_yield | In_join | In_exit | In_start

datatype thread_status = STATE_ACTIVE | STATE_BLOCKED | STATE_FINISHED | STATE_INVALID

record tcb =
  number :: int
  saved :: "resume_point option"
  stack :: ptr
  thread_function :: ptr
  argument :: ptr
  return_value :: ptr
  status :: thread_status
  joiner_thread_number :: int

text \<open>
  \<open>timer\<close> is the interval of the alarm timer in microseconds, 0 when it is stopped;
  \<open>alternate_stack\<close> is the stack registered by \<open>sigaltstack\<close>, NULL before the first call.
  \<open>frames_kept\<close> is a promise of the platform that the program relies on: the frame of
  \<open>sigusr_handler\<close> stays on its signal stack after the handler has returned. ISO C does not
  give it.
\<close>
record threads_state =
  thread_context :: "tcb list"
  current :: nat
  created :: int
  new_pos :: nat
  timer :: nat
  stack_array :: "nat \<Rightarrow> ptr"
  alternate_stack :: ptr
  frames_kept :: bool

datatype 's outcome = Returned int 's | Jumped nat 's | Program_exit int 's

text \<open>What comes after a call: it goes on only when the call returned.\<close>
definition on_return :: "'s outcome \<Rightarrow> (int \<Rightarrow> 's \<Rightarrow> 's outcome option) \<Rightarrow> 's outcome option" where
  "on_return out f = (case out of Returned r s \<Rightarrow> f r s | _ \<Rightarrow> Some out)"

lemma on_return_simps [simp]:
  "on_return (Returned r s) f = f r s"
  "on_return (Jumped i s) f = Some (Jumped i s)"
  "on_return (Program_exit c s) f = Some (Program_exit c s)"
  by (simp_all add: on_return_def)

datatype signal_number = SIGUSR1 | SIGALRM

section \<open>The code\<close>

definition alarm_activate :: "'a threads_state_scheme \<Rightarrow> 'a threads_state_scheme" where
  "alarm_activate s = s\<lparr>timer := 100000\<rparr>"

definition alarm_deactivate :: "'a threads_state_scheme \<Rightarrow> 'a threads_state_scheme" where
  "alarm_deactivate s = s\<lparr>timer := 0\<rparr>"

text \<open>The context at an index that was computed as an \<open>int\<close>.\<close>
definition context_at :: "'a threads_state_scheme \<Rightarrow> int \<Rightarrow> tcb option" where
  "context_at s i = (if 0 \<le> i \<and> i < int (length (thread_context s)) then Some (thread_context s ! nat i) else None)"

definition update_context :: "nat \<Rightarrow> (tcb \<Rightarrow> tcb) \<Rightarrow> 'a threads_state_scheme \<Rightarrow> 'a threads_state_scheme" where
  "update_context i f s = s\<lparr>thread_context := (thread_context s)[i := f (thread_context s ! i)]\<rparr>"

abbreviation current_context :: "'a threads_state_scheme \<Rightarrow> tcb" where
  "current_context s \<equiv> thread_context s ! current s"

text \<open>\<open>stacks i\<close> is what the \<open>i\<close>-th \<open>malloc\<close> returned, which the code does not look at.\<close>
definition init_contexts :: "(nat \<Rightarrow> ptr) \<Rightarrow> 'a threads_state_scheme \<Rightarrow> 'a threads_state_scheme" where
  "init_contexts stacks s =
     (let s = s\<lparr>thread_context := map (\<lambda>i. (thread_context s ! i)\<lparr>status := STATE_INVALID\<rparr>) [0..<MAX_THREADS],
                stack_array := (\<lambda>i. if i < MAX_THREADS then stacks i else stack_array s i)\<rparr>;
          s = update_context 0 (\<lambda>c. c\<lparr>thread_function := NULL, argument := NULL, return_value := NULL, status := STATE_ACTIVE\<rparr>) s
      in s\<lparr>current := 0, created := 0\<rparr>)"

text \<open>\<open>sigaction\<close> is what the calls that install the two handlers return.\<close>
definition thread_init ::
    "(signal_number \<Rightarrow> int) \<Rightarrow> (nat \<Rightarrow> ptr) \<Rightarrow> 'a threads_state_scheme \<Rightarrow> 'a threads_state_scheme outcome" where
  "thread_init sigaction stacks s =
     (let s = init_contexts stacks s
      in if sigaction SIGUSR1 = -1 then Program_exit EXIT_FAILURE s
         else if sigaction SIGALRM = -1 then Program_exit EXIT_FAILURE s
         else Returned 0 s)"

text \<open>The first pass through \<open>setjmp\<close> in the handler: the fresh context is saved.\<close>
definition sigusr_handler :: "'a threads_state_scheme \<Rightarrow> 'a threads_state_scheme" where
  "sigusr_handler s = (update_context (new_pos s) (\<lambda>c. c\<lparr>saved := Some In_start\<rparr>) s)\<lparr>created := 1\<rparr>"

text \<open>The current thread runs on the stack that is registered.\<close>
definition on_alternate_stack :: "'a threads_state_scheme \<Rightarrow> bool" where
  "on_alternate_stack s \<longleftrightarrow> current s \<noteq> 0 \<and> alternate_stack s \<noteq> NULL \<and> stack_array s (current s) = alternate_stack s"

definition sigaltstack :: "ptr \<Rightarrow> 'a threads_state_scheme \<Rightarrow> int \<times> 'a threads_state_scheme" where
  "sigaltstack new_stack s = (if on_alternate_stack s then (-1, s) else (0, s\<lparr>alternate_stack := new_stack\<rparr>))"

text \<open>The context before it has a stack: an alarm may interrupt here.\<close>
definition mark_context :: "nat \<Rightarrow> ptr \<Rightarrow> ptr \<Rightarrow> 'a threads_state_scheme \<Rightarrow> 'a threads_state_scheme" where
  "mark_context i fn arg s =
     (update_context i (\<lambda>c. c\<lparr>thread_function := fn, argument := arg, status := STATE_ACTIVE\<rparr>) s)\<lparr>new_pos := i\<rparr>"

text \<open>
  The loops over the table: the first index with a property, in the order of the code.
  \<open>raise\<close> returns after the handler has run, so the loop behind it ends at once.
\<close>
definition thread_create :: "ptr \<Rightarrow> ptr \<Rightarrow> 'a threads_state_scheme \<Rightarrow> 'a threads_state_scheme outcome option" where
  "thread_create fn arg s =
     (case first_some (\<lambda>i. if status (thread_context s ! i) = STATE_INVALID then Some i else None) 0 MAX_THREADS of
        None \<Rightarrow> Some (Returned 0 s)
      | Some i \<Rightarrow>
          let s = mark_context i fn arg s;
              (r, s) = sigaltstack (stack_array s i) s
          in if r = -1 then Some (Program_exit EXIT_FAILURE s)
             else do {
               guard (alternate_stack s \<noteq> NULL);
               let s = sigusr_handler s;
               guard (created s \<noteq> 0);
               Some (Returned (number (thread_context s ! i)) s)
             })"

text \<open>
  \<open>longjmp\<close> through the buffer of context \<open>i\<close>, which must have been saved. A buffer that
  was saved in \<open>sigusr_handler\<close> belongs to a function that has returned: the jump is undefined
  in C, and works only where the frame is kept.
\<close>
definition long_jump :: "int \<Rightarrow> 'a threads_state_scheme \<Rightarrow> 'a threads_state_scheme outcome option" where
  "long_jump i s =
     do {
       c \<leftarrow> context_at s i;
       p \<leftarrow> saved c;
       guard (p = In_start \<longrightarrow> frames_kept s);
       Some (Jumped (nat i) s)
     }"

text \<open>\<open>setjmp\<close> of the current thread, followed by the switch to context \<open>i\<close>.\<close>
definition switch_to :: "resume_point \<Rightarrow> int \<Rightarrow> 'a threads_state_scheme \<Rightarrow> 'a threads_state_scheme option" where
  "switch_to p i s =
     do {
       let s = update_context (current s) (\<lambda>c. c\<lparr>saved := Some p\<rparr>) s;
       _ \<leftarrow> context_at s i;
       Some (s\<lparr>current := nat i\<rparr>)
     }"

text \<open>The index the loop of \<open>thread_yield\<close> tries in round \<open>x\<close>; \<open>%\<close> truncates toward zero.\<close>
definition yield_index :: "'a threads_state_scheme \<Rightarrow> nat \<Rightarrow> int" where
  "yield_index s x = ((number (current_context s) + 1) + int x) mod MAX_THREADS"

definition thread_yield :: "'a threads_state_scheme \<Rightarrow> 'a threads_state_scheme outcome option" where
  "thread_yield s =
     do {
       let s = alarm_deactivate s;
       guard (0 \<le> number (current_context s) + 1);
       (case first_some (\<lambda>x. if status (thread_context s ! nat (yield_index s x)) = STATE_ACTIVE
                             then Some (yield_index s x) else None) 0 (MAX_THREADS - 1) of
          None \<Rightarrow> Some (Returned 0 s)
        | Some i \<Rightarrow> do { s \<leftarrow> switch_to In_yield i s; long_jump i s })
     }"

text \<open>The handler of the alarm timer yields for the thread it interrupts.\<close>
definition sigalm_handler :: "'a threads_state_scheme \<Rightarrow> 'a threads_state_scheme outcome option" where
  "sigalm_handler s = thread_yield s"

text \<open>The rest of a function after a jump came back to its \<open>setjmp\<close>.\<close>
definition resumed :: "resume_point \<Rightarrow> 'a threads_state_scheme \<Rightarrow> int \<times> 'a threads_state_scheme" where
  "resumed p s = (case p of In_yield \<Rightarrow> (1, alarm_activate s) | _ \<Rightarrow> (0, s))"

text \<open>
  The jump of the second branch goes through the buffer of the joiner of the \<open>new\<close> current
  thread, because the pointer has already been moved.
\<close>
definition thread_exit :: "ptr \<Rightarrow> 'a threads_state_scheme \<Rightarrow> 'a threads_state_scheme outcome option" where
  "thread_exit val s =
     do {
       let s = update_context (current s) (\<lambda>c. c\<lparr>status := STATE_FINISHED, return_value := val\<rparr>) s;
       (if joiner_thread_number (current_context s) = -1 then thread_yield s
        else do {
          let s = update_context (current s) (\<lambda>c. c\<lparr>status := STATE_ACTIVE\<rparr>) s;
          s \<leftarrow> switch_to In_exit (joiner_thread_number (current_context s)) s;
          long_jump (joiner_thread_number (current_context s)) s
        })
     }"

definition thread_join :: "int \<Rightarrow> 'a threads_state_scheme \<Rightarrow> 'a threads_state_scheme outcome option" where
  "thread_join target s =
     do {
       t \<leftarrow> context_at s target;
       (if status t = STATE_FINISHED
        then Some (Returned 0 (update_context (nat target) (\<lambda>c. c\<lparr>status := STATE_INVALID\<rparr>) s))
        else do {
          let s = update_context (nat target) (\<lambda>c. c\<lparr>joiner_thread_number := number (current_context s)\<rparr>) s;
          let s = update_context (current s) (\<lambda>c. c\<lparr>status := STATE_BLOCKED\<rparr>) s;
          s \<leftarrow> switch_to In_join target s;
          long_jump target s
        })
     }"

section \<open>Runs\<close>

text \<open>
  A thread's request, and the step relation of the whole program: the current thread makes a
  request, and control goes on where the outcome says, with the rest of the function that
  was interrupted there. A program that has ended makes no step.
\<close>
datatype request = Create ptr ptr | Yield | Exit ptr | Join int

definition continue :: "'a threads_state_scheme outcome \<Rightarrow> 'a threads_state_scheme" where
  "continue out = (case out of
     Returned r s \<Rightarrow> s
   | Program_exit c s \<Rightarrow> s
   | Jumped i s \<Rightarrow> (case saved (thread_context s ! i) of None \<Rightarrow> s | Some p \<Rightarrow> snd (resumed p s)))"

fun goes_on :: "'s outcome \<Rightarrow> bool" where
  "goes_on (Program_exit c s) = False"
| "goes_on out = True"

definition request_outcome :: "request \<Rightarrow> 'a threads_state_scheme \<Rightarrow> 'a threads_state_scheme outcome option" where
  "request_outcome r s = (case r of
     Create fn arg \<Rightarrow> thread_create fn arg s
   | Yield \<Rightarrow> thread_yield s
   | Exit v \<Rightarrow> thread_exit v s
   | Join t \<Rightarrow> thread_join t s)"

inductive thread_step :: "threads_state \<Rightarrow> threads_state \<Rightarrow> bool" where
  step: "request_outcome r s = Some out \<Longrightarrow> goes_on out \<Longrightarrow> thread_step s (continue out)"

inductive reachable :: "threads_state \<Rightarrow> threads_state \<Rightarrow> bool" for s0 where
  start: "reachable s0 s0"
| next_state: "reachable s0 s \<Longrightarrow> thread_step s s' \<Longrightarrow> reachable s0 s'"

inductive_cases thread_stepE: "thread_step s s'"

end
