(* ===== verification/Threads_Inv.thy ===== *)
theory Threads_Inv imports Threads begin

text \<open>
  The invariant of the thread table in every state a program can reach from
  \<open>thread_init\<close>: no context ever gets a number, and every context that control may be
  given to has been saved.
\<close>

definition threads_inv :: "'a threads_state_scheme \<Rightarrow> bool" where
  "threads_inv s \<longleftrightarrow> length (thread_context s) = MAX_THREADS \<and> current s < MAX_THREADS \<and>
     (\<forall>i < MAX_THREADS. number (thread_context s ! i) = 0 \<and> joiner_thread_number (thread_context s ! i) = 0) \<and>
     (\<forall>i < MAX_THREADS. i \<noteq> current s \<and> status (thread_context s ! i) = STATE_ACTIVE \<longrightarrow> saved (thread_context s ! i) \<noteq> None) \<and>
     (current s \<noteq> 0 \<longrightarrow> saved (thread_context s ! 0) \<noteq> None) \<and> frames_kept s"

lemma update_context_simps [simp]:
  "length (thread_context (update_context i f s)) = length (thread_context s)"
  "current (update_context i f s) = current s"
  "created (update_context i f s) = created s"
  "new_pos (update_context i f s) = new_pos s"
  "timer (update_context i f s) = timer s"
  "stack_array (update_context i f s) = stack_array s"
  "alternate_stack (update_context i f s) = alternate_stack s"
  "frames_kept (update_context i f s) = frames_kept s"
  "i < length (thread_context s) \<Longrightarrow> thread_context (update_context i f s) ! j =
     (if j = i then f (thread_context s ! i) else thread_context s ! j)"
  by (simp_all add: update_context_def)

lemma alarm_simps [simp]:
  "thread_context (alarm_activate s) = thread_context s" "current (alarm_activate s) = current s"
  "thread_context (alarm_deactivate s) = thread_context s" "current (alarm_deactivate s) = current s"
  "frames_kept (alarm_activate s) = frames_kept s" "frames_kept (alarm_deactivate s) = frames_kept s"
  by (simp_all add: alarm_activate_def alarm_deactivate_def)

lemma threads_inv_alarm [simp]:
  "threads_inv (alarm_activate s) = threads_inv s" "threads_inv (alarm_deactivate s) = threads_inv s"
  by (simp_all add: threads_inv_def)

lemmas threads_inv_simps = threads_inv_def context_at_def

lemma threads_invD:
  assumes "threads_inv s"
  shows "length (thread_context s) = MAX_THREADS" "current s < MAX_THREADS"
    "i < MAX_THREADS \<Longrightarrow> number (thread_context s ! i) = 0"
    "i < MAX_THREADS \<Longrightarrow> joiner_thread_number (thread_context s ! i) = 0" "frames_kept s"
  using assms by (simp_all add: threads_inv_def)

section \<open>Initialisation\<close>

definition zero_tcb :: tcb where
  "zero_tcb = \<lparr>number = 0, saved = None, stack = NULL, thread_function = NULL, argument = NULL,
     return_value = NULL, status = STATE_ACTIVE, joiner_thread_number = 0\<rparr>"

text \<open>The global variables of a program before it runs, on a platform that keeps its promise.\<close>
definition zero_threads :: threads_state where
  "zero_threads = \<lparr>thread_context = replicate MAX_THREADS zero_tcb, current = 0, created = 0, new_pos = 0, timer = 0,
     stack_array = (\<lambda>i. NULL), alternate_stack = NULL, frames_kept = True\<rparr>"

lemma init_contexts_table:
  "i < MAX_THREADS \<Longrightarrow> thread_context (init_contexts stacks zero_threads) ! i =
     (if i = 0 then zero_tcb else zero_tcb\<lparr>status := STATE_INVALID\<rparr>)"
  by (simp add: init_contexts_def zero_threads_def update_context_def nth_list_update zero_tcb_def Let_def)

lemma init_contexts_simps [simp]:
  "length (thread_context (init_contexts stacks s)) = MAX_THREADS" "current (init_contexts stacks s) = 0"
  "frames_kept (init_contexts stacks s) = frames_kept s"
  "alternate_stack (init_contexts stacks s) = alternate_stack s" "new_pos (init_contexts stacks s) = new_pos s"
  "i < MAX_THREADS \<Longrightarrow> stack_array (init_contexts stacks s) i = stacks i"
  by (simp_all add: init_contexts_def update_context_def Let_def)

lemma init_contexts_inv: "threads_inv (init_contexts stacks zero_threads)"
  by (simp add: threads_inv_def init_contexts_table zero_tcb_def) (simp add: zero_threads_def)

section \<open>The operations\<close>

lemma first_some_in: "first_some f lo hi = Some y \<Longrightarrow> \<exists>x. lo \<le> x \<and> x < hi \<and> f x = Some y"
  by (cases rule: first_some_cases [of f lo hi]) auto

text \<open>
  Creation: the first invalid context becomes active and saved, on a stack of its own; the
  result is its number. The program ends when the caller runs on the registered stack.
\<close>

definition created_at :: "nat \<Rightarrow> ptr \<Rightarrow> ptr \<Rightarrow> 'a threads_state_scheme \<Rightarrow> 'a threads_state_scheme" where
  "created_at i fn arg s = (update_context i (\<lambda>c. c\<lparr>thread_function := fn, argument := arg, status := STATE_ACTIVE, saved := Some In_start\<rparr>) s)
     \<lparr>new_pos := i, alternate_stack := stack_array s i, created := 1\<rparr>"

lemma created_at_simps [simp]:
  "length (thread_context (created_at i fn arg s)) = length (thread_context s)"
  "frames_kept (created_at i fn arg s) = frames_kept s"
  "current (created_at i fn arg s) = current s" "new_pos (created_at i fn arg s) = i"
  "stack_array (created_at i fn arg s) = stack_array s" "alternate_stack (created_at i fn arg s) = stack_array s i"
  "thread_context (created_at i fn arg s) = (thread_context s)[i :=
     (thread_context s ! i)\<lparr>thread_function := fn, argument := arg, status := STATE_ACTIVE, saved := Some In_start\<rparr>]"
  by (simp_all add: created_at_def update_context_def)

lemma thread_create_cases:
  assumes "threads_inv s"
  obtains (free) i where "i < MAX_THREADS" "status (thread_context s ! i) = STATE_INVALID"
      "\<And>j. j < i \<Longrightarrow> status (thread_context s ! j) \<noteq> STATE_INVALID" "\<not> on_alternate_stack s"
      "thread_create fn arg s = (if stack_array s i = NULL then None else Some (Returned 0 (created_at i fn arg s)))"
  | (ends) i s' where "i < MAX_THREADS" "status (thread_context s ! i) = STATE_INVALID" "on_alternate_stack s"
      "thread_create fn arg s = Some (Program_exit EXIT_FAILURE s')"
  | (none) "thread_create fn arg s = Some (Returned 0 s)"
      "\<And>j. j < MAX_THREADS \<Longrightarrow> status (thread_context s ! j) \<noteq> STATE_INVALID"
proof (cases rule: first_some_cases
    [of "\<lambda>i. if status (thread_context s ! i) = STATE_INVALID then Some i else None" 0 128])
  case none
  have "status (thread_context s ! j) \<noteq> STATE_INVALID" if "j < 128" for j
    using none(2) [of j] that by (auto split: if_splits)
  with none(1) show thesis by (intro that(3)) (simp_all add: thread_create_def)
next
  case (hit x y)
  then have y: "y = x" and inv: "status (thread_context s ! x) = STATE_INVALID" by (auto split: if_splits)
  note fields = threads_invD [OF assms]
  let ?s = "mark_context x fn arg s"
  have alt: "on_alternate_stack ?s = on_alternate_stack s" by (simp add: on_alternate_stack_def mark_context_def)
  show thesis
  proof (cases "on_alternate_stack s")
    case True
    then have "thread_create fn arg s = Some (Program_exit EXIT_FAILURE ?s)"
      using hit(1) alt by (simp add: thread_create_def y Let_def sigaltstack_def)
    with True hit(4) inv show thesis by (intro that(2) [of x]) simp_all
  next
    case False
    have "thread_create fn arg s = (if stack_array s x = NULL then None else Some (Returned 0 (created_at x fn arg s)))"
      using hit(1,4) alt False fields(1) fields(3) [of x]
      by (simp add: thread_create_def sigaltstack_def sigusr_handler_def mark_context_def created_at_def y Let_def update_context_def)
    then show thesis
    proof (rule that(1) [of x, rotated -1])
      show "status (thread_context s ! j) \<noteq> STATE_INVALID" if "j < x" for j
        using hit(5) [of j] that by (auto split: if_splits)
    qed (use hit(4) inv False in auto)
  qed
qed

lemma threads_inv_created_at: "threads_inv s \<Longrightarrow> i < MAX_THREADS \<Longrightarrow> threads_inv (created_at i fn arg s)"
  by (auto simp: threads_inv_def nth_list_update)

text \<open>A creation that returns.\<close>
lemma thread_create_returned:
  assumes "threads_inv s" "thread_create fn arg s = Some out" "goes_on out"
  obtains (at) i where "out = Returned 0 (created_at i fn arg s)" "i < MAX_THREADS"
      "status (thread_context s ! i) = STATE_INVALID" "\<not> on_alternate_stack s"
  | (full) "out = Returned 0 s"
  using assms(1)
proof (cases rule: thread_create_cases [where fn = fn and arg = arg])
  case (free i)
  with assms(2) show thesis by (intro at [of i]) (auto split: if_splits)
next
  case (ends i s')
  with assms show thesis by auto
next
  case none
  with assms(2) show thesis by (intro full) simp
qed

text \<open>A switch saves the current context; a jump to a saved context succeeds.\<close>

lemma switch_to_ok:
  assumes inv: "threads_inv s" and i: "0 \<le> i" "i < MAX_THREADS"
  obtains s' where "switch_to p i s = Some s'" "current s' = nat i" "timer s' = timer s"
    "s' = (update_context (current s) (\<lambda>c. c\<lparr>saved := Some p\<rparr>) s)\<lparr>current := nat i\<rparr>"
    "\<And>j. thread_context s' ! j = (if j = current s then (current_context s)\<lparr>saved := Some p\<rparr> else thread_context s ! j)"
    "length (thread_context s') = MAX_THREADS" "threads_inv s'"
proof -
  note fields = threads_invD [OF inv]
  let ?s = "(update_context (current s) (\<lambda>c. c\<lparr>saved := Some p\<rparr>) s)\<lparr>current := nat i\<rparr>"
  have "switch_to p i s = Some ?s"
    using fields(1) i by (simp add: switch_to_def context_at_def Let_def)
  moreover have "threads_inv ?s"
    using inv i by (auto simp: threads_inv_def update_context_def nth_list_update nat_less_iff)
  ultimately show thesis using fields by (intro that [of ?s]) (simp_all add: update_context_def nth_list_update)
qed

lemma long_jump_eq:
  assumes "threads_inv s" "0 \<le> i" "i < MAX_THREADS"
  shows "long_jump i s = (if saved (thread_context s ! nat i) = None then None else Some (Jumped (nat i) s))"
  using assms threads_invD(1,5) [OF assms(1)] by (auto simp: long_jump_def context_at_def)

text \<open>The search of \<open>thread_yield\<close> in a thread without number: the first active context from 1.\<close>

lemma thread_yield_choose:
  assumes num: "number (current_context s) = 0"
  shows "thread_yield s =
    (case first_some (\<lambda>i. if status (thread_context s ! i) = STATE_ACTIVE then Some i else None) 1 MAX_THREADS of
       None \<Rightarrow> Some (Returned 0 (alarm_deactivate s))
     | Some i \<Rightarrow> do { s \<leftarrow> switch_to In_yield (int i) (alarm_deactivate s); long_jump (int i) s })"
proof -
  let ?s = "alarm_deactivate s"
  let ?f = "\<lambda>x. if status (thread_context ?s ! nat (yield_index ?s x)) = STATE_ACTIVE then Some (yield_index ?s x) else None"
  let ?g = "\<lambda>i. if status (thread_context s ! i) = STATE_ACTIVE then Some i else None"
  have idx: "yield_index ?s x = int (Suc x)" if "x < 127" for x
    using that num by (simp add: yield_index_def)
  have f: "?f x = map_option int (?g (Suc x))" if "x < 127" for x
    using idx [OF that] nat_int [of "Suc x"] by simp
  show ?thesis
  proof (cases rule: first_some_cases [of ?g 1 128])
    case none
    then have "first_some ?f 0 127 = None"
      by (intro first_some_None) (auto simp: f simp del: alarm_simps)
    with none(1) num show ?thesis by (simp add: thread_yield_def Let_def)
  next
    case (hit i y)
    then have y: "y = i" and act: "status (thread_context s ! i) = STATE_ACTIVE" by (auto split: if_splits)
    obtain k where k: "i = Suc k" "k < 127" using hit(3,4) by (cases i) auto
    have "first_some ?f 0 127 = Some (int i)"
    proof (rule first_some_hit [of _ k])
      show "?f k = Some (int i)" using f [OF k(2)] act k(1) by simp
      show "?f z = None" if "0 \<le> z" "z < k" for z
        using f [of z] hit(5) [of "Suc z"] that k by simp
    qed (use k in simp_all)
    then show ?thesis using hit(1) num y by (simp add: thread_yield_def Let_def)
  qed
qed

lemma thread_yield_eq:
  assumes inv: "threads_inv s"
  shows "thread_yield s =
    (case first_some (\<lambda>i. if status (thread_context s ! i) = STATE_ACTIVE then Some i else None) 1 MAX_THREADS of
       None \<Rightarrow> Some (Returned 0 (alarm_deactivate s))
     | Some i \<Rightarrow> Some (Jumped i ((update_context (current s) (\<lambda>c. c\<lparr>saved := Some In_yield\<rparr>) (alarm_deactivate s))\<lparr>current := i\<rparr>)))"
proof -
  let ?s = "alarm_deactivate s"
  let ?g = "\<lambda>i. if status (thread_context s ! i) = STATE_ACTIVE then Some i else None"
  have num: "number (current_context s) = 0" using threads_invD(2,3) [OF inv] by simp
  have inv': "threads_inv ?s" using inv by simp
  show ?thesis
  proof (cases "first_some ?g 1 128")
    case (Some i)
    then have i: "i < 128" "status (thread_context s ! i) = STATE_ACTIVE"
      using first_some_in [OF Some] by (auto split: if_splits)
    obtain s' where s': "switch_to In_yield (int i) ?s = Some s'" "current s' = nat (int i)" "timer s' = timer ?s"
      "s' = (update_context (current ?s) (\<lambda>c. c\<lparr>saved := Some In_yield\<rparr>) ?s)\<lparr>current := nat (int i)\<rparr>"
      "\<And>j. thread_context s' ! j = (if j = current ?s then (current_context ?s)\<lparr>saved := Some In_yield\<rparr> else thread_context ?s ! j)"
      "length (thread_context s') = MAX_THREADS" "threads_inv s'"
      by (rule switch_to_ok [OF inv', where i = "int i" and p = In_yield]) (simp, use i in simp, rule that)
    moreover have "saved (thread_context s' ! i) \<noteq> None"
      using inv i s'(5) [of i] by (auto simp: threads_inv_def)
    then have "long_jump (int i) s' = Some (Jumped i s')"
      using i by (simp add: long_jump_eq [OF s'(7)])
    ultimately show ?thesis using Some by (simp add: thread_yield_choose [OF num])
  qed (simp add: thread_yield_choose [OF num])
qed

text \<open>Changing fields of a context other than those the invariant is about.\<close>

lemma threads_inv_update:
  assumes "threads_inv s" "i < MAX_THREADS"
    and "\<And>c. number (f c) = number c \<and> joiner_thread_number (f c) = joiner_thread_number c \<and> saved (f c) = saved c"
    and "i \<noteq> current s \<Longrightarrow> status (f (thread_context s ! i)) \<noteq> STATE_ACTIVE"
  shows "threads_inv (update_context i f s)"
  using assms by (auto simp: threads_inv_def)

lemma thread_exit_eq:
  assumes inv: "threads_inv s"
  obtains s' where "thread_exit v s = Some (Jumped 0 s')" "threads_inv s'" "current s' = 0"
    "status (thread_context s' ! current s) = STATE_ACTIVE" "saved (thread_context s' ! 0) \<noteq> None"
    "\<And>j. j \<noteq> current s \<Longrightarrow> thread_context s' ! j = thread_context s ! j"
proof -
  note fields = threads_invD [OF inv]
  let ?s1 = "update_context (current s) (\<lambda>c. c\<lparr>status := STATE_FINISHED, return_value := v\<rparr>) s"
  let ?s2 = "update_context (current s) (\<lambda>c. c\<lparr>status := STATE_ACTIVE\<rparr>) ?s1"
  have inv1: "threads_inv ?s1" by (rule threads_inv_update [OF inv fields(2)]) simp_all
  have inv2: "threads_inv ?s2" by (rule threads_inv_update [OF inv1]) (use fields(2) in simp_all)
  note fields1 = threads_invD [OF inv1] and fields2 = threads_invD [OF inv2]
  obtain s' where s': "switch_to In_exit 0 ?s2 = Some s'" "current s' = nat 0" "timer s' = timer ?s2"
    "s' = (update_context (current ?s2) (\<lambda>c. c\<lparr>saved := Some In_exit\<rparr>) ?s2)\<lparr>current := nat 0\<rparr>"
    "\<And>j. thread_context s' ! j = (if j = current ?s2 then (current_context ?s2)\<lparr>saved := Some In_exit\<rparr> else thread_context ?s2 ! j)"
    "length (thread_context s') = MAX_THREADS" "threads_inv s'"
    by (rule switch_to_ok [OF inv2, where i = 0 and p = In_exit]) (simp, simp, rule that)
  have saved0: "saved (thread_context s' ! 0) \<noteq> None"
  proof (cases "current s = 0")
    case True
    with s'(5) [of 0] show ?thesis by simp
  next
    case False
    with s'(5) [of 0] fields(1,2) have "thread_context s' ! 0 = thread_context s ! 0" by simp
    moreover have "saved (thread_context s ! 0) \<noteq> None" using inv False by (simp add: threads_inv_def)
    ultimately show ?thesis by simp
  qed
  have joiner: "joiner_thread_number (thread_context s' ! 0) = 0"
    using threads_invD(4) [OF s'(7)] by simp
  have act: "status (thread_context s' ! current s) = STATE_ACTIVE"
    using s'(5) [of "current s"] fields by simp
  have j1: "joiner_thread_number (current_context ?s1) = 0" and j2: "joiner_thread_number (current_context ?s2) = 0"
    using fields1(4) [of "current s"] fields2(4) [of "current s"] fields(2) by simp_all
  have "thread_exit v s = Some (Jumped 0 s')"
    unfolding thread_exit_def Let_def
    using j1 j2 s'(1,2) saved0 joiner by (simp add: long_jump_eq [OF s'(7)])
  moreover have "thread_context s' ! j = thread_context s ! j" if "j \<noteq> current s" for j
    using s'(5) [of j] fields(1,2) that by simp
  ultimately show thesis by (intro that [OF _ s'(7) _ act saved0]) (simp_all add: s'(2))
qed

text \<open>Joining a context that is not finished blocks the caller and jumps to that context.\<close>

lemma thread_join_cases:
  assumes inv: "threads_inv s" and t: "0 \<le> t" "t < MAX_THREADS"
  obtains (finished) "status (thread_context s ! nat t) = STATE_FINISHED"
      "thread_join t s = Some (Returned 0 (update_context (nat t) (\<lambda>c. c\<lparr>status := STATE_INVALID\<rparr>) s))"
  | (jump) s' where "thread_join t s =
        (if nat t \<noteq> current s \<and> saved (thread_context s ! nat t) = None then None else Some (Jumped (nat t) s'))"
      "threads_inv s'" "current s' = nat t" "status (thread_context s' ! current s) = STATE_BLOCKED"
      "\<And>j. j \<noteq> current s \<Longrightarrow> thread_context s' ! j = thread_context s ! j"
proof (cases "status (thread_context s ! nat t) = STATE_FINISHED")
  case True
  with t threads_invD(1) [OF inv] show thesis
    by (intro finished) (simp_all add: thread_join_def context_at_def)
next
  case False
  note fields = threads_invD [OF inv]
  have nt: "nat t < 128" using t by (simp add: nat_less_iff)
  let ?s1 = "update_context (nat t) (\<lambda>c. c\<lparr>joiner_thread_number := number (current_context s)\<rparr>) s"
  let ?s2 = "update_context (current s) (\<lambda>c. c\<lparr>status := STATE_BLOCKED\<rparr>) ?s1"
  have same: "(thread_context s ! nat t)\<lparr>joiner_thread_number := number (current_context s)\<rparr> = thread_context s ! nat t"
    using fields(3) [OF fields(2)] fields(4) [OF nt] by (cases "thread_context s ! nat t") simp
  then have s1: "?s1 = s" using fields(1) nt by (simp add: update_context_def)
  have inv2: "threads_inv ?s2" unfolding s1 by (rule threads_inv_update [OF inv fields(2)]) simp_all
  obtain s' where s': "switch_to In_join t ?s2 = Some s'" "current s' = nat t" "timer s' = timer ?s2"
    "s' = (update_context (current ?s2) (\<lambda>c. c\<lparr>saved := Some In_join\<rparr>) ?s2)\<lparr>current := nat t\<rparr>"
    "\<And>j. thread_context s' ! j = (if j = current ?s2 then (current_context ?s2)\<lparr>saved := Some In_join\<rparr> else thread_context ?s2 ! j)"
    "length (thread_context s') = MAX_THREADS" "threads_inv s'"
    by (rule switch_to_ok [OF inv2 t, where p = In_join]) (rule that)
  have ctx: "thread_context s' ! j = (if j = current s
      then (current_context s)\<lparr>status := STATE_BLOCKED, saved := Some In_join\<rparr> else thread_context s ! j)" for j
    using s'(5) [of j] fields unfolding s1 by simp
  have "thread_join t s =
      (if nat t \<noteq> current s \<and> saved (thread_context s ! nat t) = None then None else Some (Jumped (nat t) s'))"
    unfolding thread_join_def Let_def
    using False t fields(1) s'(1) ctx by (simp add: s1 context_at_def long_jump_eq [OF s'(7)])
  then show thesis by (rule jump [OF _ s'(7,2)]) (simp_all add: ctx)
qed

section \<open>Reachable states\<close>

lemma continue_fields [simp]:
  "thread_context (continue (Jumped i s)) = thread_context s" "current (continue (Jumped i s)) = current s"
  by (auto simp: continue_def resumed_def split: option.split resume_point.split)

lemma threads_inv_continue:
  assumes "threads_inv s"
  shows "threads_inv (continue (Jumped i s))"
  using assms by (auto simp: continue_def resumed_def split: option.split resume_point.split)

lemma threads_inv_request:
  assumes "threads_inv s" "request_outcome r s = Some out" "goes_on out"
  shows "threads_inv (continue out)"
proof -
  define s' where "s' = continue out"
  note so = s'_def assms(2,3)
  have "threads_inv s'"
  proof (cases r)
    case (Create fn arg)
    with so have "thread_create fn arg s = Some out" by (simp add: request_outcome_def)
    then show ?thesis
      using assms(1) so(3)
      by (cases rule: thread_create_returned [OF assms(1), where fn = fn and arg = arg and out = out])
        (simp_all add: so(1) continue_def threads_inv_created_at)
  next
    case Yield
    with so(2) have y: "thread_yield s = Some out" by (simp add: request_outcome_def)
    let ?g = "\<lambda>i. if status (thread_context s ! i) = STATE_ACTIVE then Some i else None"
    show ?thesis
    proof (cases "first_some ?g 1 128")
      case None
      with y assms(1) show ?thesis by (auto simp: thread_yield_eq continue_def so(1))
    next
      case (Some i)
      from first_some_in [OF Some] have i: "i < 128" by (auto split: if_splits)
      have inv': "threads_inv (alarm_deactivate s)" using assms(1) by simp
      obtain s1 where "s1 = (update_context (current (alarm_deactivate s)) (\<lambda>c. c\<lparr>saved := Some In_yield\<rparr>) (alarm_deactivate s))\<lparr>current := nat (int i)\<rparr>" "threads_inv s1"
        by (rule switch_to_ok [OF inv', where i = "int i" and p = In_yield]) (use i in auto)
      with Some y assms(1) have "out = Jumped i s1" by (simp add: thread_yield_eq)
      with threads_inv_continue [OF \<open>threads_inv s1\<close>] so(1) show ?thesis by simp
    qed
  next
    case (Exit v)
    with so(2) have "thread_exit v s = Some out" by (simp add: request_outcome_def)
    moreover obtain s1 where "thread_exit v s = Some (Jumped 0 s1)" "threads_inv s1"
      by (rule thread_exit_eq [OF assms(1), of v]) (rule that)
    ultimately show ?thesis using threads_inv_continue so(1) by auto
  next
    case (Join t)
    with so(2) have j: "thread_join t s = Some out" by (simp add: request_outcome_def)
    then have t: "0 \<le> t" "t < 128"
      using threads_invD(1) [OF assms(1)] by (auto simp: thread_join_def context_at_def split: if_splits)
    from assms(1) t show ?thesis
    proof (cases rule: thread_join_cases)
      case finished
      have "nat t < 128" using t by (simp add: nat_less_iff)
      then have "threads_inv (update_context (nat t) (\<lambda>c. c\<lparr>status := STATE_INVALID\<rparr>) s)"
        by (rule threads_inv_update [OF assms(1)]) simp_all
      with finished j so(1) show ?thesis by (auto simp: continue_def)
    next
      case (jump s1)
      with j so(1) threads_inv_continue [OF jump(2)] show ?thesis by (auto split: if_splits)
    qed
  qed
  then show ?thesis by (simp only: s'_def)
qed

lemma threads_inv_step: "threads_inv s \<Longrightarrow> thread_step s s' \<Longrightarrow> threads_inv s'"
  by (auto elim!: thread_stepE intro: threads_inv_request)

lemma threads_inv_reachable: "reachable s0 s \<Longrightarrow> threads_inv s0 \<Longrightarrow> threads_inv s"
  by (induction rule: reachable.induct) (auto intro: threads_inv_step)

section \<open>No thread is ever seen finished\<close>

definition no_finished :: "'a threads_state_scheme \<Rightarrow> bool" where
  "no_finished s \<longleftrightarrow> (\<forall>i < MAX_THREADS. status (thread_context s ! i) \<noteq> STATE_FINISHED)"

lemma no_finished_continue: "no_finished s \<Longrightarrow> no_finished (continue (Jumped i s))"
  by (auto simp: no_finished_def continue_def resumed_def split: option.split resume_point.split)

lemma no_finished_others:
  assumes "no_finished s" "status (thread_context s' ! k) \<noteq> STATE_FINISHED"
    and "\<And>j. j \<noteq> k \<Longrightarrow> thread_context s' ! j = thread_context s ! j"
  shows "no_finished s'"
  using assms unfolding no_finished_def by metis

lemma no_finished_yield:
  assumes "threads_inv s" "no_finished s" "thread_yield s = Some out"
  shows "no_finished (continue out)"
proof -
  let ?g = "\<lambda>i. if status (thread_context s ! i) = STATE_ACTIVE then Some i else None"
  show ?thesis
  proof (cases "first_some ?g 1 128")
    case None
    with assms show ?thesis by (auto simp: thread_yield_eq continue_def no_finished_def)
  next
    case (Some i)
    with assms have out: "out = Jumped i ((update_context (current s) (\<lambda>c. c\<lparr>saved := Some In_yield\<rparr>) (alarm_deactivate s))\<lparr>current := i\<rparr>)"
      by (simp add: thread_yield_eq)
    have "no_finished ((update_context (current s) (\<lambda>c. c\<lparr>saved := Some In_yield\<rparr>) (alarm_deactivate s))\<lparr>current := i\<rparr>)"
      using assms(2) threads_invD(1,2) [OF assms(1)] by (auto simp: no_finished_def)
    then show ?thesis unfolding out by (rule no_finished_continue)
  qed
qed

lemma no_finished_created_at:
  assumes "threads_inv s" "no_finished s" "i < MAX_THREADS"
  shows "no_finished (created_at i fn arg s)"
  using assms(2,3) threads_invD(1) [OF assms(1)] by (auto simp: no_finished_def nth_list_update)

lemma no_finished_step:
  assumes inv: "threads_inv s" and fin: "no_finished s" and step: "thread_step s s'"
  shows "no_finished s'"
proof -
  obtain r out where so: "s' = continue out" "request_outcome r s = Some out" "goes_on out"
    using step by (auto elim: thread_stepE)
  show ?thesis
  proof (cases r)
    case (Create fn arg)
    with so have "thread_create fn arg s = Some out" by (simp add: request_outcome_def)
    then show ?thesis using so(3)
      by (cases rule: thread_create_returned [OF inv, where fn = fn and arg = arg and out = out])
        (simp_all add: so(1) continue_def fin no_finished_created_at [OF inv fin])
  next
    case Yield
    with so no_finished_yield [OF inv fin] show ?thesis by (simp add: request_outcome_def)
  next
    case (Exit v)
    obtain s1 where s1: "thread_exit v s = Some (Jumped 0 s1)" "status (thread_context s1 ! current s) = STATE_ACTIVE"
      "\<And>j. j \<noteq> current s \<Longrightarrow> thread_context s1 ! j = thread_context s ! j"
      by (rule thread_exit_eq [OF inv, of v]) (rule that)
    have "no_finished s1" by (rule no_finished_others [OF fin _ s1(3)]) (simp_all add: s1(2))
    with so Exit s1(1) no_finished_continue show ?thesis by (auto simp: request_outcome_def)
  next
    case (Join t)
    with so have j: "thread_join t s = Some out" by (simp add: request_outcome_def)
    then have t: "0 \<le> t" "t < 128"
      using threads_invD(1) [OF inv] by (auto simp: thread_join_def context_at_def split: if_splits)
    from inv t show ?thesis
    proof (cases rule: thread_join_cases)
      case finished
      with fin t show ?thesis by (auto simp: no_finished_def nat_less_iff)
    next
      case (jump s1)
      have "no_finished s1" by (rule no_finished_others [OF fin _ jump(5)]) (simp_all add: jump(4))
      with jump(1) j so(1) no_finished_continue show ?thesis by (auto split: if_splits)
    qed
  qed
qed

lemma init_contexts_no_finished: "no_finished (init_contexts stacks zero_threads)"
  by (simp add: no_finished_def init_contexts_table zero_tcb_def)

lemma reachable_no_finished:
  "reachable s0 s \<Longrightarrow> threads_inv s0 \<Longrightarrow> no_finished s0 \<Longrightarrow> no_finished s"
  by (induction rule: reachable.induct) (auto intro: no_finished_step threads_inv_reachable)

text \<open>What the properties use of a program that started with \<open>thread_init\<close>.\<close>
lemma reachable_from_init:
  assumes "reachable (init_contexts stacks zero_threads) s"
  shows "threads_inv s" "no_finished s"
  by (rule threads_inv_reachable [OF assms init_contexts_inv],
      rule reachable_no_finished [OF assms init_contexts_inv init_contexts_no_finished])

end
