(* ===== verification/Thread_Stacks.thy ===== *)
theory Thread_Stacks imports Threads_Inv begin

text \<open>
  The signal stacks and the buffers of the threads library: which stack is registered in the
  states that a program reaches, which contexts have been saved, and who can create threads.
\<close>

section \<open>The registered stack\<close>

text \<open>
  The registered stack is that of the context created last. Context 0 is never invalid, so
  it is never created again.
\<close>

definition stacks_inv :: "(nat \<Rightarrow> ptr) \<Rightarrow> 'a threads_state_scheme \<Rightarrow> bool" where
  "stacks_inv stacks s \<longleftrightarrow> (\<forall>i < MAX_THREADS. stack_array s i = stacks i) \<and> status (thread_context s ! 0) \<noteq> STATE_INVALID \<and>
     (if new_pos s = 0 then alternate_stack s = NULL
      else new_pos s < MAX_THREADS \<and> alternate_stack s = stacks (new_pos s))"

text \<open>Only \<open>thread_create\<close> touches the stacks.\<close>
definition stack_part :: "'a threads_state_scheme \<Rightarrow> (nat \<Rightarrow> ptr) \<times> ptr \<times> nat" where
  "stack_part s = (stack_array s, alternate_stack s, new_pos s)"

lemma stack_part_simps [simp]:
  "stack_part (update_context i f s) = stack_part s" "stack_part (alarm_activate s) = stack_part s"
  "stack_part (alarm_deactivate s) = stack_part s" "stack_part (s\<lparr>current := i\<rparr>) = stack_part s"
  by (simp_all add: stack_part_def alarm_activate_def alarm_deactivate_def)

lemma stack_part_continue [simp]:
  "stack_part (continue (Returned r s)) = stack_part s" "stack_part (continue (Jumped i s)) = stack_part s"
  by (auto simp: continue_def resumed_def split: option.split resume_point.split)

lemma stack_part_switch: "switch_to p i s = Some s' \<Longrightarrow> stack_part s' = stack_part s"
  by (auto simp: switch_to_def Let_def split: Option.bind_splits)

lemma stack_part_jump: "long_jump i s = Some out \<Longrightarrow> stack_part (continue out) = stack_part s"
  by (auto simp: long_jump_def split: Option.bind_splits if_splits)

lemma stack_part_yield: "thread_yield s = Some out \<Longrightarrow> stack_part (continue out) = stack_part s"
  by (auto simp: thread_yield_def Let_def dest!: stack_part_switch stack_part_jump split: Option.bind_splits option.splits)

lemma stack_part_exit: "thread_exit v s = Some out \<Longrightarrow> stack_part (continue out) = stack_part s"
  by (auto simp: thread_exit_def Let_def dest!: stack_part_switch stack_part_jump stack_part_yield split: Option.bind_splits if_splits)

lemma stack_part_join: "thread_join t s = Some out \<Longrightarrow> stack_part (continue out) = stack_part s"
  by (auto simp: thread_join_def Let_def dest!: stack_part_switch stack_part_jump split: Option.bind_splits if_splits)

text \<open>
  What a request other than a creation leaves of the table: it changes the context of the
  caller only, which does not become invalid, and gives control to a context that can take it.
\<close>
lemma request_table:
  assumes inv: "threads_inv s" and fin: "no_finished s"
    and out: "request_outcome r s = Some out" "\<forall>fn arg. r \<noteq> Create fn arg"
  shows "(\<forall>j. j \<noteq> current s \<longrightarrow> thread_context (continue out) ! j = thread_context s ! j) \<and>
    (status (thread_context (continue out) ! current s) = STATE_INVALID \<longrightarrow> status (current_context s) = STATE_INVALID) \<and>
    (current (continue out) = current s \<or> current (continue out) = 0 \<or>
      status (thread_context s ! current (continue out)) = STATE_ACTIVE \<or> saved (thread_context s ! current (continue out)) \<noteq> None)"
proof (cases r)
  case Yield
  let ?g = "\<lambda>i. if status (thread_context s ! i) = STATE_ACTIVE then Some i else None"
  from Yield out(1) have y: "thread_yield s = Some out" by (simp add: request_outcome_def)
  show ?thesis
  proof (cases "first_some ?g 1 128")
    case None
    with y show ?thesis by (auto simp: thread_yield_eq [OF inv] continue_def)
  next
    case (Some i)
    then have "status (thread_context s ! i) = STATE_ACTIVE" using first_some_in [OF Some] by (auto split: if_splits)
    with Some y threads_invD(1,2) [OF inv] show ?thesis by (auto simp: thread_yield_eq [OF inv])
  qed
next
  case (Exit v)
  obtain s1 where "thread_exit v s = Some (Jumped 0 s1)" "status (thread_context s1 ! current s) = STATE_ACTIVE"
    "\<And>j. j \<noteq> current s \<Longrightarrow> thread_context s1 ! j = thread_context s ! j" "current s1 = 0"
    by (rule thread_exit_eq [OF inv, of v]) (rule that)
  with out(1) Exit show ?thesis by (auto simp: request_outcome_def)
next
  case (Join t)
  with out(1) have j: "thread_join t s = Some out" by (simp add: request_outcome_def)
  then have t: "0 \<le> t" "t < 128"
    using threads_invD(1) [OF inv] by (auto simp: thread_join_def context_at_def split: if_splits)
  from inv t show ?thesis
  proof (cases rule: thread_join_cases)
    case finished
    with fin t show ?thesis by (auto simp: no_finished_def nat_less_iff)
  next
    case (jump s1)
    with j show ?thesis by (auto split: if_splits)
  qed
qed (use out(2) in simp)

lemma stacks_inv_cong:
  assumes "stacks_inv stacks s" "stack_part s' = stack_part s" "status (thread_context s' ! 0) \<noteq> STATE_INVALID"
  shows "stacks_inv stacks s'"
  using assms by (simp add: stacks_inv_def stack_part_def)

lemma stacks_inv_step:
  assumes inv: "threads_inv s" and fin: "no_finished s" and st: "stacks_inv stacks s" and step: "thread_step s s'"
  shows "stacks_inv stacks s'"
proof -
  obtain r out where so: "s' = continue out" "request_outcome r s = Some out" "goes_on out"
    using step by (auto elim: thread_stepE)
  show ?thesis
  proof (cases "\<exists>fn arg. r = Create fn arg")
    case True
    with so(2) obtain fn arg where "thread_create fn arg s = Some out" by (auto simp: request_outcome_def)
    from inv this so(3) show ?thesis
    proof (cases rule: thread_create_returned)
      case (at i)
      moreover have "i \<noteq> 0" using at(3) st unfolding stacks_inv_def by metis
      ultimately show ?thesis using st by (simp add: so(1) continue_def stacks_inv_def)
    qed (use st in \<open>simp add: so(1) continue_def\<close>)
  next
    case False
    have "stack_part (continue out) = stack_part s"
      using so(2) False
      by (cases r) (auto simp: request_outcome_def dest: stack_part_yield stack_part_exit stack_part_join)
    moreover have "status (thread_context (continue out) ! 0) \<noteq> STATE_INVALID"
      using request_table [OF inv fin so(2)] st False by (cases "current s = 0") (auto simp: stacks_inv_def)
    ultimately show ?thesis unfolding so(1) by (rule stacks_inv_cong [OF st])
  qed
qed

lemma init_contexts_stacks: "stacks_inv stacks (init_contexts stacks zero_threads)"
  by (simp add: stacks_inv_def init_contexts_table zero_tcb_def) (simp add: zero_threads_def)

lemma reachable_stacks:
  assumes "reachable (init_contexts stacks zero_threads) s"
  shows "stacks_inv stacks s"
  using assms
proof (induction rule: reachable.induct)
  case (next_state s s')
  from stacks_inv_step [OF reachable_from_init [OF next_state.hyps(1)] next_state.IH next_state.hyps(2)]
  show ?case .
qed (rule init_contexts_stacks)

section \<open>Contexts that were never created\<close>

text \<open>An invalid context has no buffer, and it is not the current one.\<close>
definition fresh_inv :: "'a threads_state_scheme \<Rightarrow> bool" where
  "fresh_inv s \<longleftrightarrow> (\<forall>i < MAX_THREADS. status (thread_context s ! i) = STATE_INVALID \<longrightarrow>
     saved (thread_context s ! i) = None \<and> i \<noteq> current s)"

lemma fresh_inv_step:
  assumes inv: "threads_inv s" and fin: "no_finished s" and st: "stacks_inv stacks s" and fresh: "fresh_inv s"
    and step: "thread_step s s'"
  shows "fresh_inv s'"
proof -
  obtain r out where so: "s' = continue out" "request_outcome r s = Some out" "goes_on out"
    using step by (auto elim: thread_stepE)
  note len = threads_invD(1,2) [OF inv]
  show ?thesis
  proof (cases "\<exists>fn arg. r = Create fn arg")
    case True
    with so(2) obtain fn arg where "thread_create fn arg s = Some out" by (auto simp: request_outcome_def)
    from inv this so(3) show ?thesis
    proof (cases rule: thread_create_returned)
      case (at i)
      with fresh len show ?thesis by (auto simp: so(1) continue_def fresh_inv_def nth_list_update)
    qed (use fresh in \<open>simp add: so(1) continue_def\<close>)
  next
    case False
    then have "\<forall>fn arg. r \<noteq> Create fn arg" by blast
    note t = request_table [OF inv fin so(2) this]
    have 0: "status (thread_context s ! 0) \<noteq> STATE_INVALID" using st by (simp add: stacks_inv_def)
    have old: "status (thread_context s ! i) = STATE_INVALID \<and> i \<noteq> current s \<and> thread_context s' ! i = thread_context s ! i"
      if "i < 128" "status (thread_context s' ! i) = STATE_INVALID" for i
      using t that fresh len unfolding so(1) fresh_inv_def by (cases "i = current s") auto
    have "saved (thread_context s ! i) = None \<and> i \<noteq> current s'"
      if i: "i < 128" "status (thread_context s' ! i) = STATE_INVALID" for i
    proof -
      have "saved (thread_context s ! i) = None" using old [OF i] fresh i(1) by (simp add: fresh_inv_def)
      with t old [OF i] 0 show ?thesis unfolding so(1) by auto
    qed
    with old show ?thesis by (simp add: fresh_inv_def)
  qed
qed

lemma reachable_fresh:
  assumes "reachable (init_contexts stacks zero_threads) s"
  shows "fresh_inv s"
  using assms
proof (induction rule: reachable.induct)
  case start
  show ?case by (auto simp: fresh_inv_def init_contexts_table zero_tcb_def)
next
  case (next_state s s')
  note r = next_state.hyps(1)
  from fresh_inv_step [OF reachable_from_init [OF r] reachable_stacks [OF r] next_state.IH next_state.hyps(2)]
  show ?case .
qed

section \<open>Contexts that were created\<close>

text \<open>A context that is not invalid has a buffer, or it is the current one.\<close>
definition started_inv :: "'a threads_state_scheme \<Rightarrow> bool" where
  "started_inv s \<longleftrightarrow> (\<forall>i < MAX_THREADS. status (thread_context s ! i) \<noteq> STATE_INVALID \<and> i \<noteq> current s \<longrightarrow>
     saved (thread_context s ! i) \<noteq> None)"

text \<open>Whoever gives control away has saved his context.\<close>

lemma switch_to_saves:
  assumes "switch_to p i s = Some s'" "current s < length (thread_context s)"
  shows "saved (thread_context s' ! current s) = Some p"
  using assms by (auto simp: switch_to_def Let_def split: Option.bind_splits)

lemma long_jump_outcome: "long_jump i s = Some out \<Longrightarrow> out = Jumped (nat i) s"
  by (auto simp: long_jump_def split: Option.bind_splits if_splits)

lemma thread_yield_saves:
  assumes "thread_yield s = Some out" "current s < length (thread_context s)"
  shows "current (continue out) = current s \<or> saved (thread_context (continue out) ! current s) \<noteq> None"
  using assms(1)
  by (auto simp: thread_yield_def Let_def continue_def [of "Returned r s" for r s] assms(2)
      dest!: switch_to_saves long_jump_outcome split: Option.bind_splits option.splits)

lemma request_saves:
  assumes out: "request_outcome r s = Some out" "\<forall>fn arg. r \<noteq> Create fn arg" and cur: "current s < length (thread_context s)"
  shows "current (continue out) = current s \<or> saved (thread_context (continue out) ! current s) \<noteq> None"
proof (cases r)
  case Yield
  with out(1) thread_yield_saves [OF _ cur] show ?thesis by (simp add: request_outcome_def)
next
  case (Exit v)
  let ?s = "update_context (current s) (\<lambda>c. c\<lparr>status := STATE_FINISHED, return_value := v\<rparr>) s"
  from Exit out(1) have e: "thread_exit v s = Some out" by (simp add: request_outcome_def)
  show ?thesis
  proof (cases "joiner_thread_number (current_context ?s) = -1")
    case True
    with e have "thread_yield ?s = Some out" by (simp add: thread_exit_def Let_def)
    from thread_yield_saves [OF this] cur show ?thesis by simp
  next
    case False
    with e cur show ?thesis
      by (auto simp: thread_exit_def Let_def dest!: switch_to_saves long_jump_outcome split: Option.bind_splits)
  qed
next
  case (Join t)
  with out(1) cur show ?thesis
    by (auto simp: request_outcome_def thread_join_def Let_def continue_def [of "Returned r s" for r s]
        dest!: switch_to_saves long_jump_outcome split: Option.bind_splits if_splits)
qed (use out(2) in simp)

lemma started_inv_step:
  assumes inv: "threads_inv s" and fin: "no_finished s" and started: "started_inv s" and step: "thread_step s s'"
  shows "started_inv s'"
proof -
  obtain r out where so: "s' = continue out" "request_outcome r s = Some out" "goes_on out"
    using step by (auto elim: thread_stepE)
  note len = threads_invD(1,2) [OF inv]
  show ?thesis
  proof (cases "\<exists>fn arg. r = Create fn arg")
    case True
    with so(2) obtain fn arg where "thread_create fn arg s = Some out" by (auto simp: request_outcome_def)
    from inv this so(3) show ?thesis
    proof (cases rule: thread_create_returned)
      case (at i)
      with started len show ?thesis by (auto simp: so(1) continue_def started_inv_def nth_list_update)
    qed (use started in \<open>simp add: so(1) continue_def\<close>)
  next
    case False
    then have no: "\<forall>fn arg. r \<noteq> Create fn arg" by blast
    have "current s < length (thread_context s)" using len by simp
    note saves = request_saves [OF so(2) no this] and t = request_table [OF inv fin so(2) no]
    have "saved (thread_context s' ! i) \<noteq> None"
      if "i < 128" "status (thread_context s' ! i) \<noteq> STATE_INVALID" "i \<noteq> current s'" for i
      using that saves t started unfolding so(1) started_inv_def by (cases "i = current s") auto
    then show ?thesis by (simp add: started_inv_def)
  qed
qed

lemma reachable_started:
  assumes "reachable (init_contexts stacks zero_threads) s"
  shows "started_inv s"
  using assms
proof (induction rule: reachable.induct)
  case start
  show ?case by (auto simp: started_inv_def init_contexts_table)
next
  case (next_state s s')
  from started_inv_step [OF reachable_from_init [OF next_state.hyps(1)] next_state.IH next_state.hyps(2)]
  show ?case .
qed

text \<open>The two together: a context that is not the caller's was saved exactly when it was created.\<close>
lemma reachable_saved_iff:
  assumes "reachable (init_contexts stacks zero_threads) s" "i < MAX_THREADS"
  shows "i \<noteq> current s \<and> saved (thread_context s ! i) = None \<longleftrightarrow> status (thread_context s ! i) = STATE_INVALID"
  using reachable_fresh [OF assms(1)] reachable_started [OF assms(1)] assms(2) by (auto simp: fresh_inv_def started_inv_def)

section \<open>Who runs on the registered stack\<close>

text \<open>With different stacks, the caller runs on the registered one when it was created last.\<close>
lemma on_alternate_stack_iff:
  assumes "threads_inv s" "stacks_inv stacks s" "inj_on stacks {..<MAX_THREADS}" "\<forall>i < MAX_THREADS. stacks i \<noteq> NULL"
  shows "on_alternate_stack s \<longleftrightarrow> current s \<noteq> 0 \<and> current s = new_pos s"
proof (cases "new_pos s = 0")
  case False
  with assms have "alternate_stack s = stacks (new_pos s)" "new_pos s < 128" "current s < 128"
    "stack_array s (current s) = stacks (current s)"
    by (simp_all add: stacks_inv_def threads_inv_def)
  with assms(3,4) show ?thesis by (auto simp: on_alternate_stack_def dest: inj_onD)
qed (use assms(2) in \<open>auto simp: on_alternate_stack_def stacks_inv_def\<close>)


section \<open>Creating threads\<close>

text \<open>Thread 1 is created and gets control by a yield of the main program.\<close>
lemma thread_1_runs:
  "\<exists>s. reachable (init_contexts Suc zero_threads) s \<and> current s = 1 \<and> new_pos s = 1 \<and>
    status (thread_context s ! 2) = STATE_INVALID \<and> status (thread_context s ! 0) = STATE_ACTIVE \<and>
    saved (thread_context s ! 0) = Some In_yield"
proof -
  let ?s = "init_contexts Suc zero_threads" and ?s1 = "created_at 1 5 6 (init_contexts Suc zero_threads)"
  have alt: "\<not> on_alternate_stack ?s" by (simp add: on_alternate_stack_def)
  have "thread_create 5 6 ?s = Some (Returned 0 ?s1)"
    using init_contexts_inv [of Suc]
  proof (cases rule: thread_create_cases [where fn = 5 and arg = 6])
    case (free i)
    have "i \<noteq> 0" using free(2) by (cases "i = 0") (simp_all add: init_contexts_table zero_tcb_def)
    moreover have "\<not> 1 < i" using free(3) [of 1] by (auto simp: init_contexts_table)
    ultimately have "i = 1" by simp
    with free(5) show ?thesis by simp
  next
    case none
    from none(2) [of 1] show ?thesis by (simp add: init_contexts_table)
  qed (use alt in simp)
  then have "request_outcome (Create 5 6) ?s = Some (Returned 0 ?s1)" by (simp add: request_outcome_def)
  then have "thread_step ?s ?s1" using thread_step.step by (force simp: continue_def)
  then have r1: "reachable ?s ?s1" by (rule next_state [OF start])
  have inv: "threads_inv ?s1" by (rule reachable_from_init(1) [OF r1])
  have hit: "first_some (\<lambda>i. if status (thread_context ?s1 ! i) = STATE_ACTIVE then Some i else None) 1 128 = Some 1"
    by (rule first_some_hit [of _ 1]) simp_all
  obtain s2 where s2: "thread_yield ?s1 = Some (Jumped 1 s2)" "current s2 = 1" "new_pos s2 = 1"
    "thread_context s2 ! 2 = thread_context ?s1 ! 2" "thread_context s2 ! 0 = (thread_context ?s1 ! 0)\<lparr>saved := Some In_yield\<rparr>"
    unfolding thread_yield_eq [OF inv] hit
    by (simp add: alarm_deactivate_def update_context_def)
  then have "request_outcome Yield ?s1 = Some (Jumped 1 s2)" by (simp add: request_outcome_def)
  then have "thread_step ?s1 (continue (Jumped 1 s2))" by (rule thread_step.step) simp
  then have "reachable ?s (continue (Jumped 1 s2))" by (rule next_state [OF r1])
  moreover have "stack_part (continue (Jumped 1 s2)) = stack_part s2" by simp
  ultimately show ?thesis using s2(2-5)
    by (intro exI [of _ "continue (Jumped 1 s2)"]) (simp add: stack_part_def init_contexts_table zero_tcb_def)
qed

text \<open>
  C33: the thread that was created last ends the whole program when it creates a thread while
  a context is free: it runs on the stack that is registered with the system, so
  \<open>sigaltstack\<close> fails. Every other call of \<open>thread_create\<close> returns 0.
\<close>
theorem last_thread_cannot_create:
  assumes "reachable (init_contexts stacks zero_threads) s"
    and "inj_on stacks {..<MAX_THREADS}" "\<forall>i < MAX_THREADS. stacks i \<noteq> NULL"
  shows "if current s \<noteq> 0 \<and> current s = new_pos s \<and> (\<exists>i < MAX_THREADS. status (thread_context s ! i) = STATE_INVALID)
    then \<exists>s'. thread_create fn arg s = Some (Program_exit EXIT_FAILURE s')
    else \<exists>s'. thread_create fn arg s = Some (Returned 0 s')"
proof -
  note inv = reachable_from_init(1) [OF assms(1)] and st = reachable_stacks [OF assms(1)]
  note alt = on_alternate_stack_iff [OF inv st assms(2,3)]
  from inv show ?thesis
  proof (cases rule: thread_create_cases [where fn = fn and arg = arg])
    case (free i)
    moreover have "stack_array s i \<noteq> NULL" using free(1) st assms(3) by (simp add: stacks_inv_def)
    ultimately show ?thesis using alt by (cases "current s = 0") auto
  qed (use alt in auto)
qed

theorem last_thread_cannot_create_witness:
  "\<exists>s s'. reachable (init_contexts Suc zero_threads) s \<and> thread_create 7 8 s = Some (Program_exit EXIT_FAILURE s')"
proof -
  obtain s where s: "reachable (init_contexts Suc zero_threads) s" "current s = 1" "new_pos s = 1"
    "status (thread_context s ! 2) = STATE_INVALID" using thread_1_runs by blast
  then have "\<exists>i < MAX_THREADS. status (thread_context s ! i) = STATE_INVALID" by (intro exI [of _ 2]) simp
  with last_thread_cannot_create [OF s(1), of 7 8] s show ?thesis by auto
qed

end
