(* ===== verification/Threads_Properties.thy ===== *)
theory Threads_Properties imports Thread_Stacks begin

text \<open>
  What a program using the threads library can rely on, in every state it can reach after
  \<open>thread_init\<close>, whatever its threads request and in whatever order.
\<close>

lemma some_requests:
  assumes "threads_inv s"
  shows "\<forall>i < MAX_THREADS. stack_array s i \<noteq> NULL \<Longrightarrow> request_outcome (Create fn arg) s \<noteq> None"
    "request_outcome Yield s \<noteq> None" "request_outcome (Exit v) s \<noteq> None"
proof -
  show "request_outcome (Create fn arg) s \<noteq> None" if "\<forall>i < MAX_THREADS. stack_array s i \<noteq> NULL"
    using assms by (cases rule: thread_create_cases [where fn = fn and arg = arg]) (use that in \<open>simp_all add: request_outcome_def\<close>)
  show "request_outcome Yield s \<noteq> None"
    using assms by (simp add: request_outcome_def thread_yield_eq split: option.split)
  obtain s' where "thread_exit v s = Some (Jumped 0 s')" by (rule thread_exit_eq [OF assms, of v])
  then show "request_outcome (Exit v) s \<noteq> None" by (simp add: request_outcome_def)
qed

text \<open>
  C17: in every state a program reaches when \<open>malloc\<close> gave it all its stacks and the platform
  keeps the frame of \<open>sigusr_handler\<close> (\<open>frames_kept\<close>, true in \<open>zero_threads\<close>), creating,
  yielding and exiting are defined: no jump goes through a buffer that was never saved, no
  index leaves the table, and no signal is delivered without a stack. Joining gives control
  away to a context that was created, whatever its state, and is undefined for every other
  number, in the table or not.
\<close>

theorem thread_requests_defined:
  assumes "reachable (init_contexts stacks zero_threads) s" and "\<forall>i < MAX_THREADS. stacks i \<noteq> NULL"
  shows "request_outcome (Create fn arg) s \<noteq> None \<and> request_outcome Yield s \<noteq> None \<and>
    request_outcome (Exit v) s \<noteq> None \<and>
    (\<forall>t. if 0 \<le> t \<and> t < MAX_THREADS \<and> status (thread_context s ! nat t) \<noteq> STATE_INVALID
      then \<exists>s'. request_outcome (Join t) s = Some (Jumped (nat t) s')
      else request_outcome (Join t) s = None)"
proof -
  note inv = reachable_from_init(1) [OF assms(1)] and fin = reachable_from_init(2) [OF assms(1)]
  have stacks: "\<forall>i < MAX_THREADS. stack_array s i \<noteq> NULL"
    using reachable_stacks [OF assms(1)] assms(2) by (simp add: stacks_inv_def)
  have join: "if 0 \<le> t \<and> t < MAX_THREADS \<and> status (thread_context s ! nat t) \<noteq> STATE_INVALID
      then \<exists>s'. request_outcome (Join t) s = Some (Jumped (nat t) s') else request_outcome (Join t) s = None" for t
  proof (cases "0 \<le> t \<and> t < 128")
    case True
    then have t: "0 \<le> t" "t < 128" "nat t < 128" by auto
    note saved = reachable_saved_iff [OF assms(1) t(3)]
    from inv t(1,2) show ?thesis
    proof (cases rule: thread_join_cases)
      case finished
      with fin t show ?thesis by (simp add: no_finished_def)
    next
      case (jump s')
      with saved t show ?thesis by (auto simp: request_outcome_def)
    qed
  next
    case False
    then show ?thesis
      using threads_invD(1) [OF inv] by (auto simp: request_outcome_def thread_join_def context_at_def)
  qed
  with some_requests(1) [OF inv stacks] some_requests(2,3) [OF inv] show ?thesis by blast
qed

theorem thread_requests_defined_witness:
  "(\<exists>s'. request_outcome (Join 0) (init_contexts Suc zero_threads) = Some (Jumped 0 s')) \<and>
    request_outcome (Join 1) (init_contexts Suc zero_threads) = None"
proof -
  have "\<forall>t. if 0 \<le> t \<and> t < MAX_THREADS \<and> status (thread_context (init_contexts Suc zero_threads) ! nat t) \<noteq> STATE_INVALID
      then \<exists>s'. request_outcome (Join t) (init_contexts Suc zero_threads) = Some (Jumped (nat t) s')
      else request_outcome (Join t) (init_contexts Suc zero_threads) = None"
    using thread_requests_defined [OF reachable.start, where stacks = Suc] by simp
  from this [rule_format, of 0] this [rule_format, of 1] show ?thesis by (simp add: init_contexts_table zero_tcb_def)
qed

text \<open>Without the promise about the frame the first switch to a new thread is undefined.\<close>

lemma first_switch_needs_frame:
  assumes "i < length (thread_context s)" "i \<noteq> current s" "saved (thread_context s ! i) = Some In_start" "\<not> frames_kept s"
  shows "do { s \<leftarrow> switch_to p (int i) s; long_jump (int i) s } = None"
  using assms by (simp add: switch_to_def long_jump_def context_at_def update_context_def Let_def)

lemma first_thread_needs_frame:
  "thread_yield (created_at 1 fn arg (init_contexts stacks (zero_threads\<lparr>frames_kept := False\<rparr>))) = None"
proof -
  let ?s = "created_at 1 fn arg (init_contexts stacks (zero_threads\<lparr>frames_kept := False\<rparr>))"
  have "thread_context (init_contexts stacks (zero_threads\<lparr>frames_kept := False\<rparr>)) = thread_context (init_contexts stacks zero_threads)"
    by (simp add: init_contexts_def update_context_def zero_threads_def Let_def)
  then have ctx: "thread_context ?s = (thread_context (init_contexts stacks zero_threads))[1 :=
      (thread_context (init_contexts stacks zero_threads) ! 1)\<lparr>thread_function := fn, argument := arg, status := STATE_ACTIVE, saved := Some In_start\<rparr>]"
    by simp
  have len: "length (thread_context (init_contexts stacks zero_threads)) = 128" by simp
  have num: "number (current_context ?s) = 0" unfolding ctx by (simp add: init_contexts_table zero_tcb_def)
  have hit: "first_some (\<lambda>i. if status (thread_context ?s ! i) = STATE_ACTIVE then Some i else None) 1 128 = Some 1"
    by (rule first_some_hit [of _ 1]) (simp_all add: ctx)
  have "do { s \<leftarrow> switch_to In_yield (int 1) (alarm_deactivate ?s); long_jump (int 1) s } = None"
    by (rule first_switch_needs_frame) (simp_all add: ctx)
  then show ?thesis unfolding thread_yield_choose [OF num] hit by simp
qed

text \<open>
  A creation that returns takes the first invalid context, which becomes active, with the
  function and argument, ready to start; the others are unchanged. The result is always 0,
  whatever the index taken, since no context is ever given a number. When the table is full
  the state is unchanged and the result is 0 as well.
\<close>

lemma thread_create_result:
  assumes "reachable (init_contexts stacks zero_threads) s" "thread_create fn arg s = Some (Returned r s')"
  shows "r = 0 \<and>
    (case first_some (\<lambda>i. if status (thread_context s ! i) = STATE_INVALID then Some i else None) 0 MAX_THREADS of
       None \<Rightarrow> s' = s
     | Some i \<Rightarrow> thread_context s' = (thread_context s)[i := (thread_context s ! i)\<lparr>thread_function := fn, argument := arg,
            status := STATE_ACTIVE, saved := Some In_start\<rparr>])"
  using reachable_from_init(1) [OF assms(1)]
proof (cases rule: thread_create_cases [where fn = fn and arg = arg])
  case (free i)
  have "first_some (\<lambda>i. if status (thread_context s ! i) = STATE_INVALID then Some i else None) 0 128 = Some i"
    by (rule first_some_hit [of _ i]) (use free in simp_all)
  then show ?thesis using free(5) assms(2) by (auto split: if_splits)
next
  case (ends i s1)
  with assms(2) show ?thesis by simp
next
  case none
  then have "first_some (\<lambda>i. if status (thread_context s ! i) = STATE_INVALID then Some i else None) 0 128 = None"
    by (intro first_some_None) simp
  with none(1) assms(2) show ?thesis by simp
qed

text \<open>
  C30: yielding saves the current context and gives control to the active context with the
  lowest index from 1, be it the caller's own; thread 0 is never chosen, and a thread after
  an active one with a lower index is never reached. With no active context from 1 on it
  returns 0 and leaves the table as it was. The timer is stopped in both cases and started
  again when control comes back.
\<close>

theorem thread_yield_choice:
  assumes "reachable (init_contexts stacks zero_threads) s"
  shows "(\<forall>i. 1 \<le> i \<and> i < MAX_THREADS \<and> status (thread_context s ! i) = STATE_ACTIVE \<and>
       (\<forall>j. 1 \<le> j \<and> j < i \<longrightarrow> status (thread_context s ! j) \<noteq> STATE_ACTIVE) \<longrightarrow>
       (\<exists>s'. thread_yield s = Some (Jumped i s') \<and> current s' = i \<and> timer s' = 0 \<and>
          thread_context s' = (thread_context s)[current s := (current_context s)\<lparr>saved := Some In_yield\<rparr>])) \<and>
    ((\<forall>i. 1 \<le> i \<and> i < MAX_THREADS \<longrightarrow> status (thread_context s ! i) \<noteq> STATE_ACTIVE) \<longrightarrow>
       thread_yield s = Some (Returned 0 (s\<lparr>timer := 0\<rparr>)))"
proof -
  note inv = reachable_from_init(1) [OF assms]
  let ?g = "\<lambda>i. if status (thread_context s ! i) = STATE_ACTIVE then Some i else None"
  have jump: "\<exists>s'. thread_yield s = Some (Jumped i s') \<and> current s' = i \<and> timer s' = 0 \<and>
      thread_context s' = (thread_context s)[current s := (current_context s)\<lparr>saved := Some In_yield\<rparr>]"
    if "1 \<le> i" "i < MAX_THREADS" "status (thread_context s ! i) = STATE_ACTIVE"
      "\<forall>j. 1 \<le> j \<and> j < i \<longrightarrow> status (thread_context s ! j) \<noteq> STATE_ACTIVE" for i
  proof -
    have "first_some ?g 1 128 = Some i"
      by (rule first_some_hit [of _ i]) (use that in simp_all)
    then show ?thesis
      by (simp add: thread_yield_eq [OF inv] update_context_def alarm_deactivate_def)
  qed
  have stay: "thread_yield s = Some (Returned 0 (s\<lparr>timer := 0\<rparr>))"
    if "\<forall>i. 1 \<le> i \<and> i < MAX_THREADS \<longrightarrow> status (thread_context s ! i) \<noteq> STATE_ACTIVE"
  proof -
    have "first_some ?g 1 128 = None" by (rule first_some_None) (use that in auto)
    then show ?thesis by (simp add: thread_yield_eq [OF inv] alarm_deactivate_def)
  qed
  show ?thesis
    by (intro conjI allI impI) (use jump in blast, use stay in blast)
qed

theorem thread_yield_choice_witness:
  "thread_yield (init_contexts Suc zero_threads) =
     Some (Returned 0 ((init_contexts Suc zero_threads)\<lparr>timer := 0\<rparr>))"
proof -
  have "\<forall>i. 1 \<le> i \<and> i < MAX_THREADS \<longrightarrow>
      status (thread_context (init_contexts Suc zero_threads) ! i) \<noteq> STATE_ACTIVE"
    by (simp add: init_contexts_table)
  then show ?thesis
    using thread_yield_choice [OF reachable.start, where stacks = Suc] by blast
qed

text \<open>
  A thread that exits is not finished: its context is active again with the value it
  returned, control goes to thread 0, whoever joined it, and the other contexts are
  unchanged.
\<close>

lemma thread_exit_resumes_main:
  assumes "reachable (init_contexts stacks zero_threads) s"
  shows "\<exists>s'. thread_exit v s = Some (Jumped 0 s') \<and> current s' = 0 \<and>
    status (thread_context s' ! current s) = STATE_ACTIVE \<and>
    (\<forall>j. j \<noteq> current s \<longrightarrow> thread_context s' ! j = thread_context s ! j)"
proof -
  obtain s' where "thread_exit v s = Some (Jumped 0 s')" "current s' = 0"
    "status (thread_context s' ! current s) = STATE_ACTIVE"
    "\<And>j. j \<noteq> current s \<Longrightarrow> thread_context s' ! j = thread_context s ! j"
    by (rule thread_exit_eq [OF reachable_from_init(1) [OF assms], of v]) (rule that)
  then show ?thesis by blast
qed

lemma thread_exit_resumes_main_example:
  "\<exists>s'. thread_exit 9 (init_contexts Suc zero_threads) = Some (Jumped 0 s') \<and> current s' = 0"
  using thread_exit_resumes_main [OF reachable.start, where stacks = Suc and v = 9] by blast

text \<open>
  When the main thread joins what \<open>thread_create\<close> returned, the join gives control
  back to the main thread itself at once: no other thread has run, the main thread is left
  blocked in the table, and the other contexts are unchanged.
\<close>

lemma thread_join_returns_at_once:
  assumes "reachable (init_contexts stacks zero_threads) s" and "current s = 0"
    and "thread_create fn arg s = Some (Returned n s1)"
  shows "\<exists>s'. thread_join n s1 = Some (Jumped 0 s') \<and> current (continue (Jumped 0 s')) = 0 \<and>
      status (thread_context (continue (Jumped 0 s')) ! 0) = STATE_BLOCKED \<and>
      (\<forall>j > 0. thread_context (continue (Jumped 0 s')) ! j = thread_context s1 ! j)"
proof -
  have out: "request_outcome (Create fn arg) s = Some (Returned n s1)" using assms(3) by (simp add: request_outcome_def)
  then have "thread_step s s1" using thread_step.step by (force simp: continue_def)
  then have reach: "reachable (init_contexts stacks zero_threads) s1" by (rule next_state [OF assms(1)])
  note inv = reachable_from_init(1) [OF reach] and fin = reachable_from_init(2) [OF reach]
  have "n = 0 \<and> current s1 = 0"
    by (rule thread_create_returned [OF reachable_from_init(1) [OF assms(1)] assms(3)]) (use assms(2) in auto)
  then have n: "n = 0" and cur: "current s1 = 0" by simp_all
  show ?thesis
  proof (cases rule: thread_join_cases [OF inv, of 0])
    case 3
    with fin show ?thesis by (simp add: no_finished_def)
  next
    case (4 s')
    with cur n show ?thesis by auto
  qed simp_all
qed

end
