(* ===== verification/Mutex.thy ===== *)
theory Mutex imports C_Prelude begin

text \<open>
  The spin lock of \<open>HW2-skeleton/synchronization.c\<close>: the functions as one thread runs them
  when nobody else touches the mutex, and as the atomic steps of any number of threads,
  interleaved in any order. \<open>lock_rel\<close> relates the steps to an abstract lock with an owner.
\<close>

text \<open>A mutex is its field \<open>locked\<close>.\<close>
type_synonym thread_mutex = int

definition atomic_compare_exchange :: "int \<Rightarrow> int \<Rightarrow> int \<Rightarrow> bool \<times> int" where
  "atomic_compare_exchange obj expected desired = (if obj = expected then (True, desired) else (False, obj))"

section \<open>A thread by itself\<close>

text \<open>\<open>None\<close> is a call that never returns.\<close>

definition thread_mutex_init :: "thread_mutex option \<Rightarrow> thread_mutex option" where
  "thread_mutex_init mutex = map_option (\<lambda>_. 0) mutex"

partial_function (option) spin :: "thread_mutex \<Rightarrow> thread_mutex option" where
  "spin m = (if m \<noteq> 0 then spin m else Some m)"

partial_function (option) thread_mutex_lock :: "thread_mutex \<Rightarrow> thread_mutex option" where
  "thread_mutex_lock m = do {
     m \<leftarrow> spin m;
     (case atomic_compare_exchange m 0 1 of (ok, m) \<Rightarrow> if ok then Some m else thread_mutex_lock m)
   }"

definition thread_mutex_unlock :: "thread_mutex \<Rightarrow> thread_mutex" where
  "thread_mutex_unlock m = 0"

lemma spin_free: "spin 0 = Some 0"
  by (subst spin.simps) simp

lemma lock_free: "thread_mutex_lock 0 = Some 1"
  by (subst thread_mutex_lock.simps) (simp add: spin_free atomic_compare_exchange_def)

lemma spin_returns: "spin m = Some m' \<Longrightarrow> m = 0 \<and> m' = 0"
  by (erule spin.raw_induct [where P = "\<lambda>m m'. m = 0 \<and> m' = 0", rotated]) (auto split: if_splits)

lemma lock_returns: "thread_mutex_lock m = Some m' \<Longrightarrow> m = 0 \<and> m' = 1"
  by (subst (asm) thread_mutex_lock.simps)
    (auto simp: atomic_compare_exchange_def dest!: spin_returns split: Option.bind_splits if_splits)

section \<open>Interleaved threads\<close>

text \<open>
  Where a thread is: outside, in the inner loop, about to exchange, or behind the lock. Each
  step is one access to \<open>locked\<close>.
\<close>
datatype lock_pc = Outside | Spinning | Exchanging | Critical

record lock_state =
  locked :: int
  pc :: "nat \<Rightarrow> lock_pc"

definition goto :: "nat \<Rightarrow> lock_pc \<Rightarrow> lock_state \<Rightarrow> lock_state" where
  "goto t p s = s\<lparr>pc := (pc s)(t := p)\<rparr>"

lemma goto_simps [simp]:
  "locked (goto t p s) = locked s" "pc (goto t p s) u = (if u = t then p else pc s u)"
  by (simp_all add: goto_def)

inductive lock_step :: "nat \<Rightarrow> lock_state \<Rightarrow> lock_state \<Rightarrow> bool" for t where
  call: "pc s t = Outside \<Longrightarrow> lock_step t s (goto t Spinning s)"
| spin_on: "pc s t = Spinning \<Longrightarrow> locked s \<noteq> 0 \<Longrightarrow> lock_step t s s"
| spin_out: "pc s t = Spinning \<Longrightarrow> locked s = 0 \<Longrightarrow> lock_step t s (goto t Exchanging s)"
| exchange: "pc s t = Exchanging \<Longrightarrow> atomic_compare_exchange (locked s) 0 1 = (ok, m) \<Longrightarrow>
    lock_step t s ((goto t (if ok then Critical else Spinning) s)\<lparr>locked := m\<rparr>)"
| unlock: "pc s t = Critical \<Longrightarrow> lock_step t s ((goto t Outside s)\<lparr>locked := thread_mutex_unlock (locked s)\<rparr>)"

inductive lock_run :: "lock_state \<Rightarrow> lock_state \<Rightarrow> bool" for s0 where
  lock_run_start: "lock_run s0 s0"
| lock_run_step: "lock_run s0 s \<Longrightarrow> lock_step t s s' \<Longrightarrow> lock_run s0 s'"

text \<open>All threads are outside of a mutex that was initialised.\<close>
definition unlocked :: lock_state where
  "unlocked = \<lparr>locked = the (thread_mutex_init (Some 7)), pc = \<lambda>_. Outside\<rparr>"

section \<open>An abstract lock\<close>

text \<open>An abstract lock is its owner; it is taken only when free, and released by its owner.\<close>
inductive owner_step :: "nat \<Rightarrow> nat option \<Rightarrow> nat option \<Rightarrow> bool" for t where
  acquire: "owner_step t None (Some t)"
| release: "owner_step t (Some t) None"

definition lock_rel :: "lock_state \<Rightarrow> nat option \<Rightarrow> bool" where
  "lock_rel s ow \<longleftrightarrow> locked s = (if ow = None then 0 else 1) \<and> (\<forall>t. pc s t = Critical \<longleftrightarrow> ow = Some t)"

lemma lock_rel_unlocked: "lock_rel unlocked None"
  by (simp add: lock_rel_def unlocked_def thread_mutex_init_def)

text \<open>Every step is a step of the abstract lock, or leaves its owner unchanged.\<close>

lemma lock_step_simulates:
  assumes "lock_rel s ow" "lock_step t s s'"
  obtains ow' where "lock_rel s' ow'" "ow' = ow \<or> owner_step t ow ow'"
proof -
  have own: "ow \<noteq> Some t" if "pc s t \<noteq> Critical" using assms(1) that by (auto simp: lock_rel_def)
  show thesis
    using assms(2)
  proof (cases rule: lock_step.cases)
    case call
    with assms(1) own show thesis by (intro that [of ow]) (simp_all add: lock_rel_def)
  next
    case spin_on
    with assms(1) show thesis by (intro that [of ow]) auto
  next
    case spin_out
    with assms(1) own show thesis by (intro that [of ow]) (simp_all add: lock_rel_def)
  next
    case (exchange ok m)
    show thesis
    proof (cases ow)
      case None
      with assms(1) exchange show thesis
        by (intro that [of "Some t"]) (auto simp: lock_rel_def atomic_compare_exchange_def intro: owner_step.intros)
    next
      case (Some u)
      with assms(1) exchange own show thesis
        by (intro that [of ow]) (auto simp: lock_rel_def atomic_compare_exchange_def)
    qed
  next
    case unlock
    with assms(1) have "ow = Some t" by (simp add: lock_rel_def)
    with assms(1) unlock show thesis
      by (intro that [of None]) (auto simp: lock_rel_def thread_mutex_unlock_def intro: owner_step.intros)
  qed
qed

lemma lock_run_rel: "lock_run s0 s \<Longrightarrow> lock_rel s0 ow0 \<Longrightarrow> \<exists>ow. lock_rel s ow"
proof (induction rule: lock_run.induct)
  case (lock_run_step s t s')
  then obtain ow where "lock_rel s ow" by blast
  from lock_step_simulates [OF this lock_run_step.hyps(2)] show ?case by blast
qed blast

section \<open>Progress\<close>

text \<open>A thread's own steps, while the others pause.\<close>
inductive solo :: "nat \<Rightarrow> lock_state \<Rightarrow> lock_state \<Rightarrow> bool" for t where
  solo_refl: "solo t s s"
| solo_step: "lock_step t s s1 \<Longrightarrow> solo t s1 s' \<Longrightarrow> solo t s s'"

lemma solo_exchange:
  assumes "locked s = 0" "pc s t = Exchanging"
  shows "solo t s ((goto t Critical s)\<lparr>locked := 1\<rparr>)"
  using lock_step.exchange [OF assms(2), of True 1] assms(1)
  by (auto simp: atomic_compare_exchange_def intro: solo.intros)

lemma goto_goto [simp]: "goto t p (goto t q s) = goto t p s"
  by (simp add: goto_def)

lemma solo_spinning:
  assumes "locked s = 0" "pc s t = Spinning"
  shows "solo t s ((goto t Critical s)\<lparr>locked := 1\<rparr>)"
  using solo_step [OF lock_step.spin_out [OF assms(2,1)] solo_exchange [of "goto t Exchanging s" t]] assms(1)
  by simp

lemma solo_acquires:
  assumes "locked s = 0" "pc s t \<noteq> Critical"
  shows "solo t s ((goto t Critical s)\<lparr>locked := 1\<rparr>)"
proof (cases "pc s t")
  case Outside
  from solo_step [OF lock_step.call [OF this] solo_spinning [of "goto t Spinning s" t]] assms(1)
  show ?thesis by simp
qed (use assms solo_spinning [of s t] solo_exchange [of s t] in simp_all)

end
