(* ===== verification/Condition.thy ===== *)
theory Condition imports Mutex LL_Double Threads_Inv begin

text \<open>
  The condition variables of \<open>HW2-skeleton/synchronization.c\<close>: an internal mutex and a list
  of waiters, whose data are the addresses of the \<open>number\<close> fields of the waiting contexts.
  The state is that of the threads library with the memory of the list nodes.
\<close>

record thread_cond =
  internal_mutex :: thread_mutex
  waiters_list :: ll_list

record sync_state = threads_state +
  memory :: heap

text \<open>\<open>&thread_context[i].number\<close>, which is never NULL, and what is read through it.\<close>
definition number_field :: "nat \<Rightarrow> ptr" where
  "number_field i = Suc i"

definition waiter_thread_id :: "'a threads_state_scheme \<Rightarrow> ptr \<Rightarrow> int option" where
  "waiter_thread_id s p = map_option number (context_at s (int p - 1))"

section \<open>The code\<close>

definition thread_cond_init :: "thread_cond \<Rightarrow> thread_cond option" where
  "thread_cond_init cv =
     do {
       l \<leftarrow> ll_init (Some (waiters_list cv));
       m \<leftarrow> thread_mutex_init (Some (internal_mutex cv));
       Some (cv\<lparr>waiters_list := l, internal_mutex := m\<rparr>)
     }"

text \<open>
  The part of \<open>thread_cond_wait\<close> with both mutexes locked; \<open>new_node\<close> is what \<open>malloc\<close>
  returned in \<open>ll_insert_tail\<close>.
\<close>
definition cond_block :: "ptr \<Rightarrow> thread_cond \<Rightarrow> sync_state \<Rightarrow> (thread_cond \<times> sync_state) option" where
  "cond_block new_node cv s =
     do {
       im \<leftarrow> thread_mutex_lock (internal_mutex cv);
       (_, l, h) \<leftarrow> ll_insert_tail new_node (number_field (current s)) (waiters_list cv) (memory s);
       let s = update_context (current s) (\<lambda>c. c\<lparr>status := STATE_BLOCKED\<rparr>) (s\<lparr>memory := h\<rparr>);
       Some (cv\<lparr>internal_mutex := im, waiters_list := l\<rparr>, s)
     }"

text \<open>The part before \<open>thread_yield\<close>.\<close>
definition cond_enqueue :: "ptr \<Rightarrow> thread_cond \<Rightarrow> thread_mutex \<Rightarrow> sync_state \<Rightarrow> (thread_cond \<times> thread_mutex \<times> sync_state) option" where
  "cond_enqueue new_node cv mutex s =
     do {
       (cv, s) \<leftarrow> cond_block new_node cv s;
       let mutex = thread_mutex_unlock mutex;
       Some (cv\<lparr>internal_mutex := thread_mutex_unlock (internal_mutex cv)\<rparr>, mutex, s)
     }"

text \<open>
  When \<open>thread_yield\<close> jumps away the mutex stays unlocked; \<open>cond_wait_resumed\<close> is the rest
  of the function once control has come back.
\<close>
definition thread_cond_wait ::
    "ptr \<Rightarrow> thread_cond \<Rightarrow> thread_mutex \<Rightarrow> sync_state \<Rightarrow> (thread_cond \<times> thread_mutex \<times> sync_state outcome) option" where
  "thread_cond_wait new_node cv mutex s =
     do {
       (cv, mutex, s) \<leftarrow> cond_enqueue new_node cv mutex s;
       out \<leftarrow> thread_yield s;
       (case out of
          Returned _ s \<Rightarrow> do { mutex \<leftarrow> thread_mutex_lock mutex; Some (cv, mutex, Returned 0 s) }
        | Jumped i s \<Rightarrow> Some (cv, mutex, Jumped i s)
        | Program_exit c s \<Rightarrow> Some (cv, mutex, Program_exit c s))
     }"

definition cond_wait_resumed :: "thread_mutex \<Rightarrow> (int \<times> thread_mutex) option" where
  "cond_wait_resumed mutex = do { mutex \<leftarrow> thread_mutex_lock mutex; Some (0, mutex) }"

definition thread_cond_signal :: "thread_cond \<Rightarrow> sync_state \<Rightarrow> (int \<times> thread_cond \<times> sync_state) option" where
  "thread_cond_signal cv s =
     do {
       im \<leftarrow> thread_mutex_lock (internal_mutex cv);
       (removed_value, l, h) \<leftarrow> ll_remove_head (waiters_list cv) (memory s);
       let s = s\<lparr>memory := h\<rparr>;
       let cv = cv\<lparr>internal_mutex := im, waiters_list := l\<rparr>;
       (if removed_value \<noteq> NULL then
          do {
            n \<leftarrow> load_at h removed_value;
            thread_id \<leftarrow> waiter_thread_id s (node_data n);
            _ \<leftarrow> context_at s thread_id;
            let s = update_context (nat thread_id) (\<lambda>c. c\<lparr>status := STATE_ACTIVE\<rparr>) s;
            Some (0, cv\<lparr>internal_mutex := thread_mutex_unlock (internal_mutex cv)\<rparr>, s)
          }
        else Some (1, cv\<lparr>internal_mutex := thread_mutex_unlock (internal_mutex cv)\<rparr>, s))
     }"

partial_function (option) thread_cond_broadcast :: "thread_cond \<Rightarrow> sync_state \<Rightarrow> (int \<times> thread_cond \<times> sync_state) option" where
  "thread_cond_broadcast cv s =
     do {
       (r, cv, s) \<leftarrow> thread_cond_signal cv s;
       (if r = 0 then thread_cond_broadcast cv s else Some (0, cv, s))
     }"

section \<open>The waiters\<close>

text \<open>The threads \<open>ws\<close> wait, the first one for the longest time.\<close>
definition waiting :: "thread_cond \<Rightarrow> sync_state \<Rightarrow> nat list \<Rightarrow> bool" where
  "waiting cv s ws \<longleftrightarrow> internal_mutex cv = 0 \<and>
     (\<exists>as. list_at (memory s) (waiters_list cv) as (map number_field ws))"

lemma waiting_init:
  assumes "thread_cond_init cv = Some cv'"
  shows "waiting cv' s []"
proof -
  from assms have "ll_init (Some (waiters_list cv)) = Some (waiters_list cv')" "internal_mutex cv' = 0"
    by (auto simp: thread_cond_init_def thread_mutex_init_def split: Option.bind_splits)
  then show ?thesis by (auto simp: waiting_def dest: ll_init_list_at [where h = "memory s"])
qed

lemma cond_block_ok:
  assumes w: "waiting cv s ws" and new: "new_node \<noteq> NULL" "memory s new_node = None"
  obtains cv' s' where "cond_block new_node cv s = Some (cv'\<lparr>internal_mutex := 1\<rparr>, s')" "waiting cv' s' (ws @ [current s])"
    "s' = update_context (current s) (\<lambda>c. c\<lparr>status := STATE_BLOCKED\<rparr>) (s\<lparr>memory := memory s'\<rparr>)"
proof -
  obtain as where l: "list_at (memory s) (waiters_list cv) as (map number_field ws)" and im: "internal_mutex cv = 0"
    using w by (auto simp: waiting_def)
  obtain l' h' where ins: "ll_insert_tail new_node (number_field (current s)) (waiters_list cv) (memory s) = Some (new_node, l', h')"
    "list_at h' l' (as @ [new_node]) (map number_field ws @ [number_field (current s)])"
    by (rule ll_insert_tail_ok [OF l new])
  let ?s = "update_context (current s) (\<lambda>c. c\<lparr>status := STATE_BLOCKED\<rparr>) (s\<lparr>memory := h'\<rparr>)"
  have mem: "memory ?s = h'" by (simp add: update_context_def)
  have "cond_block new_node cv s = Some (cv\<lparr>internal_mutex := 0, waiters_list := l'\<rparr>\<lparr>internal_mutex := 1\<rparr>, ?s)"
    using ins(1) im by (cases cv) (simp add: cond_block_def lock_free Let_def)
  moreover have "waiting (cv\<lparr>internal_mutex := 0, waiters_list := l'\<rparr>) ?s (ws @ [current s])"
    using ins(2) unfolding waiting_def mem by auto
  ultimately show thesis by (rule that) (simp only: mem)
qed

lemma cond_enqueue_ok:
  assumes "waiting cv s ws" "new_node \<noteq> NULL" "memory s new_node = None"
  obtains cv' s' where "cond_enqueue new_node cv mutex s = Some (cv', 0, s')" "waiting cv' s' (ws @ [current s])"
    "s' = update_context (current s) (\<lambda>c. c\<lparr>status := STATE_BLOCKED\<rparr>) (s\<lparr>memory := memory s'\<rparr>)"
proof -
  obtain cv' s' where b: "cond_block new_node cv s = Some (cv'\<lparr>internal_mutex := 1\<rparr>, s')" "waiting cv' s' (ws @ [current s])"
    "s' = update_context (current s) (\<lambda>c. c\<lparr>status := STATE_BLOCKED\<rparr>) (s\<lparr>memory := memory s'\<rparr>)"
    by (rule cond_block_ok [OF assms]) (rule that)
  have "internal_mutex cv' = 0" using b(2) by (simp add: waiting_def)
  then have "cond_enqueue new_node cv mutex s = Some (cv', 0, s')"
    using b(1) by (cases cv') (simp add: cond_enqueue_def thread_mutex_unlock_def)
  then show thesis by (rule that) (use b(2,3) in simp_all)
qed

lemma thread_cond_signal_ok:
  assumes w: "waiting cv s (w # ws)" and i: "w < length (thread_context s)"
    and n: "0 \<le> number (thread_context s ! w)" "number (thread_context s ! w) < int (length (thread_context s))"
  obtains cv' s' where "thread_cond_signal cv s = Some (0, cv', s')" "waiting cv' s' ws"
    "s' = update_context (nat (number (thread_context s ! w))) (\<lambda>c. c\<lparr>status := STATE_ACTIVE\<rparr>) (s\<lparr>memory := memory s'\<rparr>)"
proof -
  obtain as where l: "list_at (memory s) (waiters_list cv) as (map number_field (w # ws))" and im: "internal_mutex cv = 0"
    using w by (auto simp: waiting_def)
  then obtain a as' where as: "as = a # as'" using list_at_length [OF l] by (cases as) auto
  from l have l: "list_at (memory s) (waiters_list cv) (a # as') (number_field w # map number_field ws)" by (simp add: as)
  obtain l' h' where rem: "ll_remove_head (waiters_list cv) (memory s) = Some (a, l', h')" "list_at h' l' as' (map number_field ws)"
    "data_at h' a = Some (number_field w)"
    by (rule ll_remove_head_ok [OF l]) (rule that)
  have a: "a \<noteq> NULL" using list_at_node [OF l, of a] by auto
  from rem(3) obtain m where m: "h' a = Some m" "node_data m = number_field w" by (auto simp: data_at_def)
  let ?s = "update_context (nat (number (thread_context s ! w))) (\<lambda>c. c\<lparr>status := STATE_ACTIVE\<rparr>) (s\<lparr>memory := h'\<rparr>)"
  have mem: "memory ?s = h'" by (simp add: update_context_def)
  have "context_at (s\<lparr>memory := h'\<rparr>) (int w) = Some (thread_context s ! w)"
    using i by (simp add: context_at_def)
  then have id: "waiter_thread_id (s\<lparr>memory := h'\<rparr>) (number_field w) = Some (number (thread_context s ! w))"
    by (simp add: waiter_thread_id_def number_field_def)
  have ctx: "context_at (s\<lparr>memory := h'\<rparr>) (number (thread_context s ! w)) \<noteq> None"
    using n by (simp add: context_at_def)
  have "thread_cond_signal cv s = Some (0, cv\<lparr>internal_mutex := 0, waiters_list := l'\<rparr>, ?s)"
    using rem(1) a m id ctx im
    by (auto simp: thread_cond_signal_def lock_free load_at_def thread_mutex_unlock_def Let_def)
  moreover have "waiting (cv\<lparr>internal_mutex := 0, waiters_list := l'\<rparr>) ?s ws"
    using rem(2) unfolding waiting_def mem by auto
  ultimately show thesis by (rule that) (simp only: mem)
qed

lemma thread_cond_signal_empty:
  assumes "waiting cv s []"
  shows "thread_cond_signal cv s = Some (1, cv, s)"
proof -
  obtain as where l: "list_at (memory s) (waiters_list cv) as []" and im: "internal_mutex cv = 0"
    using assms by (auto simp: waiting_def)
  have "as = []" using list_at_length [OF l] by simp
  with l have "list_head (waiters_list cv) = NULL" by simp
  with im show ?thesis
    by (simp add: thread_cond_signal_def ll_remove_empty(1) lock_free thread_mutex_unlock_def Let_def)
qed

text \<open>A broadcast ends; it activates the context that each waiter's number names.\<close>

lemma thread_cond_broadcast_ok:
  assumes "waiting cv s ws"
    and "\<And>w. w \<in> set ws \<Longrightarrow> w < length (thread_context s)"
    and "\<And>w. w < length (thread_context s) \<Longrightarrow> 0 \<le> number (thread_context s ! w) \<and>
      number (thread_context s ! w) < int (length (thread_context s))"
  shows "\<exists>cv' s'. thread_cond_broadcast cv s = Some (0, cv', s') \<and> waiting cv' s' [] \<and>
    length (thread_context s') = length (thread_context s) \<and>
    (\<forall>i < length (thread_context s). thread_context s' ! i =
       (if i \<in> (\<lambda>w. nat (number (thread_context s ! w))) ` set ws
        then (thread_context s ! i)\<lparr>status := STATE_ACTIVE\<rparr> else thread_context s ! i))"
  using assms
proof (induction ws arbitrary: cv s)
  case Nil
  then show ?case by (subst thread_cond_broadcast.simps) (simp add: thread_cond_signal_empty)
next
  case (Cons w ws)
  have w: "w < length (thread_context s)" using Cons.prems(2) by simp
  note n = Cons.prems(3) [OF w]
  obtain cv1 s1 where s1: "thread_cond_signal cv s = Some (0, cv1, s1)" "waiting cv1 s1 ws"
    "s1 = update_context (nat (number (thread_context s ! w))) (\<lambda>c. c\<lparr>status := STATE_ACTIVE\<rparr>) (s\<lparr>memory := memory s1\<rparr>)"
    by (rule thread_cond_signal_ok [OF Cons.prems(1) w]) (use n in simp, use n in simp, rule that)
  let ?k = "nat (number (thread_context s ! w))"
  have k: "?k < length (thread_context s)" using n by (simp add: nat_less_iff)
  have ctx: "thread_context s1 = (thread_context s)[?k := (thread_context s ! ?k)\<lparr>status := STATE_ACTIVE\<rparr>]"
    by (subst s1(3)) (simp add: update_context_def)
  then have len: "length (thread_context s1) = length (thread_context s)" by simp
  have num: "number (thread_context s1 ! i) = number (thread_context s ! i)" for i
    using k by (cases "i = ?k") (simp_all add: ctx)
  have "\<exists>cv' s'. thread_cond_broadcast cv1 s1 = Some (0, cv', s') \<and> waiting cv' s' [] \<and>
    length (thread_context s') = length (thread_context s1) \<and>
    (\<forall>i < length (thread_context s1). thread_context s' ! i =
       (if i \<in> (\<lambda>w. nat (number (thread_context s1 ! w))) ` set ws
        then (thread_context s1 ! i)\<lparr>status := STATE_ACTIVE\<rparr> else thread_context s1 ! i))"
    by (rule Cons.IH [OF s1(2)]) (use Cons.prems(2,3) in \<open>simp_all add: len num\<close>)
  then obtain cv' s' where s': "thread_cond_broadcast cv1 s1 = Some (0, cv', s')" "waiting cv' s' []"
    "length (thread_context s') = length (thread_context s)"
    "\<And>i. i < length (thread_context s) \<Longrightarrow> thread_context s' ! i =
       (if i \<in> (\<lambda>w. nat (number (thread_context s ! w))) ` set ws
        then (thread_context s1 ! i)\<lparr>status := STATE_ACTIVE\<rparr> else thread_context s1 ! i)"
    by (auto simp: len num)
  have "thread_cond_broadcast cv s = Some (0, cv', s')"
    by (subst thread_cond_broadcast.simps) (simp add: s1(1) s'(1))
  moreover have "thread_context s' ! i =
       (if i \<in> (\<lambda>w. nat (number (thread_context s ! w))) ` set (w # ws)
        then (thread_context s ! i)\<lparr>status := STATE_ACTIVE\<rparr> else thread_context s ! i)"
    if "i < length (thread_context s)" for i
    using s'(4) [OF that] k by (cases "i = ?k") (simp_all add: ctx)
  ultimately show ?case using s'(2,3) by blast
qed

end
