(* ===== verification/Synchronization_Properties.thy ===== *)
theory Synchronization_Properties imports Condition Thread_Stacks begin

text \<open>
  The guarantees of mutexes and condition variables: of the spin lock for every interleaving
  of its threads, of the condition variables for every list of waiters, and what becomes of
  them with the contexts of the threads library.
\<close>

text \<open>
  C6: however the steps of any number of threads are interleaved, at most one thread is
  behind the lock, and \<open>locked\<close> is set exactly while one is; a call of the lock function then
  spins until it is released, and returns with the lock set when nobody holds it.
\<close>

theorem mutex_excludes:
  assumes "lock_run unlocked s"
  shows "(\<forall>t u. pc s t = Critical \<and> pc s u = Critical \<longrightarrow> t = u) \<and>
    (locked s \<noteq> 0 \<longleftrightarrow> (\<exists>t. pc s t = Critical)) \<and>
    thread_mutex_lock (locked s) = (if \<exists>t. pc s t = Critical then None else Some 1)"
proof -
  obtain ow where rel: "lock_rel s ow"
    using lock_run_rel [OF assms lock_rel_unlocked] by blast
  have own: "(\<exists>t. pc s t = Critical) \<longleftrightarrow> ow \<noteq> None" using rel by (auto simp: lock_rel_def)
  have "thread_mutex_lock (locked s) = (if ow = None then Some 1 else None)"
  proof (cases ow)
    case None
    with rel show ?thesis by (simp add: lock_rel_def lock_free)
  next
    case (Some t)
    with rel have "locked s = 1" by (simp add: lock_rel_def)
    with lock_returns [of 1] Some show ?thesis by (cases "thread_mutex_lock 1") auto
  qed
  moreover have "locked s \<noteq> 0 \<longleftrightarrow> ow \<noteq> None" using rel by (simp add: lock_rel_def)
  ultimately show ?thesis using rel own by (auto simp: lock_rel_def)
qed

text \<open>Thread 1 takes the lock while thread 2 spins.\<close>
lemma lock_run_taken:
  "\<exists>s. lock_run unlocked s \<and> pc s 1 = Critical \<and> pc s 2 = Spinning"
proof -
  let ?s1 = "goto 2 Spinning unlocked"
  have l0: "locked unlocked = 0" "pc unlocked t = Outside" for t
    by (simp_all add: unlocked_def thread_mutex_init_def)
  have 1: "lock_run unlocked ?s1"
    by (rule lock_run_step [OF lock_run_start lock_step.call]) (simp add: l0)
  have 2: "lock_run unlocked (goto 1 Spinning ?s1)"
    by (rule lock_run_step [OF 1 lock_step.call]) (simp add: l0)
  have 3: "lock_run unlocked (goto 1 Exchanging ?s1)"
    using lock_run_step [OF 2 lock_step.spin_out [of _ 1]] l0 by simp
  have "lock_run unlocked ((goto 1 Critical (goto 1 Exchanging ?s1))\<lparr>locked := 1\<rparr>)"
    using lock_run_step [OF 3 lock_step.exchange [of _ 1 True 1]] l0
    by (simp add: atomic_compare_exchange_def)
  then show ?thesis
    by (intro exI [of _ "(goto 1 Critical (goto 1 Exchanging ?s1))\<lparr>locked := 1\<rparr>"]) simp
qed

theorem mutex_excludes_witness:
  "\<exists>s. lock_run unlocked s \<and> pc s 1 = Critical \<and> pc s 2 \<noteq> Critical \<and> thread_mutex_lock (locked s) = None"
proof -
  obtain s where s: "lock_run unlocked s" "pc s 1 = Critical" using lock_run_taken by blast
  note m = mutex_excludes [OF s(1)]
  from m [THEN conjunct1, rule_format, of 1 2] s(2) have "pc s 2 \<noteq> Critical" by auto
  moreover from m [THEN conjunct2, THEN conjunct2] s(2) have "thread_mutex_lock (locked s) = None" by metis
  ultimately show ?thesis using s by blast
qed

text \<open>
  C27: the lock is never lost: in every reachable state in which no thread is behind it, any
  thread gets it by its own steps alone, wherever it and the others are in the lock function.
\<close>

theorem mutex_acquirable:
  assumes "lock_run unlocked s" and "\<forall>u. pc s u \<noteq> Critical"
  shows "\<exists>s'. solo t s s' \<and> pc s' t = Critical \<and> locked s' = 1 \<and> (\<forall>u. u \<noteq> t \<longrightarrow> pc s' u = pc s u)"
proof -
  obtain ow where "lock_rel s ow" using lock_run_rel [OF assms(1) lock_rel_unlocked] by blast
  with assms(2) have "locked s = 0" by (cases ow) (auto simp: lock_rel_def)
  from solo_acquires [OF this] assms(2) show ?thesis
    by (intro exI [of _ "(goto t Critical s)\<lparr>locked := 1\<rparr>"]) simp
qed

theorem mutex_acquirable_witness:
  "\<exists>s'. solo 3 unlocked s' \<and> pc s' 3 = Critical"
  using mutex_acquirable [OF lock_run_start, of 3] by (auto simp: unlocked_def)

text \<open>The contexts of a synchronisation state, without the memory, were reached by a program.\<close>
definition reached_sync :: "(nat \<Rightarrow> ptr) \<Rightarrow> sync_state \<Rightarrow> bool" where
  "reached_sync stacks s \<longleftrightarrow> reachable (init_contexts stacks zero_threads) (threads_state.truncate s)"

lemma reached_sync_inv: "reached_sync stacks s \<Longrightarrow> threads_inv s"
  using reachable_from_init(1) [of stacks "threads_state.truncate s"]
  by (simp add: reached_sync_def threads_inv_def threads_state.defs)

definition sync_of :: "threads_state \<Rightarrow> sync_state" where
  "sync_of s = threads_state.extend s \<lparr>memory = Map.empty\<rparr>"

lemma sync_of_simps [simp]:
  "threads_state.truncate (sync_of s) = s" "memory (sync_of s) = Map.empty"
  "thread_context (sync_of s) = thread_context s" "current (sync_of s) = current s" "frames_kept (sync_of s) = frames_kept s"
  by (simp_all add: sync_of_def threads_state.defs)

definition no_waiters :: thread_cond where
  "no_waiters = \<lparr>internal_mutex = 0, waiters_list = \<lparr>list_head = NULL, list_tail = NULL\<rparr>\<rparr>"

lemma no_waiters_waiting: "waiting no_waiters s []"
  unfolding waiting_def no_waiters_def by (intro conjI exI [of _ "[]"]) simp_all

text \<open>
  C16: waiting is first in, first out: after the current thread has queued itself behind the
  threads \<open>ws\<close> and released the mutex, a signal takes the one that has waited longest off
  the queue and activates the context its number names; the other contexts keep their state.
\<close>

theorem cond_wait_signal_fifo:
  assumes "waiting cv s ws" and "new_node \<noteq> NULL" and "memory s new_node = None"
    and "\<forall>w \<in> set (current s # ws). w < length (thread_context s) \<and>
      0 \<le> number (thread_context s ! w) \<and> number (thread_context s ! w) < int (length (thread_context s))"
  shows "\<exists>cv1 s1 cv2 s2. cond_enqueue new_node cv mutex s = Some (cv1, 0, s1) \<and>
    waiting cv1 s1 (ws @ [current s]) \<and>
    thread_cond_signal cv1 s1 = Some (0, cv2, s2) \<and> waiting cv2 s2 (tl (ws @ [current s])) \<and>
    thread_context s2 = (let ts = (thread_context s)[current s := (thread_context s ! current s)\<lparr>status := STATE_BLOCKED\<rparr>];
        k = nat (number (thread_context s ! hd (ws @ [current s])))
      in ts[k := (ts ! k)\<lparr>status := STATE_ACTIVE\<rparr>])"
proof -
  obtain cv1 s1 where e: "cond_enqueue new_node cv mutex s = Some (cv1, 0, s1)" "waiting cv1 s1 (ws @ [current s])"
    "s1 = update_context (current s) (\<lambda>c. c\<lparr>status := STATE_BLOCKED\<rparr>) (s\<lparr>memory := memory s1\<rparr>)"
    by (rule cond_enqueue_ok [OF assms(1-3)])
  let ?ts = "(thread_context s)[current s := (thread_context s ! current s)\<lparr>status := STATE_BLOCKED\<rparr>]"
  have ctx: "thread_context s1 = ?ts" by (subst e(3)) (simp add: update_context_def)
  have num: "number (?ts ! w) = number (thread_context s ! w)" for w
    using assms(4) by (cases "w = current s") simp_all
  let ?w = "hd (ws @ [current s])"
  have w: "ws @ [current s] = ?w # tl (ws @ [current s])" "?w \<in> set (current s # ws)"
    by (cases ws, simp_all)+
  with assms(4) have ok: "?w < length (thread_context s1)" "0 \<le> number (thread_context s1 ! ?w)"
    "number (thread_context s1 ! ?w) < int (length (thread_context s1))"
    unfolding ctx num by auto
  from e(2) w(1) have q: "waiting cv1 s1 (?w # tl (ws @ [current s]))" by simp
  obtain cv2 s2 where "thread_cond_signal cv1 s1 = Some (0, cv2, s2)" "waiting cv2 s2 (tl (ws @ [current s]))"
    "s2 = update_context (nat (number (thread_context s1 ! ?w))) (\<lambda>c. c\<lparr>status := STATE_ACTIVE\<rparr>) (s1\<lparr>memory := memory s2\<rparr>)"
    by (rule thread_cond_signal_ok [OF q ok])
  moreover from arg_cong [OF this(3), of thread_context] have "thread_context s2 = (let k = nat (number (thread_context s ! ?w)) in ?ts[k := (?ts ! k)\<lparr>status := STATE_ACTIVE\<rparr>])"
    by (simp add: update_context_def ctx num Let_def)
  ultimately show ?thesis using e(1,2) unfolding Let_def by blast
qed

lemma sample_sync: "threads_inv (sync_of (init_contexts Suc zero_threads))"
  using init_contexts_inv [of Suc] by (simp add: threads_inv_def)

theorem cond_wait_signal_fifo_witness:
  "\<exists>cv1 s1 cv2 s2. cond_enqueue 40 no_waiters 1 (sync_of (init_contexts Suc zero_threads)) = Some (cv1, 0, s1) \<and>
    thread_cond_signal cv1 s1 = Some (0, cv2, s2) \<and> waiting cv2 s2 []"
proof -
  let ?s = "sync_of (init_contexts Suc zero_threads)"
  note inv = sample_sync
  have "\<forall>w \<in> set (current ?s # []). w < length (thread_context ?s) \<and>
      0 \<le> number (thread_context ?s ! w) \<and> number (thread_context ?s ! w) < int (length (thread_context ?s))"
    using threads_invD [OF inv] by simp
  from cond_wait_signal_fifo [OF no_waiters_waiting _ _ this, of 40 1] show ?thesis by auto
qed

text \<open>
  C24: a broadcast ends whatever the number of waiters, empties the queue and activates
  exactly the contexts named by the numbers of the waiters.
\<close>

theorem cond_broadcast_wakes_all:
  assumes "waiting cv s ws"
    and "\<forall>w \<in> set ws. w < length (thread_context s)"
    and "\<forall>w < length (thread_context s). 0 \<le> number (thread_context s ! w) \<and>
      number (thread_context s ! w) < int (length (thread_context s))"
  shows "\<exists>cv' s'. thread_cond_broadcast cv s = Some (0, cv', s') \<and> waiting cv' s' [] \<and>
    (\<forall>i < length (thread_context s). thread_context s' ! i =
       (if \<exists>w \<in> set ws. i = nat (number (thread_context s ! w))
        then (thread_context s ! i)\<lparr>status := STATE_ACTIVE\<rparr> else thread_context s ! i))"
proof -
  have "\<exists>cv' s'. thread_cond_broadcast cv s = Some (0, cv', s') \<and> waiting cv' s' [] \<and>
    length (thread_context s') = length (thread_context s) \<and>
    (\<forall>i < length (thread_context s). thread_context s' ! i =
       (if i \<in> (\<lambda>w. nat (number (thread_context s ! w))) ` set ws
        then (thread_context s ! i)\<lparr>status := STATE_ACTIVE\<rparr> else thread_context s ! i))"
    by (rule thread_cond_broadcast_ok [OF assms(1)]) (use assms(2,3) in auto)
  then obtain cv' s' where "thread_cond_broadcast cv s = Some (0, cv', s')" "waiting cv' s' []"
    "\<forall>i < length (thread_context s). thread_context s' ! i =
       (if i \<in> (\<lambda>w. nat (number (thread_context s ! w))) ` set ws
        then (thread_context s ! i)\<lparr>status := STATE_ACTIVE\<rparr> else thread_context s ! i)" by blast
  then show ?thesis unfolding image_iff by blast
qed

theorem cond_broadcast_wakes_all_witness:
  "\<exists>cv1 s1 cv2 s2. cond_enqueue 40 no_waiters 1 (sync_of (init_contexts Suc zero_threads)) = Some (cv1, 0, s1) \<and>
    status (thread_context s1 ! 0) = STATE_BLOCKED \<and>
    thread_cond_broadcast cv1 s1 = Some (0, cv2, s2) \<and> waiting cv2 s2 [] \<and> status (thread_context s2 ! 0) = STATE_ACTIVE"
proof -
  let ?s = "sync_of (init_contexts Suc zero_threads)"
  note fields = threads_invD [OF sample_sync]
  have "(40 :: nat) \<noteq> NULL" "memory ?s 40 = None" by simp_all
  from cond_enqueue_ok [OF no_waiters_waiting this, of 1] obtain cv1 s1 where
    e: "cond_enqueue 40 no_waiters 1 ?s = Some (cv1, 0, s1)" "waiting cv1 s1 ([] @ [current ?s])"
    "s1 = update_context (current ?s) (\<lambda>c. c\<lparr>status := STATE_BLOCKED\<rparr>) (?s\<lparr>memory := memory s1\<rparr>)" .
  have ctx: "thread_context s1 = (thread_context ?s)[0 := (thread_context ?s ! 0)\<lparr>status := STATE_BLOCKED\<rparr>]"
    by (subst e(3)) (simp add: update_context_def)
  have "waiting cv1 s1 [0]" using e(2) by simp
  moreover have "\<forall>w \<in> set [0]. w < length (thread_context s1)" by (simp add: ctx)
  moreover have "number (thread_context s1 ! w) = 0" if "w < 128" for w
    using fields(3) [OF that] fields(3) [of 0] fields(1) that by (simp add: ctx nth_list_update)
  then have "\<forall>w < length (thread_context s1). 0 \<le> number (thread_context s1 ! w) \<and>
      number (thread_context s1 ! w) < int (length (thread_context s1))" by (simp add: ctx)
  ultimately obtain cv2 s2 where "thread_cond_broadcast cv1 s1 = Some (0, cv2, s2)" "waiting cv2 s2 []"
    "\<forall>i < length (thread_context s1). thread_context s2 ! i =
       (if \<exists>w \<in> set [0]. i = nat (number (thread_context s1 ! w))
        then (thread_context s1 ! i)\<lparr>status := STATE_ACTIVE\<rparr> else thread_context s1 ! i)"
    using cond_broadcast_wakes_all [of cv1 s1 "[0]"] by blast
  moreover have "number (thread_context s1 ! 0) = 0" using \<open>\<And>w. w < 128 \<Longrightarrow> number (thread_context s1 ! w) = 0\<close> by simp
  ultimately have "status (thread_context s2 ! 0) = STATE_ACTIVE" by (simp add: ctx)
  with e(1) \<open>thread_cond_broadcast cv1 s1 = _\<close> \<open>waiting cv2 s2 []\<close> show ?thesis by (simp add: ctx)
qed

text \<open>
  With the contexts of a program that was started by \<open>thread_init\<close> a wake-up is lost: a
  signal takes the waiting thread off the queue but activates thread 0, so a waiter other
  than thread 0 stays blocked with an empty queue.
\<close>

lemma cond_signal_loses_wakeup:
  assumes "reached_sync stacks s" and "current s \<noteq> 0"
    and "waiting cv s []" and "new_node \<noteq> NULL" and "memory s new_node = None"
  shows "\<exists>cv1 s1 cv2 s2. cond_enqueue new_node cv mutex s = Some (cv1, 0, s1) \<and>
    thread_cond_signal cv1 s1 = Some (0, cv2, s2) \<and> waiting cv2 s2 [] \<and>
    status (thread_context s2 ! current s) = STATE_BLOCKED \<and> status (thread_context s2 ! 0) = STATE_ACTIVE"
proof -
  note fields = threads_invD [OF reached_sync_inv [OF assms(1)]]
  obtain cv1 s1 where e: "cond_enqueue new_node cv mutex s = Some (cv1, 0, s1)" "waiting cv1 s1 ([] @ [current s])"
    "s1 = update_context (current s) (\<lambda>c. c\<lparr>status := STATE_BLOCKED\<rparr>) (s\<lparr>memory := memory s1\<rparr>)"
    by (rule cond_enqueue_ok [OF assms(3-5)])
  have ctx: "thread_context s1 = (thread_context s)[current s := (thread_context s ! current s)\<lparr>status := STATE_BLOCKED\<rparr>]"
    by (subst e(3)) (simp add: update_context_def)
  have num: "number (thread_context s1 ! current s) = 0"
    using fields(1,2) fields(3) [of "current s"] by (simp add: ctx)
  have w: "waiting cv1 s1 [current s]" using e(2) by simp
  obtain cv2 s2 where s2: "thread_cond_signal cv1 s1 = Some (0, cv2, s2)" "waiting cv2 s2 []"
    "s2 = update_context (nat (number (thread_context s1 ! current s))) (\<lambda>c. c\<lparr>status := STATE_ACTIVE\<rparr>) (s1\<lparr>memory := memory s2\<rparr>)"
    by (rule thread_cond_signal_ok [OF w]) (use fields(1,2) num in \<open>simp add: ctx\<close>, simp add: num,
      use fields(1) num in \<open>simp add: ctx\<close>, rule that)
  have "thread_context s2 = (thread_context s1)[0 := (thread_context s1 ! 0)\<lparr>status := STATE_ACTIVE\<rparr>]"
    by (subst s2(3)) (simp add: update_context_def num)
  with ctx fields(1,2) assms(2) have "status (thread_context s2 ! current s) = STATE_BLOCKED"
    "status (thread_context s2 ! 0) = STATE_ACTIVE" by simp_all
  with e(1) s2(1,2) show ?thesis by blast
qed

lemma cond_signal_loses_wakeup_example:
  "\<exists>s cv1 s1 cv2 s2. current s = 1 \<and> cond_enqueue 40 no_waiters 1 s = Some (cv1, 0, s1) \<and>
    thread_cond_signal cv1 s1 = Some (0, cv2, s2) \<and> status (thread_context s2 ! 1) = STATE_BLOCKED"
proof -
  obtain s where s: "reachable (init_contexts Suc zero_threads) s" "current s = 1"
    using thread_1_runs by blast
  then have "reached_sync Suc (sync_of s)" "current (sync_of s) \<noteq> 0" by (simp_all add: reached_sync_def)
  from cond_signal_loses_wakeup [OF this no_waiters_waiting, of 40 1] s(2) show ?thesis by (metis sync_of_simps(2,4) empty_iff
    zero_neq_numeral)
qed

end
