(* ===== verification/Alarm.thy ===== *)
theory Alarm imports Synchronization_Properties begin

text \<open>
  What the alarm timer does when it interrupts the library itself: the handler yields for the
  thread that runs. Between the calls of the library that is a request like another; inside
  of a call it meets the states \<open>mark_context\<close> and \<open>cond_block\<close>.
\<close>

section \<open>An alarm inside of a creation\<close>

lemma mark_context_simps [simp]:
  "length (thread_context (mark_context i fn arg s)) = length (thread_context s)"
  "current (mark_context i fn arg s) = current s"
  "j \<noteq> i \<Longrightarrow> thread_context (mark_context i fn arg s) ! j = thread_context s ! j"
  "i < length (thread_context s) \<Longrightarrow> thread_context (mark_context i fn arg s) ! i =
     (thread_context s ! i)\<lparr>thread_function := fn, argument := arg, status := STATE_ACTIVE\<rparr>"
  by (simp_all add: mark_context_def update_context_def)

text \<open>A switch to a context without a buffer.\<close>
lemma jump_unsaved:
  assumes "i < length (thread_context s)" "i \<noteq> current s" "saved (thread_context s ! i) = None"
  shows "do { s \<leftarrow> switch_to p (int i) s; long_jump (int i) s } = None"
  using assms by (simp add: switch_to_def long_jump_def context_at_def update_context_def Let_def)

text \<open>
  C35: an alarm inside of \<open>thread_create\<close>, after the new context has been marked active and
  before it has a buffer, makes the program undefined when no context below it is active,
  other than thread 0: the handler gives control to the new context, through a buffer that was
  never saved.
\<close>
theorem alarm_in_create_undefined:
  assumes "reachable (init_contexts stacks zero_threads) s"
    and "i < MAX_THREADS" "status (thread_context s ! i) = STATE_INVALID"
    and "\<forall>j. 1 \<le> j \<and> j < i \<longrightarrow> status (thread_context s ! j) \<noteq> STATE_ACTIVE"
  shows "sigalm_handler (mark_context i fn arg s) = None"
proof -
  note inv = reachable_from_init(1) [OF assms(1)]
  note len = threads_invD(1) [OF inv]
  let ?s = "mark_context i fn arg s"
  have i: "saved (thread_context s ! i) = None" "i \<noteq> current s"
    using reachable_fresh [OF assms(1)] assms(2,3) by (auto simp: fresh_inv_def)
  have "i \<noteq> 0" using reachable_stacks [OF assms(1)] assms(3) unfolding stacks_inv_def by metis
  then have hit: "first_some (\<lambda>j. if status (thread_context ?s ! j) = STATE_ACTIVE then Some j else None) 1 128 = Some i"
    by (intro first_some_hit [of _ i]) (use assms(2,4) len in simp_all)
  have num: "number (current_context ?s) = 0" using i(2) threads_invD(2,3) [OF inv] by simp
  have "do { s \<leftarrow> switch_to In_yield (int i) (alarm_deactivate ?s); long_jump (int i) s } = None"
    by (rule jump_unsaved) (use assms(2) i len in simp_all)
  then show ?thesis unfolding sigalm_handler_def thread_yield_choose [OF num] hit by simp
qed

text \<open>
  The main program creates thread 1 and yields; thread 1 joins it and is blocked; the yield
  returns and starts the timer. Context 2 is the next to be created.
\<close>
lemma main_runs_with_timer:
  "\<exists>s. reachable (init_contexts Suc zero_threads) s \<and> current s = 0 \<and> timer s = 100000 \<and>
    status (thread_context s ! 1) = STATE_BLOCKED \<and> status (thread_context s ! 2) = STATE_INVALID"
proof -
  obtain s where s: "reachable (init_contexts Suc zero_threads) s" "current s = 1"
    "status (thread_context s ! 2) = STATE_INVALID" "status (thread_context s ! 0) = STATE_ACTIVE"
    "saved (thread_context s ! 0) = Some In_yield" using thread_1_runs by blast
  obtain s' where s': "thread_join 0 s = Some (Jumped 0 s')" "current s' = 0"
    "status (thread_context s' ! 1) = STATE_BLOCKED" "\<And>j. j \<noteq> 1 \<Longrightarrow> thread_context s' ! j = thread_context s ! j"
  proof (cases rule: thread_join_cases [OF reachable_from_init(1) [OF s(1)], of 0])
    case 3
    with s(4) show thesis by simp
  next
    case (4 s')
    with s show thesis by (intro that [of s']) simp_all
  qed simp_all
  have "request_outcome (Join 0) s = Some (Jumped 0 s')" using s'(1) by (simp add: request_outcome_def)
  then have "thread_step s (continue (Jumped 0 s'))" by (rule thread_step.step) simp
  then have "reachable (init_contexts Suc zero_threads) (continue (Jumped 0 s'))" by (rule next_state [OF s(1)])
  moreover have "timer (continue (Jumped 0 s')) = 100000"
    using s'(4) [of 0] s(5) by (simp add: continue_def resumed_def alarm_activate_def)
  ultimately show ?thesis using s'(2-4) s(3) by (intro exI [of _ "continue (Jumped 0 s')"]) simp
qed

theorem alarm_in_create_undefined_witness:
  "\<exists>s. reachable (init_contexts Suc zero_threads) s \<and> timer s = 100000 \<and> sigalm_handler (mark_context 2 5 6 s) = None"
proof -
  obtain s where s: "reachable (init_contexts Suc zero_threads) s" "timer s = 100000"
    "status (thread_context s ! 1) = STATE_BLOCKED" "status (thread_context s ! 2) = STATE_INVALID"
    using main_runs_with_timer by blast
  have "status (thread_context s ! j) \<noteq> STATE_ACTIVE" if "1 \<le> j \<and> j < 2" for j
  proof -
    from that have "j = 1" by simp
    with s(3) show ?thesis by simp
  qed
  with alarm_in_create_undefined [OF s(1) _ s(4), of 5 6] s(1,2) show ?thesis by auto
qed

section \<open>An alarm inside of a wait\<close>

text \<open>
  Any steps of the other threads that do not jump to the buffer of thread \<open>k\<close>: whatever they
  request, except to join \<open>k\<close>, and except to exit when \<open>k\<close> is thread 0.
\<close>
inductive others_run :: "nat \<Rightarrow> 'a threads_state_scheme \<Rightarrow> 'a threads_state_scheme \<Rightarrow> bool" for k s0 where
  others_start: "others_run k s0 s0"
| others_next: "others_run k s0 s \<Longrightarrow> r \<noteq> Join (int k) \<Longrightarrow> (k = 0 \<longrightarrow> (\<forall>v. r \<noteq> Exit v)) \<Longrightarrow>
    request_outcome r s = Some out \<Longrightarrow> goes_on out \<Longrightarrow> others_run k s0 (continue out)"

text \<open>A blocked thread stays so, without control, while only the others run.\<close>

definition parked :: "nat \<Rightarrow> 'a threads_state_scheme \<Rightarrow> bool" where
  "parked k s \<longleftrightarrow> threads_inv s \<and> current s \<noteq> k \<and> status (thread_context s ! k) = STATE_BLOCKED"

lemma parked_step:
  assumes k: "parked k s" and r: "r \<noteq> Join (int k)" "k = 0 \<longrightarrow> (\<forall>v. r \<noteq> Exit v)"
    and out: "request_outcome r s = Some out" "goes_on out"
  shows "parked k (continue out)"
proof -
  have inv: "threads_inv s" and cur: "current s \<noteq> k" and blocked: "status (thread_context s ! k) = STATE_BLOCKED"
    using k by (simp_all add: parked_def)
  note len = threads_invD(1,2) [OF inv]
  have "current (continue out) \<noteq> k \<and> status (thread_context (continue out) ! k) = STATE_BLOCKED"
  proof (cases r)
    case (Create fn arg)
    with out have "thread_create fn arg s = Some out" by (simp add: request_outcome_def)
    from inv this out(2) show ?thesis
    proof (cases rule: thread_create_returned)
      case (at i)
      with blocked have "i \<noteq> k" by auto
      with at cur blocked show ?thesis by (simp add: continue_def)
    qed (use cur blocked in \<open>simp add: continue_def\<close>)
  next
    case Yield
    let ?g = "\<lambda>i. if status (thread_context s ! i) = STATE_ACTIVE then Some i else None"
    from Yield out(1) have y: "thread_yield s = Some out" by (simp add: request_outcome_def)
    show ?thesis
    proof (cases "first_some ?g 1 128")
      case None
      with y cur blocked show ?thesis by (auto simp: thread_yield_eq [OF inv] continue_def)
    next
      case (Some i)
      then have "status (thread_context s ! i) = STATE_ACTIVE" using first_some_in [OF Some] by (auto split: if_splits)
      with Some y len cur blocked show ?thesis by (auto simp: thread_yield_eq [OF inv])
    qed
  next
    case (Exit v)
    obtain s1 where "thread_exit v s = Some (Jumped 0 s1)" "current s1 = 0"
      "\<And>j. j \<noteq> current s \<Longrightarrow> thread_context s1 ! j = thread_context s ! j"
      by (rule thread_exit_eq [OF inv, of v]) (rule that)
    with out(1) Exit r(2) cur blocked show ?thesis by (auto simp: request_outcome_def)
  next
    case (Join t)
    with out(1) have j: "thread_join t s = Some out" by (simp add: request_outcome_def)
    then have t: "0 \<le> t" "t < 128"
      using len by (auto simp: thread_join_def context_at_def split: if_splits)
    have "nat t \<noteq> k" using r(1) Join t(1) by auto
    from inv t show ?thesis
    proof (cases rule: thread_join_cases)
      case finished
      with j \<open>nat t \<noteq> k\<close> len t cur blocked show ?thesis by (auto simp: continue_def nat_less_iff)
    next
      case (jump s1)
      with j \<open>nat t \<noteq> k\<close> cur blocked show ?thesis by (auto split: if_splits)
    qed
  qed
  with threads_inv_request [OF inv out] show ?thesis by (simp add: parked_def)
qed

lemma others_run_parked: "others_run k s0 s \<Longrightarrow> parked k s0 \<Longrightarrow> parked k s"
  by (induction rule: others_run.induct) (auto intro: parked_step)

text \<open>
  C34: while the alarm timer runs, an alarm can arrive inside of \<open>thread_cond_wait\<close>, before it
  unlocks its mutexes. When another thread from 1 on is active, the handler gives control away
  from the waiting thread, which is blocked and holds the lock of the program and that of the
  condition variable. Whoever locks that mutex, or signals, broadcasts or waits on that
  condition variable, spins without end; and whatever the other threads create, yield, exit
  or join, the waiting thread stays blocked and without control, unless one of them joins it,
  or exits while the waiting thread is thread 0: these two jump to a blocked context.
\<close>
theorem alarm_in_wait_keeps_locks:
  assumes "threads_inv s" "waiting cv s ws" "new_node \<noteq> NULL" "memory s new_node = None"
    and "thread_mutex_lock mutex = Some held" and "0 < timer s"
    and "1 \<le> j" "j < MAX_THREADS" "j \<noteq> current s" "status (thread_context s ! j) = STATE_ACTIVE"
  shows "\<exists>cv1 s1 i s2. cond_block new_node cv s = Some (cv1, s1) \<and> 0 < timer s1 \<and> sigalm_handler s1 = Some (Jumped i s2) \<and>
    (\<forall>s3. others_run (current s) (continue (Jumped i s2)) s3 \<longrightarrow>
      current s3 \<noteq> current s \<and> status (thread_context s3 ! current s) = STATE_BLOCKED) \<and>
    thread_mutex_lock held = None \<and>
    (\<forall>s3 n m. thread_cond_signal cv1 s3 = None \<and> thread_cond_broadcast cv1 s3 = None \<and> thread_cond_wait n cv1 m s3 = None)"
proof -
  obtain cv' s1 where b: "cond_block new_node cv s = Some (cv'\<lparr>internal_mutex := 1\<rparr>, s1)" "waiting cv' s1 (ws @ [current s])"
    "s1 = update_context (current s) (\<lambda>c. c\<lparr>status := STATE_BLOCKED\<rparr>) (s\<lparr>memory := memory s1\<rparr>)"
    by (rule cond_block_ok [OF assms(2-4)])
  note len = threads_invD(1,2) [OF assms(1)]
  have tab: "thread_context s1 = (thread_context s)[current s := (current_context s)\<lparr>status := STATE_BLOCKED\<rparr>]"
    by (subst b(3)) (simp add: update_context_def)
  have cur: "current s1 = current s" by (subst b(3)) simp
  have timer: "timer s1 = timer s" by (subst b(3)) simp
  have "frames_kept s1" using threads_invD(5) [OF assms(1)] by (subst b(3)) simp
  with assms(1) have inv: "threads_inv s1" by (auto simp: threads_inv_def tab cur nth_list_update)
  let ?g = "\<lambda>i. if status (thread_context s1 ! i) = STATE_ACTIVE then Some i else None"
  have "?g j \<noteq> None" using assms(9,10) by (simp add: tab)
  then obtain i where i: "first_some ?g 1 128 = Some i" "status (thread_context s1 ! i) = STATE_ACTIVE"
    using assms(7,8) by (cases rule: first_some_cases [of ?g 1 128]) (auto split: if_splits)
  then have "i \<noteq> current s" using len by (auto simp: tab)
  have yield: "request_outcome Yield s1 = sigalm_handler s1" by (simp add: request_outcome_def sigalm_handler_def)
  obtain s2 where s2: "sigalm_handler s1 = Some (Jumped i s2)" "current s2 = i" "status (thread_context s2 ! current s) = STATE_BLOCKED"
    using i(1) len by (simp add: sigalm_handler_def thread_yield_eq [OF inv] cur tab update_context_def alarm_deactivate_def)
  have "threads_inv (continue (Jumped i s2))" by (rule threads_inv_request [OF inv yield [unfolded s2(1)]]) simp
  with s2(2,3) \<open>i \<noteq> current s\<close> have parked: "parked (current s) (continue (Jumped i s2))" by (simp add: parked_def)
  have stays: "current s3 \<noteq> current s \<and> status (thread_context s3 ! current s) = STATE_BLOCKED"
    if "others_run (current s) (continue (Jumped i s2)) s3" for s3
    using others_run_parked [OF that parked] by (simp add: parked_def)
  have locked: "thread_mutex_lock 1 = None" by (cases "thread_mutex_lock 1") (auto dest: lock_returns)
  moreover have "held = 1" using lock_returns [OF assms(5)] by simp
  moreover have "thread_cond_signal (cv'\<lparr>internal_mutex := 1\<rparr>) s3 = None" for s3
    using locked by (simp add: thread_cond_signal_def)
  ultimately show ?thesis using b(1) s2(1) stays timer assms(6)
    by (intro exI conjI) (assumption | simp add: thread_cond_broadcast.simps thread_cond_wait_def cond_enqueue_def cond_block_def)+
qed

text \<open>The main program waits while the timer runs and thread 2 is active.\<close>

lemma main_waits_with_timer:
  obtains s :: sync_state where "threads_inv s" "current s = 0" "timer s = 100000" "status (thread_context s ! 2) = STATE_ACTIVE"
    "memory s = Map.empty"
proof -
  obtain s where s: "reachable (init_contexts Suc zero_threads) s" "current s = 0" "timer s = 100000"
    using main_runs_with_timer by blast
  have inv: "threads_inv (created_at 2 7 8 s)" by (rule threads_inv_created_at [OF reachable_from_init(1) [OF s(1)]]) simp
  have "threads_inv (sync_of (created_at 2 7 8 s))" using inv by (simp add: threads_inv_def)
  moreover have "timer (sync_of (created_at 2 7 8 s)) = 100000" using s(3) by (simp add: sync_of_def threads_state.defs created_at_def)
  ultimately show thesis
    using that [of "sync_of (created_at 2 7 8 s)"] s(2) threads_invD(1) [OF reachable_from_init(1) [OF s(1)]] by simp
qed

theorem alarm_in_wait_keeps_locks_witness:
  "\<exists>(s :: sync_state) cv1 s1 i s2. current s = 0 \<and> timer s1 > 0 \<and> cond_block 40 no_waiters s = Some (cv1, s1) \<and>
    sigalm_handler s1 = Some (Jumped i s2) \<and> thread_cond_signal cv1 s2 = None \<and>
    (\<forall>s3. others_run 0 (continue (Jumped i s2)) s3 \<longrightarrow> current s3 \<noteq> 0)"
proof -
  obtain s :: sync_state where s: "threads_inv s" "current s = 0" "timer s = 100000" "status (thread_context s ! 2) = STATE_ACTIVE"
    "memory s = Map.empty" by (rule main_waits_with_timer)
  have "(40 :: nat) \<noteq> NULL" "memory s 40 = None" "0 < timer s" "(1::nat) \<le> 2" "(2::nat) < MAX_THREADS" "2 \<noteq> current s"
    using s by simp_all
  from alarm_in_wait_keeps_locks [OF s(1) no_waiters_waiting this(1,2) lock_free this(3-6) s(4)]
  obtain cv1 s1 i s2 where "cond_block 40 no_waiters s = Some (cv1, s1)" "0 < timer s1" "sigalm_handler s1 = Some (Jumped i s2)"
    "\<forall>s3. others_run 0 (continue (Jumped i s2)) s3 \<longrightarrow> current s3 \<noteq> 0" "thread_cond_signal cv1 s2 = None"
    unfolding s(2) by blast
  with s(2) show ?thesis by (intro exI conjI)
qed

end
