(* ===== verification/Producer_Consumer.thy ===== *)
theory Producer_Consumer imports Condition begin

text \<open>
  The programs \<open>producer-consumer1.c\<close> and \<open>producer-consumer2.c\<close> of \<open>HW2-skeleton\<close>, over the
  threads library and the synchronisation of the same directory. A round of a thread is one
  pass through its endless loop; its result says where control goes. The lines that are
  printed are part of the state.
\<close>

datatype line = Produced int | Consumed int | DID_NOT_CONSUME int

record queue_program =
  threads :: sync_state
  queue_size :: int
  queue_lock :: thread_mutex
  queue_not_empty :: thread_cond
  printed :: "line list"

definition print_line :: "line \<Rightarrow> queue_program \<Rightarrow> queue_program" where
  "print_line x s = s\<lparr>printed := printed s @ [x]\<rparr>"

text \<open>\<open>queue_size++\<close>, undefined for \<open>INT_MAX\<close>.\<close>
definition increment_queue :: "queue_program \<Rightarrow> queue_program option" where
  "increment_queue s = do { guard (queue_size s < 2 ^ 31 - 1); Some (s\<lparr>queue_size := queue_size s + 1\<rparr>) }"

section \<open>The first program\<close>

definition producer1 :: "queue_program \<Rightarrow> queue_program outcome option" where
  "producer1 s =
     do {
       m \<leftarrow> thread_mutex_lock (queue_lock s);
       s \<leftarrow> increment_queue (s\<lparr>queue_lock := m\<rparr>);
       let s = print_line (Produced (queue_size s)) s;
       let s = s\<lparr>queue_lock := thread_mutex_unlock (queue_lock s)\<rparr>;
       out \<leftarrow> thread_yield (threads s);
       Some (map_outcome (\<lambda>t. s\<lparr>threads := t\<rparr>) out)
     }"

definition consumer1 :: "queue_program \<Rightarrow> queue_program outcome option" where
  "consumer1 s =
     do {
       m \<leftarrow> thread_mutex_lock (queue_lock s);
       let s = s\<lparr>queue_lock := m\<rparr>;
       let s = (if queue_size s = 0 then print_line (DID_NOT_CONSUME (queue_size s)) s
                else let s = s\<lparr>queue_size := queue_size s - 1\<rparr> in print_line (Consumed (queue_size s)) s);
       let s = s\<lparr>queue_lock := thread_mutex_unlock (queue_lock s)\<rparr>;
       out \<leftarrow> thread_yield (threads s);
       Some (map_outcome (\<lambda>t. s\<lparr>threads := t\<rparr>) out)
     }"

text \<open>A join whose jump leads back to the call itself returns.\<close>
definition joined :: "int \<Rightarrow> sync_state \<Rightarrow> sync_state outcome option" where
  "joined target t =
     do {
       out \<leftarrow> thread_join target t;
       Some (case out of
         Jumped i t' \<Rightarrow> (if i = current t then (case resumed In_join t' of (r, t') \<Rightarrow> Returned r t') else out)
       | _ \<Rightarrow> out)
     }"

text \<open>The creation of the two threads and the two joins; \<open>producer\<close> and \<open>consumer\<close> are the functions.\<close>
definition create_and_join :: "ptr \<Rightarrow> ptr \<Rightarrow> sync_state \<Rightarrow> sync_state outcome option" where
  "create_and_join producer consumer t =
     do {
       out \<leftarrow> thread_create producer NULL t;
       on_return out (\<lambda>producerID t. do {
         out \<leftarrow> thread_create consumer NULL t;
         on_return out (\<lambda>consumerID t. do {
           out \<leftarrow> joined consumerID t;
           on_return out (\<lambda>_ t. joined producerID t) }) })
     }"

definition main1 ::
    "(signal_number \<Rightarrow> int) \<Rightarrow> (nat \<Rightarrow> ptr) \<Rightarrow> ptr \<Rightarrow> ptr \<Rightarrow> queue_program \<Rightarrow> queue_program outcome option" where
  "main1 sigaction stacks producer consumer s =
     on_return (map_outcome (\<lambda>t. s\<lparr>threads := t\<rparr>) (thread_init sigaction stacks (threads s))) (\<lambda>_ s.
       do {
         m \<leftarrow> thread_mutex_init (Some (queue_lock s));
         let s = s\<lparr>queue_lock := m\<rparr>;
         out \<leftarrow> create_and_join producer consumer (threads s);
         Some (map_outcome (\<lambda>t. s\<lparr>threads := t\<rparr>) out)
       })"

section \<open>The second program\<close>

definition producer2 :: "queue_program \<Rightarrow> queue_program option" where
  "producer2 s =
     do {
       m \<leftarrow> thread_mutex_lock (queue_lock s);
       s \<leftarrow> increment_queue (s\<lparr>queue_lock := m\<rparr>);
       let s = print_line (Produced (queue_size s)) s;
       (_, cv, t) \<leftarrow> thread_cond_signal (queue_not_empty s) (threads s);
       let s = s\<lparr>queue_not_empty := cv, threads := t\<rparr>;
       Some (s\<lparr>queue_lock := thread_mutex_unlock (queue_lock s)\<rparr>)
     }"

text \<open>
  The inner loop of the consumer and the rest of the round; \<open>malloc\<close> gives the address of
  the node that a wait adds to the waiters.
\<close>
partial_function (option) consumer2_check :: "(heap \<Rightarrow> ptr) \<Rightarrow> queue_program \<Rightarrow> queue_program outcome option" where
  "consumer2_check malloc s =
     (if queue_size s = 0 then
        do {
          let s = print_line (DID_NOT_CONSUME (queue_size s)) s;
          (cv, m, out) \<leftarrow> thread_cond_wait (malloc (memory (threads s))) (queue_not_empty s) (queue_lock s) (threads s);
          let s = s\<lparr>queue_not_empty := cv, queue_lock := m\<rparr>;
          (case out of
             Returned _ t \<Rightarrow> consumer2_check malloc (s\<lparr>threads := t\<rparr>)
           | Jumped i t \<Rightarrow> Some (Jumped i (s\<lparr>threads := t\<rparr>))
           | Program_exit c t \<Rightarrow> Some (Program_exit c (s\<lparr>threads := t\<rparr>)))
        }
      else
        do {
          let s = s\<lparr>queue_size := queue_size s - 1\<rparr>;
          let s = print_line (Consumed (queue_size s)) s;
          Some (Returned 0 (s\<lparr>queue_lock := thread_mutex_unlock (queue_lock s)\<rparr>))
        })"

definition consumer2 :: "(heap \<Rightarrow> ptr) \<Rightarrow> queue_program \<Rightarrow> queue_program outcome option" where
  "consumer2 malloc s =
     do { m \<leftarrow> thread_mutex_lock (queue_lock s); consumer2_check malloc (s\<lparr>queue_lock := m\<rparr>) }"

text \<open>The consumer after control came back to its wait.\<close>
definition consumer2_resumed :: "(heap \<Rightarrow> ptr) \<Rightarrow> queue_program \<Rightarrow> queue_program outcome option" where
  "consumer2_resumed malloc s =
     do { (_, m) \<leftarrow> cond_wait_resumed (queue_lock s); consumer2_check malloc (s\<lparr>queue_lock := m\<rparr>) }"

definition main2 ::
    "(signal_number \<Rightarrow> int) \<Rightarrow> (nat \<Rightarrow> ptr) \<Rightarrow> ptr \<Rightarrow> ptr \<Rightarrow> queue_program \<Rightarrow> queue_program outcome option" where
  "main2 sigaction stacks producer consumer s =
     on_return (map_outcome (\<lambda>t. s\<lparr>threads := t\<rparr>) (thread_init sigaction stacks (threads s))) (\<lambda>_ s.
       do {
         m \<leftarrow> thread_mutex_init (Some (queue_lock s));
         let s = s\<lparr>queue_lock := m\<rparr>;
         cv \<leftarrow> thread_cond_init (queue_not_empty s);
         let s = s\<lparr>queue_not_empty := cv\<rparr>;
         out \<leftarrow> create_and_join producer consumer (threads s);
         Some (map_outcome (\<lambda>t. s\<lparr>threads := t\<rparr>) out)
       })"

section \<open>Starting the programs\<close>

text \<open>
  Every context has number 0, so both joins name context 0, that of the main thread: they
  block it in the table and jump to where it is.
\<close>

definition main_alone :: "sync_state \<Rightarrow> bool" where
  "main_alone t \<longleftrightarrow> threads_inv t \<and> no_finished t \<and> current t = 0"

lemma joined_main:
  assumes "main_alone t"
  obtains t' where "joined 0 t = Some (Returned 0 t')" "main_alone t'"
    "status (thread_context t' ! 0) = STATE_BLOCKED" "\<And>j. j \<noteq> 0 \<Longrightarrow> thread_context t' ! j = thread_context t ! j"
proof -
  have inv: "threads_inv t" and fin: "no_finished t" and cur: "current t = 0" using assms by (simp_all add: main_alone_def)
  show thesis
  proof (cases rule: thread_join_cases [OF inv, of 0])
    case 3
    with fin show thesis by (simp add: no_finished_def)
  next
    case (4 t')
    then have "main_alone t'"
      using no_finished_others [OF fin, of t' 0] by (simp add: main_alone_def cur)
    with 4 cur show thesis by (intro that [of t']) (simp_all add: joined_def resumed_def)
  qed simp_all
qed

lemma main_alone_create:
  assumes "main_alone t" "\<forall>i < MAX_THREADS. stack_array t i \<noteq> NULL"
  obtains t' where "thread_create fn arg t = Some (Returned 0 t')" "main_alone t'" "\<forall>i < MAX_THREADS. stack_array t' i \<noteq> NULL"
proof -
  have inv: "threads_inv t" and fin: "no_finished t" and cur: "current t = 0" using assms by (simp_all add: main_alone_def)
  from inv show thesis
  proof (cases rule: thread_create_cases [where fn = fn and arg = arg])
    case (free i)
    then show thesis
      using assms(2) cur threads_inv_created_at [OF inv free(1)] no_finished_created_at [OF inv fin free(1)]
      by (intro that [of "created_at i fn arg t"]) (simp_all add: main_alone_def)
  next
    case (ends i s')
    with cur show thesis by (simp add: on_alternate_stack_def)
  qed (use that assms in blast)
qed

lemma create_and_join_ok:
  assumes "main_alone t" "\<forall>i < MAX_THREADS. stack_array t i \<noteq> NULL"
  obtains t' where "create_and_join producer consumer t = Some (Returned 0 t')" "main_alone t'"
    "status (thread_context t' ! 0) = STATE_BLOCKED"
proof -
  obtain t1 where c1: "thread_create producer NULL t = Some (Returned 0 t1)" "main_alone t1"
      "\<forall>i < MAX_THREADS. stack_array t1 i \<noteq> NULL"
    by (rule main_alone_create [OF assms])
  obtain t2 where c2: "thread_create consumer NULL t1 = Some (Returned 0 t2)" "main_alone t2"
      "\<forall>i < MAX_THREADS. stack_array t2 i \<noteq> NULL"
    by (rule main_alone_create [OF c1(2,3)])
  obtain t3 where j1: "joined 0 t2 = Some (Returned 0 t3)" "main_alone t3" by (rule joined_main [OF c2(2)])
  obtain t4 where j2: "joined 0 t3 = Some (Returned 0 t4)" "main_alone t4" "status (thread_context t4 ! 0) = STATE_BLOCKED"
    by (rule joined_main [OF j1(2)])
  have "create_and_join producer consumer t = Some (Returned 0 t4)"
    using j1(1) j2(1) c1(1) c2(1) by (simp add: create_and_join_def)
  then show thesis using j2(2,3) by (rule that)
qed

end
