(* ===== verification/Producer_Consumer_Properties.thy ===== *)
theory Producer_Consumer_Properties imports Producer_Consumer begin

text \<open>The properties of the producer-consumer programs.\<close>

section \<open>Starting\<close>

lemma init_contexts_zero:
  assumes "threads_state.truncate t = zero_threads"
  shows "main_alone (init_contexts stacks (t :: sync_state))"
proof -
  have ctx: "thread_context t = thread_context zero_threads" using arg_cong [OF assms, of thread_context]
    by (simp add: threads_state.defs)
  have "frames_kept t" using arg_cong [OF assms, of frames_kept] by (simp add: threads_state.defs zero_threads_def)
  moreover have "thread_context (init_contexts stacks t) = thread_context (init_contexts stacks zero_threads)"
    by (simp add: init_contexts_def update_context_def ctx Let_def)
  ultimately show ?thesis
    using init_contexts_inv [of stacks] init_contexts_no_finished [of stacks]
    by (simp add: main_alone_def threads_inv_def no_finished_def)
qed

section \<open>Rounds of the first program\<close>

lemma yield_continues:
  assumes inv: "threads_inv t"
  obtains out where "thread_yield t = Some out" "threads_inv (continue out)"
    "\<And>j. status (thread_context (continue out) ! j) = status (thread_context t ! j)"
    "status (thread_context t ! 1) = STATE_ACTIVE \<Longrightarrow> current (continue out) = 1"
proof -
  let ?g = "\<lambda>i. if status (thread_context t ! i) = STATE_ACTIVE then Some i else None"
  show thesis
  proof (cases rule: first_some_cases [of ?g 1 128])
    case none
    then have "status (thread_context t ! 1) \<noteq> STATE_ACTIVE" using none(2) [of 1] by auto
    with inv none(1) show thesis
      by (intro that [of "Returned 0 (alarm_deactivate t)"]) (simp_all add: thread_yield_eq continue_def)
  next
    case (hit i y)
    then have y: "y = i" by (auto split: if_splits)
    let ?t = "(update_context (current t) (\<lambda>c. c\<lparr>saved := Some In_yield\<rparr>) (alarm_deactivate t))\<lparr>current := i\<rparr>"
    have yield: "thread_yield t = Some (Jumped i ?t)" using inv hit(1) y by (simp add: thread_yield_eq)
    have st: "status (thread_context ?t ! j) = status (thread_context t ! j)" for j
      using threads_invD(1,2) [OF inv] by (cases "j = current t") simp_all
    have inv': "threads_inv ?t"
      using inv hit(4) by (auto simp: threads_inv_def update_context_def nth_list_update alarm_deactivate_def)
    have "i = 1" if "status (thread_context t ! 1) = STATE_ACTIVE"
    proof (rule ccontr)
      assume "i \<noteq> 1"
      with hit(3) have "1 < i" by simp
      from hit(5) [OF _ this] that show False by simp
    qed
    then show thesis by (intro that [OF yield threads_inv_continue [OF inv']]) (use st in simp_all)
  qed
qed

text \<open>What a line says about the queue.\<close>
primrec line_change :: "line \<Rightarrow> int" where
  "line_change (Produced n) = 1"
| "line_change (Consumed n) = -1"
| "line_change (DID_NOT_CONSUME n) = 0"

text \<open>Control goes on in the thread that the outcome names.\<close>
definition go_on :: "queue_program outcome \<Rightarrow> queue_program" where
  "go_on out = (case out of
     Returned r s \<Rightarrow> s
   | Jumped i s \<Rightarrow> s\<lparr>threads := continue (Jumped i (threads s))\<rparr>
   | Program_exit c s \<Rightarrow> s)"

lemma go_on_map: "go_on (map_outcome (\<lambda>t. s\<lparr>threads := t\<rparr>) out) = s\<lparr>threads := continue out\<rparr>"
  by (cases out) (simp_all add: go_on_def continue_def split: option.split)

text \<open>A sequence of rounds, of the producer for True and of the consumer for False.\<close>
primrec rounds1 :: "bool list \<Rightarrow> queue_program \<Rightarrow> queue_program option" where
  "rounds1 [] s = Some s"
| "rounds1 (b # bs) s = do { out \<leftarrow> (if b then producer1 s else consumer1 s); rounds1 bs (go_on out) }"

definition queue_ok :: "queue_program \<Rightarrow> bool" where
  "queue_ok s \<longleftrightarrow> threads_inv (threads s) \<and> queue_lock s = 0 \<and> 0 \<le> queue_size s"

lemma round1_ok:
  assumes ok: "queue_ok s" and small: "queue_size s < 2 ^ 31 - 1"
  obtains out x where "(if b then producer1 s else consumer1 s) = Some out" "queue_ok (go_on out)"
    "printed (go_on out) = printed s @ [x]" "queue_size (go_on out) = queue_size s + line_change x"
    "status (thread_context (threads s) ! 1) = STATE_ACTIVE \<Longrightarrow>
      status (thread_context (threads (go_on out)) ! 1) = STATE_ACTIVE \<and> current (threads (go_on out)) = 1"
    "x = (if b then Produced (queue_size s + 1) else if queue_size s = 0 then DID_NOT_CONSUME 0 else Consumed (queue_size s - 1))"
proof -
  from ok have inv: "threads_inv (threads s)" and lock: "queue_lock s = 0" and size: "0 \<le> queue_size s"
    by (simp_all add: queue_ok_def)
  obtain out where y: "thread_yield (threads s) = Some out" "threads_inv (continue out)"
    "\<And>j. status (thread_context (continue out) ! j) = status (thread_context (threads s) ! j)"
    "status (thread_context (threads s) ! 1) = STATE_ACTIVE \<Longrightarrow> current (continue out) = 1"
    by (rule yield_continues [OF inv]) (rule that)
  define x where "x = (if b then Produced (queue_size s + 1) else if queue_size s = 0 then DID_NOT_CONSUME 0 else Consumed (queue_size s - 1))"
  define s1 where "s1 = s\<lparr>queue_lock := 0, queue_size := queue_size s + line_change x, printed := printed s @ [x]\<rparr>"
  have th: "threads s1 = threads s" by (simp add: s1_def)
  have round: "(if b then producer1 s else consumer1 s) = Some (map_outcome (\<lambda>t. s1\<lparr>threads := t\<rparr>) out)"
    using y(1) small lock
    by (cases s; cases out) (simp add: producer1_def consumer1_def increment_queue_def guard_def lock_free
        thread_mutex_unlock_def print_line_def s1_def x_def Let_def)+
  have "queue_size s + line_change x \<ge> 0" using size by (simp add: x_def)
  then show thesis
    by (intro that [OF round, of x]) (use y(2-4) in \<open>simp_all add: go_on_map queue_ok_def s1_def x_def [symmetric]\<close>)
qed

lemma rounds1_ok:
  assumes "queue_ok s" "queue_size s + int (length bs) < 2 ^ 31"
  shows "\<exists>s' ls. rounds1 bs s = Some s' \<and> queue_ok s' \<and> printed s' = printed s @ ls \<and> length ls = length bs \<and>
    queue_size s' = queue_size s + sum_list (map line_change ls) \<and>
    (status (thread_context (threads s) ! 1) = STATE_ACTIVE \<and> bs \<noteq> [] \<longrightarrow>
      status (thread_context (threads s') ! 1) = STATE_ACTIVE \<and> current (threads s') = 1)"
  using assms
proof (induction bs arbitrary: s)
  case (Cons b bs)
  have small: "queue_size s < 2 ^ 31 - 1" using Cons.prems(2) by simp
  obtain out x where r: "(if b then producer1 s else consumer1 s) = Some out" "queue_ok (go_on out)"
    "printed (go_on out) = printed s @ [x]" "queue_size (go_on out) = queue_size s + line_change x"
    "status (thread_context (threads s) ! 1) = STATE_ACTIVE \<Longrightarrow>
      status (thread_context (threads (go_on out)) ! 1) = STATE_ACTIVE \<and> current (threads (go_on out)) = 1"
    by (rule round1_ok [OF Cons.prems(1) small, where b = b]) (rule that)
  have "line_change x \<le> 1" by (cases x) simp_all
  then have "queue_size (go_on out) + int (length bs) < 2 ^ 31" using Cons.prems(2) r(4) by simp
  from Cons.IH [OF r(2) this] obtain s' ls where s': "rounds1 bs (go_on out) = Some s'" "queue_ok s'"
    "printed s' = printed (go_on out) @ ls" "length ls = length bs"
    "queue_size s' = queue_size (go_on out) + sum_list (map line_change ls)"
    "status (thread_context (threads (go_on out)) ! 1) = STATE_ACTIVE \<and> bs \<noteq> [] \<longrightarrow>
      status (thread_context (threads s') ! 1) = STATE_ACTIVE \<and> current (threads s') = 1" by blast
  have "s' = go_on out" if "bs = []" using s'(1) that by simp
  then show ?case
    using s' r by (intro exI [of _ s'] exI [of _ "x # ls"]) auto
qed simp

section \<open>Rounds of the second program\<close>

lemma producer2_no_waiter:
  assumes "queue_lock s = 0" "queue_size s < 2 ^ 31 - 1" "waiting (queue_not_empty s) (threads s) []"
  shows "producer2 s = Some (print_line (Produced (queue_size s + 1)) (s\<lparr>queue_size := queue_size s + 1\<rparr>))"
  using assms by (cases s) (simp add: producer2_def increment_queue_def guard_def lock_free thread_mutex_unlock_def
      print_line_def thread_cond_signal_empty)

primrec producer2_rounds :: "nat \<Rightarrow> queue_program \<Rightarrow> queue_program option" where
  "producer2_rounds 0 s = Some s"
| "producer2_rounds (Suc n) s = do { s \<leftarrow> producer2 s; producer2_rounds n s }"

lemma producer2_rounds_no_waiter:
  assumes "queue_lock s = 0" "queue_size s + int n < 2 ^ 31" "waiting (queue_not_empty s) (threads s) []"
  shows "\<exists>s'. producer2_rounds n s = Some s' \<and> threads s' = threads s \<and> queue_not_empty s' = queue_not_empty s \<and>
    queue_size s' = queue_size s + int n"
  using assms
proof (induction n arbitrary: s)
  case (Suc n)
  let ?s = "print_line (Produced (queue_size s + 1)) (s\<lparr>queue_size := queue_size s + 1\<rparr>)"
  have "producer2 s = Some ?s" using Suc.prems by (intro producer2_no_waiter) simp_all
  moreover have "\<exists>s'. producer2_rounds n ?s = Some s' \<and> threads s' = threads ?s \<and>
      queue_not_empty s' = queue_not_empty ?s \<and> queue_size s' = queue_size ?s + int n"
    by (rule Suc.IH) (use Suc.prems in \<open>simp_all add: print_line_def\<close>)
  ultimately show ?case by (auto simp: print_line_def)
qed simp

lemma memory_continue [simp]: "memory (continue (Jumped i t)) = memory t"
  by (auto simp: continue_def resumed_def alarm_activate_def split: option.split resume_point.split)

text \<open>The consumer finds the queue empty, waits, and control goes to thread 1.\<close>

lemma consumer2_waits:
  assumes inv: "threads_inv (threads s)" and cur: "current (threads s) = 2"
    and active: "status (thread_context (threads s) ! 1) = STATE_ACTIVE"
    and q: "queue_lock s = 0" "queue_size s = 0" "waiting (queue_not_empty s) (threads s) []"
    and new: "malloc (memory (threads s)) \<noteq> NULL" "memory (threads s) (malloc (memory (threads s))) = None"
  obtains s' where "consumer2 malloc s = Some (Jumped 1 s')" "threads_inv (threads s')" "queue_lock s' = 0" "queue_size s' = 0"
    "waiting (queue_not_empty s') (threads s') [2]" "status (thread_context (threads s') ! 2) = STATE_BLOCKED"
proof -
  obtain cv t where e: "cond_enqueue (malloc (memory (threads s))) (queue_not_empty s) 1 (threads s) = Some (cv, 0, t)"
    "waiting cv t ([] @ [current (threads s)])"
    "t = update_context (current (threads s)) (\<lambda>c. c\<lparr>status := STATE_BLOCKED\<rparr>) ((threads s)\<lparr>memory := memory t\<rparr>)"
    by (rule cond_enqueue_ok [OF q(3) new])
  note fields = threads_invD [OF inv]
  have ctx: "thread_context t = (thread_context (threads s))[2 := (thread_context (threads s) ! 2)\<lparr>status := STATE_BLOCKED\<rparr>]"
    by (subst e(3)) (simp add: update_context_def cur)
  have cur_t: "current t = 2" by (subst e(3)) (simp add: cur)
  have "frames_kept t" using fields(5) by (subst e(3)) simp
  with inv have inv_t: "threads_inv t" by (auto simp: threads_inv_def ctx cur_t cur nth_list_update)
  have act: "status (thread_context t ! 1) = STATE_ACTIVE" using active fields(1) by (simp add: ctx)
  have "first_some (\<lambda>i. if status (thread_context t ! i) = STATE_ACTIVE then Some i else None) 1 128 = Some 1"
    by (rule first_some_hit [of _ 1]) (use act in simp_all)
  then obtain t' where y: "thread_yield t = Some (Jumped 1 t')" "current t' = 1" "memory t' = memory t"
    "thread_context t' = (thread_context t)[2 := (thread_context t ! 2)\<lparr>saved := Some In_yield\<rparr>]" "frames_kept t' = frames_kept t"
    by (simp add: thread_yield_eq [OF inv_t] update_context_def alarm_deactivate_def cur_t)
  let ?s = "s\<lparr>printed := printed s @ [DID_NOT_CONSUME 0], queue_not_empty := cv, queue_lock := 0, threads := t'\<rparr>"
  have "consumer2 malloc s = Some (Jumped 1 ?s)"
    using q e(1) y(1) by (cases s) (simp add: consumer2_def consumer2_check.simps [of malloc] lock_free thread_cond_wait_def print_line_def)
  moreover have "threads_inv t'"
    using inv_t by (auto simp: threads_inv_def y(2,4,5) cur_t nth_list_update)
  moreover have "waiting cv t' [2]" using e(2) by (simp add: waiting_def y(3) cur)
  moreover have "status (thread_context t' ! 2) = STATE_BLOCKED" using fields(1) by (simp add: y(4) ctx)
  ultimately show thesis by (intro that [of ?s]) (simp_all add: q)
qed

text \<open>The next round of the producer takes it off the queue of waiters, but activates thread 0.\<close>

lemma producer2_signals_main:
  assumes inv: "threads_inv (threads s)" and q: "queue_lock s = 0" "queue_size s = 0"
    and w: "waiting (queue_not_empty s) (threads s) [2]" and blocked: "status (thread_context (threads s) ! 2) = STATE_BLOCKED"
  obtains s' where "producer2 s = Some s'" "queue_lock s' = 0" "queue_size s' = 1"
    "waiting (queue_not_empty s') (threads s') []" "status (thread_context (threads s') ! 2) = STATE_BLOCKED"
    "status (thread_context (threads s') ! 0) = STATE_ACTIVE"
proof -
  note fields = threads_invD [OF inv]
  have num: "number (thread_context (threads s) ! 2) = 0" using fields(3) [of 2] by simp
  obtain cv t where t: "thread_cond_signal (queue_not_empty s) (threads s) = Some (0, cv, t)" "waiting cv t []"
    "t = update_context (nat (number (thread_context (threads s) ! 2))) (\<lambda>c. c\<lparr>status := STATE_ACTIVE\<rparr>) ((threads s)\<lparr>memory := memory t\<rparr>)"
    by (rule thread_cond_signal_ok [OF w]) (use fields(1) num in simp, use num in simp, use fields(1) num in simp, rule that)
  have ctx: "thread_context t = (thread_context (threads s))[0 := (thread_context (threads s) ! 0)\<lparr>status := STATE_ACTIVE\<rparr>]"
    by (subst t(3)) (simp add: update_context_def num)
  let ?s = "s\<lparr>queue_size := 1, printed := printed s @ [Produced 1], queue_not_empty := cv, threads := t\<rparr>"
  have "producer2 s = Some ?s"
    using q t(1) by (cases s) (simp add: producer2_def increment_queue_def guard_def lock_free thread_mutex_unlock_def print_line_def)
  then show thesis
    by (rule that) (use q t(2) blocked fields(1) in \<open>simp_all add: ctx\<close>)
qed

section \<open>Properties\<close>

text \<open>
  C31: both programs end at once: with the global variables still zero, and the handlers and
  stacks installed, \<open>main\<close> creates its two threads, joins them and returns, before either of
  them has run: nothing was printed and the queue is as it was. When a handler cannot be
  installed, both end with \<open>EXIT_FAILURE\<close>.
\<close>
theorem programs_end_at_once:
  assumes "threads_state.truncate (threads s) = zero_threads" and "\<forall>i < MAX_THREADS. stacks i \<noteq> NULL"
    and "m = main1 sigaction stacks producer consumer s \<or> m = main2 sigaction stacks producer consumer s"
  shows "\<exists>s'. m = Some (if sigaction SIGUSR1 = -1 \<or> sigaction SIGALRM = -1 then Program_exit EXIT_FAILURE s' else Returned 0 s') \<and>
    printed s' = printed s \<and> queue_size s' = queue_size s"
proof -
  have "\<forall>i < MAX_THREADS. stack_array (init_contexts stacks (threads s)) i \<noteq> NULL" using assms(2) by simp
  then obtain t where t: "create_and_join producer consumer (init_contexts stacks (threads s)) = Some (Returned 0 t)"
    by (rule create_and_join_ok [OF init_contexts_zero [OF assms(1)]])
  from assms(3) show ?thesis
    by (elim disjE; cases "sigaction SIGUSR1 = -1 \<or> sigaction SIGALRM = -1")
      (auto simp: main1_def main2_def thread_mutex_init_def thread_cond_init_def ll_init_def thread_init_def t Let_def)
qed

definition zero_program :: queue_program where
  "zero_program = \<lparr>threads = threads_state.extend zero_threads \<lparr>memory = Map.empty\<rparr>, queue_size = 0, queue_lock = 0,
     queue_not_empty = \<lparr>internal_mutex = 0, waiters_list = \<lparr>list_head = 0, list_tail = 0\<rparr>\<rparr>, printed = []\<rparr>"

theorem programs_end_at_once_witness:
  "\<exists>s'. main1 (\<lambda>_. 0) Suc 7 8 zero_program = Some (Returned 0 s')"
proof -
  have "threads_state.truncate (threads zero_program) = zero_threads"
    by (simp add: zero_program_def threads_state.defs)
  from programs_end_at_once [OF this, of Suc "main1 (\<lambda>_. 0) Suc 7 8 zero_program" "\<lambda>_. 0" 7 8]
  show ?thesis by auto
qed

text \<open>
  C22: rounds of the first program, of either thread in any order, are defined while the
  counter has room. Every round prints one line; the queue holds what was produced less
  what was consumed and is never negative, and the lock is free between rounds. But while
  thread 1 is active, control is with thread 1 after every round, whoever ran.
\<close>
theorem rounds_keep_queue:
  assumes "threads_inv (threads s)" "queue_lock s = 0" "0 \<le> queue_size s" "queue_size s + int (length bs) < 2 ^ 31"
  shows "\<exists>s' ls. rounds1 bs s = Some s' \<and> queue_lock s' = 0 \<and> 0 \<le> queue_size s' \<and>
    printed s' = printed s @ ls \<and> length ls = length bs \<and>
    queue_size s' = queue_size s + sum_list (map line_change ls) \<and>
    (status (thread_context (threads s) ! 1) = STATE_ACTIVE \<and> bs \<noteq> [] \<longrightarrow> current (threads s') = 1)"
proof -
  have "queue_ok s" using assms by (simp add: queue_ok_def)
  from rounds1_ok [OF this assms(4)] show ?thesis unfolding queue_ok_def by blast
qed

text \<open>Three active threads, of which number 2 runs; the queue is empty and unlocked.\<close>
definition sample_contexts :: "tcb list" where
  "sample_contexts = map (\<lambda>i. zero_tcb\<lparr>saved := Some In_start, status := if i \<le> 2 then STATE_ACTIVE else STATE_INVALID\<rparr>) [0..<128]"

definition sample_program :: queue_program where
  "sample_program = \<lparr>threads = \<lparr>thread_context = sample_contexts, current = 2, created = 1, new_pos = 2, timer = 0, stack_array = Suc, alternate_stack = 3, frames_kept = True, memory = Map.empty\<rparr>,
     queue_size = 0, queue_lock = 0, queue_not_empty = \<lparr>internal_mutex = 0, waiters_list = \<lparr>list_head = 0, list_tail = 0\<rparr>\<rparr>, printed = []\<rparr>"

lemma sample_program:
  "threads_inv (threads sample_program)" "queue_lock sample_program = 0" "queue_size sample_program = 0"
  "printed sample_program = []" "current (threads sample_program) = 2"
  "status (thread_context (threads sample_program) ! 1) = STATE_ACTIVE" "memory (threads sample_program) = Map.empty"
  by (simp_all add: sample_program_def sample_contexts_def threads_inv_def zero_tcb_def)

lemma sample_program_waiting: "waiting (queue_not_empty sample_program) (threads sample_program) []"
  unfolding waiting_def by (intro conjI exI [of _ "[]"]) (simp_all add: sample_program_def)

theorem rounds_keep_queue_witness:
  "\<exists>s'. rounds1 [True, False, False] sample_program = Some s' \<and> 0 \<le> queue_size s' \<and> current (threads s') = 1"
  using rounds_keep_queue [OF sample_program(1,2), of "[True, False, False]"] sample_program(3,6) by auto

text \<open>
  C32: in the second program a consumer that waits is never woken up. When it runs as thread
  2 with the queue empty and thread 1, the producer, active, it queues itself and control
  goes to the producer, whose next round takes it off the queue of waiters but activates
  thread 0. After any number of further rounds it is still blocked, with the queue growing.
\<close>
theorem consumer_is_never_woken:
  assumes "threads_inv (threads s)" "current (threads s) = 2" "status (thread_context (threads s) ! 1) = STATE_ACTIVE"
    and "queue_lock s = 0" "queue_size s = 0" "waiting (queue_not_empty s) (threads s) []"
    and "malloc (memory (threads s)) \<noteq> NULL" "memory (threads s) (malloc (memory (threads s))) = None"
    and "int n < 2 ^ 31 - 1"
  shows "\<exists>s1 s2. consumer2 malloc s = Some (Jumped 1 s1) \<and>
    producer2_rounds (Suc n) (go_on (Jumped 1 s1)) = Some s2 \<and> queue_size s2 = int (Suc n) \<and>
    waiting (queue_not_empty s2) (threads s2) [] \<and> status (thread_context (threads s2) ! 2) = STATE_BLOCKED"
proof -
  obtain s1 where s1: "consumer2 malloc s = Some (Jumped 1 s1)" "threads_inv (threads s1)" "queue_lock s1 = 0" "queue_size s1 = 0"
    "waiting (queue_not_empty s1) (threads s1) [2]" "status (thread_context (threads s1) ! 2) = STATE_BLOCKED"
    by (rule consumer2_waits [where s = s and malloc = malloc, OF assms(1-8)])
  let ?s = "go_on (Jumped 1 s1)"
  have go: "threads ?s = continue (Jumped 1 (threads s1))" "queue_lock ?s = 0" "queue_size ?s = 0"
    "queue_not_empty ?s = queue_not_empty s1" by (simp_all add: go_on_def s1)
  obtain s3 where s3: "producer2 ?s = Some s3" "queue_lock s3 = 0" "queue_size s3 = 1"
    "waiting (queue_not_empty s3) (threads s3) []" "status (thread_context (threads s3) ! 2) = STATE_BLOCKED"
    by (rule producer2_signals_main [of ?s])
      (use go s1 threads_inv_continue [OF s1(2), of 1] in \<open>simp_all add: waiting_def\<close>)
  have "queue_size s3 + int n < 2 ^ 31" using assms(9) s3(3) by simp
  from producer2_rounds_no_waiter [OF s3(2) this s3(4)] obtain s2 where
    "producer2_rounds n s3 = Some s2" "threads s2 = threads s3" "queue_not_empty s2 = queue_not_empty s3"
    "queue_size s2 = queue_size s3 + int n" by blast
  with s1(1) s3 show ?thesis by (intro exI [of _ s1] exI [of _ s2]) simp
qed

theorem consumer_is_never_woken_witness:
  "\<exists>s1 s2. consumer2 (\<lambda>h. 40) sample_program = Some (Jumped 1 s1) \<and>
    producer2_rounds 6 (go_on (Jumped 1 s1)) = Some s2 \<and> status (thread_context (threads s2) ! 2) = STATE_BLOCKED"
  using consumer_is_never_woken [OF sample_program(1,5,6,2,3) sample_program_waiting, of "\<lambda>h. 40" 5] sample_program(7)
  by (auto simp: eval_nat_numeral)

end
