(* ===== verification/Preemption.thy ===== *)
theory Preemption imports Producer_Consumer begin

text \<open>
  The threads of \<open>producer-consumer1.c\<close> when the alarm timer may interrupt them anywhere: any
  number of producers and consumers, whose accesses to the mutex and to the queue interleave
  in any order. Getting and releasing the mutex are the atomic steps of \<open>Mutex\<close>; behind it
  a thread updates the queue, prints and unlocks.
\<close>

datatype role = Producer | Consumer

text \<open>Where a thread is between the lock and the unlock.\<close>
datatype queue_pc = Updating | Decrementing | Printing_produced | Printing_consumed | Printing_nothing | Unlocking

record queue_run = lock_state +
  shared_size :: int
  queue_at :: "nat \<Rightarrow> queue_pc"
  lines :: "line list"

definition queue_to :: "nat \<Rightarrow> queue_pc \<Rightarrow> queue_run \<Rightarrow> queue_run" where
  "queue_to t p s = s\<lparr>queue_at := (queue_at s)(t := p)\<rparr>"

lemma queue_to_simps [simp]:
  "queue_at (queue_to t p s) u = (if u = t then p else queue_at s u)" "shared_size (queue_to t p s) = shared_size s"
  "lines (queue_to t p s) = lines s" "locked (queue_to t p s) = locked s" "pc (queue_to t p s) = pc s"
  by (simp_all add: queue_to_def)

text \<open>The mutex of a state, and the state with the mutex replaced.\<close>

definition mutex_of :: "queue_run \<Rightarrow> lock_state" where
  "mutex_of s = \<lparr>locked = locked s, pc = pc s\<rparr>"

definition with_mutex :: "lock_state \<Rightarrow> queue_run \<Rightarrow> queue_run" where
  "with_mutex m s = s\<lparr>locked := locked m, pc := pc m\<rparr>"

lemma mutex_simps [simp]:
  "mutex_of (with_mutex m s) = m" "mutex_of (queue_to t p s) = mutex_of s"
  "mutex_of (s\<lparr>shared_size := n\<rparr>) = mutex_of s" "mutex_of (s\<lparr>lines := ls\<rparr>) = mutex_of s"
  "queue_at (with_mutex m s) = queue_at s" "shared_size (with_mutex m s) = shared_size s" "lines (with_mutex m s) = lines s"
  "pc (mutex_of s) = pc s" "locked (mutex_of s) = locked s"
  by (simp_all add: mutex_of_def with_mutex_def)

text \<open>The step of a thread behind the mutex; \<open>None\<close> is the overflow of the counter.\<close>
definition critical :: "role \<Rightarrow> nat \<Rightarrow> queue_run \<Rightarrow> queue_run option" where
  "critical r t s = (case queue_at s t of
     Updating \<Rightarrow>
       (case r of
          Producer \<Rightarrow> (if shared_size s < 2 ^ 31 - 1
                       then Some (queue_to t Printing_produced (s\<lparr>shared_size := shared_size s + 1\<rparr>)) else None)
        | Consumer \<Rightarrow> (if shared_size s = 0 then Some (queue_to t Printing_nothing s)
                       else Some (queue_to t Decrementing s)))
   | Decrementing \<Rightarrow> Some (queue_to t Printing_consumed (s\<lparr>shared_size := shared_size s - 1\<rparr>))
   | Printing_produced \<Rightarrow> Some (queue_to t Unlocking (s\<lparr>lines := lines s @ [Produced (shared_size s)]\<rparr>))
   | Printing_consumed \<Rightarrow> Some (queue_to t Unlocking (s\<lparr>lines := lines s @ [Consumed (shared_size s)]\<rparr>))
   | Printing_nothing \<Rightarrow> Some (queue_to t Unlocking (s\<lparr>lines := lines s @ [DID_NOT_CONSUME (shared_size s)]\<rparr>))
   | Unlocking \<Rightarrow> None)"

inductive queue_step :: "(nat \<Rightarrow> role) \<Rightarrow> queue_run \<Rightarrow> queue_run \<Rightarrow> bool" for r where
  lock_part: "pc s t \<noteq> Critical \<Longrightarrow> lock_step t (mutex_of s) m \<Longrightarrow> queue_step r s (with_mutex m s)"
| critical_part: "pc s t = Critical \<Longrightarrow> critical (r t) t s = Some s' \<Longrightarrow> queue_step r s s'"
| unlock_part: "pc s t = Critical \<Longrightarrow> queue_at s t = Unlocking \<Longrightarrow> lock_step t (mutex_of s) m \<Longrightarrow>
    queue_step r s (queue_to t Updating (with_mutex m s))"

inductive queue_steps :: "(nat \<Rightarrow> role) \<Rightarrow> queue_run \<Rightarrow> queue_run \<Rightarrow> bool" for r s0 where
  queue_start: "queue_steps r s0 s0"
| queue_next: "queue_steps r s0 s \<Longrightarrow> queue_step r s s' \<Longrightarrow> queue_steps r s0 s'"

text \<open>The start: the mutex initialised, the queue empty.\<close>
definition initial_run :: queue_run where
  "initial_run = lock_state.extend unlocked \<lparr>shared_size = 0, queue_at = (\<lambda>_. Updating), lines = []\<rparr>"

section \<open>The lines as a history\<close>

text \<open>The size after a history that one thread at a time can have printed, from a size.\<close>
primrec replay :: "int \<Rightarrow> line list \<Rightarrow> int option" where
  "replay q [] = Some q"
| "replay q (x # xs) = (case x of
     Produced n \<Rightarrow> (if n = q + 1 then replay n xs else None)
   | Consumed n \<Rightarrow> (if 0 < q \<and> n = q - 1 then replay n xs else None)
   | DID_NOT_CONSUME n \<Rightarrow> (if q = 0 \<and> n = 0 then replay 0 xs else None))"

lemma replay_append: "replay q (xs @ ys) = Option.bind (replay q xs) (\<lambda>q. replay q ys)"
  by (induction xs arbitrary: q) (simp_all split: line.split)

lemma replay_nonnegative: "replay q xs = Some q' \<Longrightarrow> 0 \<le> q \<Longrightarrow> 0 \<le> q'"
  by (induction xs arbitrary: q) (auto split: line.splits if_splits)

text \<open>What the printed lines are still short of, while a thread is behind the mutex.\<close>
primrec behind :: "queue_pc \<Rightarrow> int \<Rightarrow> int" where
  "behind Updating n = n"
| "behind Decrementing n = n"
| "behind Printing_produced n = n - 1"
| "behind Printing_consumed n = n + 1"
| "behind Printing_nothing n = n"
| "behind Unlocking n = n"

definition queue_inv :: "queue_run \<Rightarrow> bool" where
  "queue_inv s \<longleftrightarrow> (\<exists>ow. lock_rel (mutex_of s) ow \<and> 0 \<le> shared_size s \<and>
     (\<forall>u. ow \<noteq> Some u \<longrightarrow> queue_at s u = Updating) \<and>
     (case ow of
        None \<Rightarrow> replay 0 (lines s) = Some (shared_size s)
      | Some t \<Rightarrow> replay 0 (lines s) = Some (behind (queue_at s t) (shared_size s)) \<and>
          (queue_at s t = Printing_nothing \<longrightarrow> shared_size s = 0) \<and> (queue_at s t = Decrementing \<longrightarrow> 0 < shared_size s)))"

lemma queue_inv_initial: "queue_inv initial_run"
proof -
  have "mutex_of initial_run = unlocked" by (simp add: mutex_of_def initial_run_def lock_state.defs)
  then have "lock_rel (mutex_of initial_run) None" by (simp add: lock_rel_unlocked)
  then show ?thesis unfolding queue_inv_def
    by (intro exI [of _ None]) (simp add: initial_run_def lock_state.defs)
qed

lemma lock_rel_critical: "lock_rel (mutex_of s) ow \<Longrightarrow> pc s t = Critical \<longleftrightarrow> ow = Some t"
  by (simp add: lock_rel_def)

lemma queue_inv_lock:
  assumes inv: "queue_inv s" and t: "pc s t \<noteq> Critical" and step: "lock_step t (mutex_of s) m"
  shows "queue_inv (with_mutex m s)"
proof -
  from inv obtain ow where ow: "lock_rel (mutex_of s) ow" "0 \<le> shared_size s" "\<forall>u. ow \<noteq> Some u \<longrightarrow> queue_at s u = Updating"
    "case ow of None \<Rightarrow> replay 0 (lines s) = Some (shared_size s)
      | Some t \<Rightarrow> replay 0 (lines s) = Some (behind (queue_at s t) (shared_size s)) \<and>
          (queue_at s t = Printing_nothing \<longrightarrow> shared_size s = 0) \<and> (queue_at s t = Decrementing \<longrightarrow> 0 < shared_size s)" by (auto simp: queue_inv_def)
  obtain ow' where ow': "lock_rel m ow'" "ow' = ow \<or> owner_step t ow ow'"
    by (rule lock_step_simulates [OF ow(1) step])
  from ow'(2) show ?thesis
  proof
    assume "ow' = ow"
    with ow ow'(1) show ?thesis unfolding queue_inv_def by (intro exI [of _ ow]) (cases ow; simp)
  next
    assume "owner_step t ow ow'"
    then show ?thesis
    proof cases
      case acquire
      with ow ow'(1) show ?thesis unfolding queue_inv_def by (intro exI [of _ "Some t"]) simp
    next
      case release
      with lock_rel_critical [OF ow(1), of t] t show ?thesis by simp
    qed
  qed
qed

lemma queue_inv_critical:
  assumes inv: "queue_inv s" and t: "pc s t = Critical" and step: "critical r t s = Some s'"
  shows "queue_inv s'"
proof -
  from inv t have ow: "lock_rel (mutex_of s) (Some t)" "0 \<le> shared_size s" "\<forall>u. u \<noteq> t \<longrightarrow> queue_at s u = Updating"
    "replay 0 (lines s) = Some (behind (queue_at s t) (shared_size s))"
    "queue_at s t = Printing_nothing \<longrightarrow> shared_size s = 0" "queue_at s t = Decrementing \<longrightarrow> 0 < shared_size s"
    by (auto simp: queue_inv_def lock_rel_critical)
  have "mutex_of s' = mutex_of s" "0 \<le> shared_size s'" "\<forall>u. u \<noteq> t \<longrightarrow> queue_at s' u = Updating"
    "replay 0 (lines s') = Some (behind (queue_at s' t) (shared_size s'))"
    "queue_at s' t = Printing_nothing \<longrightarrow> shared_size s' = 0" "queue_at s' t = Decrementing \<longrightarrow> 0 < shared_size s'"
    using step ow by (auto simp: critical_def replay_append split: queue_pc.splits role.splits if_splits)
  with ow(1) show ?thesis unfolding queue_inv_def by (intro exI [of _ "Some t"]) simp
qed

lemma queue_inv_unlock:
  assumes inv: "queue_inv s" and t: "pc s t = Critical" "queue_at s t = Unlocking" and step: "lock_step t (mutex_of s) m"
  shows "queue_inv (queue_to t Updating (with_mutex m s))"
proof -
  from inv t(1) have ow: "lock_rel (mutex_of s) (Some t)" "0 \<le> shared_size s" "\<forall>u. u \<noteq> t \<longrightarrow> queue_at s u = Updating"
    "replay 0 (lines s) = Some (behind (queue_at s t) (shared_size s))"
    by (auto simp: queue_inv_def lock_rel_critical)
  obtain ow' where ow': "lock_rel m ow'" "ow' = Some t \<or> owner_step t (Some t) ow'"
    by (rule lock_step_simulates [OF ow(1) step])
  have "pc m t = Outside" using step t(1) by (cases rule: lock_step.cases) simp_all
  moreover have "pc m t = Critical" if "ow' = Some t" using ow'(1) that by (simp add: lock_rel_def)
  ultimately have "ow' \<noteq> Some t" by auto
  with ow'(2) have "ow' = None" by (auto elim: owner_step.cases)
  with ow ow'(1) t(2) show ?thesis unfolding queue_inv_def by (intro exI [of _ None]) simp
qed

lemma queue_inv_step: "queue_step r s s' \<Longrightarrow> queue_inv s \<Longrightarrow> queue_inv s'"
  by (erule queue_step.cases) (simp_all add: queue_inv_lock queue_inv_critical queue_inv_unlock)

lemma queue_inv_steps: "queue_steps r s0 s \<Longrightarrow> queue_inv s0 \<Longrightarrow> queue_inv s"
  by (induction rule: queue_steps.induct) (auto intro: queue_inv_step)

section \<open>Properties\<close>

text \<open>
  C23: under preemption at any point, with any number of producers and consumers, the lines
  printed are a history of a queue that one thread at a time works on: every produced line
  shows one more than the line before left, every consumed line one less and never below 0,
  and nothing is reported as not consumed but at 0. When no thread is behind the mutex the
  queue is as the history says, and at most one thread is.
\<close>
theorem preempted_queue_history:
  assumes "queue_steps r initial_run s"
  shows "\<exists>q. replay 0 (lines s) = Some q \<and> 0 \<le> q \<and>
    ((\<forall>t. pc s t \<noteq> Critical) \<longrightarrow> shared_size s = q) \<and>
    (\<forall>t u. pc s t = Critical \<and> pc s u = Critical \<longrightarrow> t = u)"
proof -
  obtain ow where ow: "lock_rel (mutex_of s) ow"
    "case ow of None \<Rightarrow> replay 0 (lines s) = Some (shared_size s)
      | Some t \<Rightarrow> replay 0 (lines s) = Some (behind (queue_at s t) (shared_size s)) \<and>
          (queue_at s t = Printing_nothing \<longrightarrow> shared_size s = 0) \<and> (queue_at s t = Decrementing \<longrightarrow> 0 < shared_size s)"
    using queue_inv_steps [OF assms queue_inv_initial] by (auto simp: queue_inv_def)
  then obtain q where q: "replay 0 (lines s) = Some q" by (cases ow) auto
  moreover have "shared_size s = q" if "\<forall>t. pc s t \<noteq> Critical"
    using ow q that lock_rel_critical [OF ow(1)] by (cases ow) auto
  ultimately show ?thesis using replay_nonnegative [OF q] lock_rel_critical [OF ow(1)] by auto
qed

theorem preempted_queue_history_witness:
  "\<exists>s. queue_steps (\<lambda>t. Producer) initial_run s \<and> lines s = [Produced 1] \<and> (\<exists>q. replay 0 (lines s) = Some q \<and> 0 \<le> q)"
proof -
  have init: "mutex_of initial_run = unlocked" "locked unlocked = 0" "pc unlocked t = Outside" "pc initial_run = pc unlocked" for t
    by (simp_all add: mutex_of_def initial_run_def lock_state.defs unlocked_def thread_mutex_init_def)
  have pc_with: "pc (with_mutex m s) = pc m" for m s by (simp add: with_mutex_def)
  let ?m1 = "goto 0 Spinning unlocked" and ?m2 = "goto 0 Exchanging (goto 0 Spinning unlocked)"
  let ?m3 = "(goto 0 Critical ?m2)\<lparr>locked := 1\<rparr>"
  let ?s1 = "with_mutex ?m1 initial_run"
  let ?s2 = "with_mutex ?m2 ?s1"
  let ?s3 = "with_mutex ?m3 ?s2"
  let ?s4 = "queue_to 0 Printing_produced (?s3\<lparr>shared_size := 1\<rparr>)"
  let ?s5 = "queue_to 0 Unlocking (?s4\<lparr>lines := [Produced 1]\<rparr>)"
  have fields: "shared_size initial_run = 0" "lines initial_run = []" "queue_at initial_run t = Updating" for t
    by (simp_all add: initial_run_def lock_state.defs)
  note steps = queue_steps.queue_next [where r = "\<lambda>t. Producer"]
  have 1: "queue_steps (\<lambda>t. Producer) initial_run ?s1"
    by (rule steps [OF queue_start lock_part [where t = 0]]) (simp_all add: init lock_step.call)
  have 2: "queue_steps (\<lambda>t. Producer) initial_run ?s2"
    using lock_step.spin_out [of ?m1 0]
    by (intro steps [OF 1 lock_part [where t = 0]]) (simp_all add: pc_with init)
  have 3: "queue_steps (\<lambda>t. Producer) initial_run ?s3"
    using lock_step.exchange [of ?m2 0 True 1]
    by (intro steps [OF 2 lock_part [where t = 0]]) (simp_all add: pc_with init atomic_compare_exchange_def)
  have 4: "queue_steps (\<lambda>t. Producer) initial_run ?s4"
    by (rule steps [OF 3 critical_part [where t = 0]]) (simp_all add: pc_with critical_def fields)
  have 5: "queue_steps (\<lambda>t. Producer) initial_run ?s5"
    by (rule steps [OF 4 critical_part [where t = 0]]) (simp_all add: pc_with critical_def fields)
  moreover have "lines ?s5 = [Produced 1]" by simp
  ultimately show ?thesis using preempted_queue_history [OF 5] by blast
qed

end
