(* ===== verification/Request_Queue.thy ===== *)
theory Request_Queue imports LL_Double begin

text \<open>
  The request queue of \<open>HW1-skeleton/thread_pool.c\<close> over the linked list of
  \<open>HW1-skeleton/ll_double.c\<close>, whose nodes have the same fields as those of the later list.
  The operations are the critical sections of the pool, run while \<open>queue_lock\<close> is held.
\<close>

section \<open>The list\<close>

definition ll_init_hw1 :: "ll_list \<Rightarrow> ll_list" where
  "ll_init_hw1 l = l\<lparr>list_head := NULL, list_tail := NULL\<rparr>"

text \<open>
  The pointer fields of the new node are written before it is compared with NULL; its other
  bytes are \<open>junk\<close>.
\<close>
definition ll_insert_head_hw1 :: "node \<Rightarrow> ptr \<Rightarrow> ptr \<Rightarrow> ll_list \<Rightarrow> heap \<Rightarrow> (ptr \<times> ll_list \<times> heap) option" where
  "ll_insert_head_hw1 junk new_node data l h =
     do {
       guard (new_node \<noteq> NULL);
       let h = h(new_node \<mapsto> junk\<lparr>node_prev := NULL, node_next := NULL\<rparr>);
       (if new_node \<noteq> NULL then
          do {
            h \<leftarrow> write_at (\<lambda>n. n\<lparr>node_data := data\<rparr>) h new_node;
            (if list_head l = NULL then Some (new_node, l\<lparr>list_head := new_node, list_tail := new_node\<rparr>, h)
             else do {
               h \<leftarrow> set_node_prev h (list_head l) new_node;
               h \<leftarrow> set_node_next h new_node (list_head l);
               Some (new_node, l\<lparr>list_head := new_node\<rparr>, h)
             })
          }
        else Some (new_node, l, h))
     }"

text \<open>The new last node loses its \<open>prev\<close> pointer; its \<open>next\<close> pointer is kept.\<close>
definition ll_remove_tail_hw1 :: "ll_list \<Rightarrow> heap \<Rightarrow> (ptr \<times> ll_list \<times> heap) option" where
  "ll_remove_tail_hw1 l h =
     (if list_tail l = NULL then Some (NULL, l, h)
      else do {
        let result = list_tail l;
        n \<leftarrow> load_at h result;
        let l = l\<lparr>list_tail := node_prev n\<rparr>;
        (if list_tail l \<noteq> NULL then do { h \<leftarrow> set_node_prev h (list_tail l) NULL; Some (result, l, h) }
         else Some (result, ll_init_hw1 l, h))
      })"

text \<open>The result and the list after an insertion are those of the later list.\<close>

lemma ll_insert_head_hw1_ok:
  assumes l: "list_at h l as ds" and new: "new_node \<noteq> NULL" "h new_node = None"
  obtains l' h' where "ll_insert_head_hw1 junk new_node data l h = Some (new_node, l', h')"
    "list_at h' l' (new_node # as) (data # ds)" "dom h' = insert new_node (dom h)"
proof -
  note ends = list_at_ends [OF l] and fresh = list_at_fresh [OF l new(2)]
  obtain l' h' where ins: "ll_insert_head new_node data l h = Some (new_node, l', h')"
    "list_at h' l' (new_node # as) (data # ds)" "dom h' = insert new_node (dom h)"
    by (rule ll_insert_head_ok [OF l new])
  have "ll_insert_head_hw1 junk new_node data l h = ll_insert_head new_node data l h"
  proof (cases "as = []")
    case True
    with ends new(1) show ?thesis
      by (cases junk) (simp add: ll_insert_head_hw1_def ll_insert_head_def write_at_def load_at_def)
  next
    case False
    with ends(1,3) have head: "list_head l \<noteq> NULL" "list_head l \<in> set as" by simp_all
    then have other: "list_head l \<noteq> new_node" using fresh by auto
    obtain n where "h (list_head l) = Some n" by (rule list_at_node [OF l head(2)])
    with head other new(1) ends(2) False show ?thesis
      by (cases junk) (auto simp: ll_insert_head_hw1_def ll_insert_head_def set_node_prev_def set_node_next_def
          write_at_def load_at_def fun_upd_twist)
  qed
  with ins show thesis by (intro that) simp_all
qed

text \<open>One node: the list is empty afterwards. Several: everything in front of the new last
  node is cut off from the tail, and the next removal empties the list.\<close>

lemma ll_remove_tail_hw1_single:
  assumes "list_at h l [a] [d]"
  shows "ll_remove_tail_hw1 l h = Some (a, ll_init_hw1 l, h)" "data_at h a = Some d"
proof -
  obtain n where n: "h a = Some n" "a \<noteq> NULL" by (rule list_at_node [OF assms, of a]) simp_all
  with assms show "ll_remove_tail_hw1 l h = Some (a, ll_init_hw1 l, h)" "data_at h a = Some d"
    by (auto simp: list_at_def linked_def ll_remove_tail_hw1_def load_at_def ll_init_hw1_def links_of_def)
qed

lemma ll_remove_tail_hw1_several:
  assumes l: "list_at h l (as @ [b, a]) (ds @ [e, d])"
  obtains l' h' where "ll_remove_tail_hw1 l h = Some (a, l', h')" "data_at h' = data_at h" "data_at h a = Some d"
    "ll_remove_tail_hw1 l' h' = Some (b, ll_init_hw1 l', h')" "data_at h b = Some e"
proof -
  have links: "linked (links_of h) (list_head l) (list_tail l) (as @ [b, a])"
    and ds: "map (data_at h) (as @ [b, a]) = map Some (ds @ [e, d])"
    using l by (simp_all add: list_at_def)
  have len: "length ds = length as" using list_at_length [OF l] by simp
  with ds have data: "data_at h a = Some d" "data_at h b = Some e" by simp_all
  obtain n where n: "h a = Some n" "a \<noteq> NULL" by (rule list_at_node [OF l, of a]) simp_all
  obtain m where m: "h b = Some m" "b \<noteq> NULL" by (rule list_at_node [OF l, of b]) simp_all
  have "links_of h a = Some (b, NULL)"
    using linked_node(1) [of "links_of h" _ _ "as @ [b]" a "[]"] links by simp
  then have prev: "node_prev n = b" using n(1) by (simp add: links_of_def)
  have tail: "list_tail l = a" using links by (simp add: linked_def)
  let ?h = "h(b \<mapsto> m\<lparr>node_prev := NULL\<rparr>)"
  let ?l = "l\<lparr>list_tail := b\<rparr>"
  have "ll_remove_tail_hw1 l h = Some (a, ?l, ?h)"
    using n m tail prev by (simp add: ll_remove_tail_hw1_def load_at_def set_node_prev_def write_at_def)
  moreover have "ll_remove_tail_hw1 ?l ?h = Some (b, ll_init_hw1 ?l, ?h)"
    using m by (simp add: ll_remove_tail_hw1_def load_at_def ll_init_hw1_def)
  moreover have "data_at ?h = data_at h"
    using m by (auto simp: data_at_def)
  ultimately show thesis using data by (intro that) simp_all
qed

section \<open>The queue of requests\<close>

text \<open>\<open>requests\<close> maps an allocated \<open>struct request\<close> to its client.\<close>
record pool_state =
  queue_size :: int
  pool_list :: ll_list
  pool_heap :: heap
  requests :: "ptr \<rightharpoonup> ptr"

text \<open>\<open>ll_init(&list)\<close> of \<open>start_threads\<close>, with the initial values of the globals.\<close>
definition start_pool :: "ll_list \<Rightarrow> pool_state" where
  "start_pool l = \<lparr>queue_size = 0, pool_list = ll_init_hw1 l, pool_heap = Map.empty, requests = Map.empty\<rparr>"

text \<open>\<open>request\<close> and \<open>new_node\<close> are what the two calls of \<open>malloc\<close> returned.\<close>
definition put_request :: "node \<Rightarrow> ptr \<Rightarrow> ptr \<Rightarrow> ptr \<Rightarrow> 'a pool_state_scheme \<Rightarrow> 'a pool_state_scheme option" where
  "put_request junk request new_node client s =
     do {
       guard (request \<noteq> NULL);
       let s = s\<lparr>requests := (requests s)(request \<mapsto> client)\<rparr>;
       (_, l, h) \<leftarrow> ll_insert_head_hw1 junk new_node request (pool_list s) (pool_heap s);
       let s = s\<lparr>pool_list := l, pool_heap := h\<rparr>;
       Some (s\<lparr>queue_size := queue_size s + 1\<rparr>)
     }"

text \<open>\<open>request = ll_remove_tail(&list)->data; queue_size--;\<close>\<close>
definition take_request :: "'a pool_state_scheme \<Rightarrow> (ptr \<times> 'a pool_state_scheme) option" where
  "take_request s =
     do {
       (node, l, h) \<leftarrow> ll_remove_tail_hw1 (pool_list s) (pool_heap s);
       n \<leftarrow> load_at h node;
       Some (node_data n, s\<lparr>pool_list := l, pool_heap := h, queue_size := queue_size s - 1\<rparr>)
     }"

text \<open>The clients of the next requests, each read through \<open>request->client\<close>.\<close>
primrec take_requests :: "nat \<Rightarrow> 'a pool_state_scheme \<Rightarrow> (ptr list \<times> 'a pool_state_scheme) option" where
  "take_requests 0 s = Some ([], s)"
| "take_requests (Suc n) s = do { (request, s) \<leftarrow> take_request s; c \<leftarrow> requests s request; (cs, s) \<leftarrow> take_requests n s; Some (c # cs, s) }"

text \<open>An arrival is the two allocated addresses with the client.\<close>
type_synonym arrival = "ptr \<times> ptr \<times> ptr"

primrec put_requests :: "node \<Rightarrow> arrival list \<Rightarrow> 'a pool_state_scheme \<Rightarrow> 'a pool_state_scheme option" where
  "put_requests junk [] s = Some s"
| "put_requests junk (x # xs) s =
     (case x of (request, new_node, client) \<Rightarrow> do { s \<leftarrow> put_request junk request new_node client s; put_requests junk xs s })"

definition client_of :: "arrival \<Rightarrow> ptr" where
  "client_of x = snd (snd x)"

text \<open>The addresses are those of fresh allocations.\<close>
definition allocations :: "arrival list \<Rightarrow> bool" where
  "allocations xs \<longleftrightarrow> distinct (map fst xs) \<and> distinct (map (fst \<circ> snd) xs) \<and>
     (\<forall>x \<in> set xs. fst x \<noteq> NULL \<and> fst (snd x) \<noteq> NULL)"

text \<open>The clients \<open>cs\<close> are queued, the one that has waited longest first.\<close>
definition queued :: "'a pool_state_scheme \<Rightarrow> ptr list \<Rightarrow> bool" where
  "queued s cs \<longleftrightarrow> queue_size s = int (length cs) \<and>
     (\<exists>as rs. list_at (pool_heap s) (pool_list s) as rs \<and> map (requests s) rs = map Some (rev cs))"

lemma queued_start: "queued (start_pool l) []"
  by (auto simp: queued_def start_pool_def ll_init_hw1_def intro!: exI [of _ "[]"])

lemma put_request_ok:
  assumes q: "queued s cs" and new: "request \<noteq> NULL" "requests s request = None"
    "new_node \<noteq> NULL" "pool_heap s new_node = None"
  obtains s' where "put_request junk request new_node client s = Some s'" "queued s' (cs @ [client])"
    "dom (requests s') = insert request (dom (requests s))"
    "dom (pool_heap s') = insert new_node (dom (pool_heap s))"
proof -
  obtain as rs where l: "list_at (pool_heap s) (pool_list s) as rs"
    and rs: "map (requests s) rs = map Some (rev cs)" and size: "queue_size s = int (length cs)"
    using q by (auto simp: queued_def)
  obtain l' h' where ins: "ll_insert_head_hw1 junk new_node request (pool_list s) (pool_heap s) = Some (new_node, l', h')"
    "list_at h' l' (new_node # as) (request # rs)" "dom h' = insert new_node (dom (pool_heap s))"
    by (rule ll_insert_head_hw1_ok [OF l new(3,4)])
  let ?s = "s\<lparr>requests := (requests s)(request \<mapsto> client), pool_list := l', pool_heap := h', queue_size := queue_size s + 1\<rparr>"
  have "request \<notin> set rs"
  proof
    assume "request \<in> set rs"
    then have "requests s request \<in> set (map (requests s) rs)" by simp
    then show False unfolding rs using new(2) by auto
  qed
  then have "map ((requests s)(request \<mapsto> client)) (request # rs) = map Some (rev (cs @ [client]))"
    using rs by (auto intro: map_cong)
  then have "queued ?s (cs @ [client])"
    using ins(2) size unfolding queued_def by (intro conjI exI [of _ "new_node # as"] exI [of _ "request # rs"]) simp_all
  moreover have "put_request junk request new_node client s = Some ?s"
    using ins(1) new(1) by (simp add: put_request_def Let_def)
  ultimately show thesis using ins(3) by (intro that [of ?s]) simp_all
qed

lemma put_requests_ok:
  assumes "queued s cs" "allocations xs"
    and "\<And>x. x \<in> set xs \<Longrightarrow> requests s (fst x) = None \<and> pool_heap s (fst (snd x)) = None"
  shows "\<exists>s'. put_requests junk xs s = Some s' \<and> queued s' (cs @ map client_of xs)"
  using assms
proof (induction xs arbitrary: s cs)
  case (Cons x xs)
  obtain r n c where x: "x = (r, n, c)" by (cases x)
  have new: "r \<noteq> NULL" "requests s r = None" "n \<noteq> NULL" "pool_heap s n = None"
    using Cons.prems(2) Cons.prems(3) [of x] by (simp_all add: allocations_def x)
  obtain s1 where s1: "put_request junk r n c s = Some s1" "queued s1 (cs @ [c])"
    "dom (requests s1) = insert r (dom (requests s))" "dom (pool_heap s1) = insert n (dom (pool_heap s))"
    by (rule put_request_ok [OF Cons.prems(1) new])
  have "requests s1 (fst y) = None \<and> pool_heap s1 (fst (snd y)) = None" if "y \<in> set xs" for y
  proof -
    have "fst y \<noteq> r" "fst (snd y) \<noteq> n"
      using Cons.prems(2) that by (auto simp: allocations_def x image_iff)
    moreover have "requests s (fst y) = None" "pool_heap s (fst (snd y)) = None"
      using Cons.prems(3) [of y] that by simp_all
    ultimately have "fst y \<notin> dom (requests s1)" "fst (snd y) \<notin> dom (pool_heap s1)"
      using s1(3,4) by auto
    then show ?thesis by blast
  qed
  moreover have "allocations xs" using Cons.prems(2) by (simp add: allocations_def)
  ultimately obtain s' where "put_requests junk xs s1 = Some s'" "queued s' ((cs @ [c]) @ map client_of xs)"
    using Cons.IH [OF s1(2)] by blast
  moreover have "client_of x = c" by (simp add: x client_of_def)
  ultimately show ?case using s1(1) by (simp add: x)
qed simp

text \<open>What the consumers get out: at most two requests.\<close>

lemma take_requests_single:
  assumes "queued s [c]"
  obtains r s' where "take_request s = Some (r, s')" "requests s' r = Some c" "queued s' []"
proof -
  obtain as rs where l: "list_at (pool_heap s) (pool_list s) as rs" and rs: "map (requests s) rs = [Some c]"
    and size: "queue_size s = 1"
    using assms by (auto simp: queued_def)
  then obtain r a where ra: "rs = [r]" "as = [a]" "requests s r = Some c"
    using list_at_length [OF l] by (cases as) auto
  from l have l: "list_at (pool_heap s) (pool_list s) [a] [r]" by (simp add: ra)
  note rem = ll_remove_tail_hw1_single [OF l]
  obtain n where n: "pool_heap s a = Some n" "a \<noteq> NULL" by (rule list_at_node [OF l, of a]) simp_all
  let ?s = "s\<lparr>pool_list := ll_init_hw1 (pool_list s), queue_size := 0\<rparr>"
  have "take_request s = Some (r, ?s)"
    using rem n size by (simp add: take_request_def load_at_def data_at_def)
  moreover have "requests ?s r = Some c" using ra(3) by simp
  moreover have "queued ?s []"
    by (auto simp: queued_def ll_init_hw1_def intro!: exI [of _ "[]"])
  ultimately show thesis by (rule that)
qed

lemma last_two:
  assumes "2 \<le> length xs"
  obtains ys b a where "xs = ys @ [b, a]"
proof (cases xs rule: rev_cases)
  case (snoc ys a)
  note a = snoc
  with assms show thesis
    by (cases ys rule: rev_cases) (auto intro: that)
qed (use assms in simp)

lemma take_requests_several:
  assumes "queued s (c # d # cs)"
  obtains s' where "take_requests 2 s = Some ([c, d], s')" "take_request s' = None" "queue_size s' = int (length cs)"
proof -
  obtain as rs where l: "list_at (pool_heap s) (pool_list s) as rs"
    and rs: "map (requests s) rs = map Some (rev cs) @ [Some d, Some c]"
    and size: "queue_size s = int (length cs) + 2"
    using assms by (auto simp: queued_def)
  from rs obtain rs' q r where r: "rs = rs' @ [q, r]" "requests s q = Some d" "requests s r = Some c"
    by (auto simp: map_eq_append_conv)
  have "2 \<le> length as" using list_at_length [OF l] r(1) by simp
  then obtain as' b a where as: "as = as' @ [b, a]" by (rule last_two)
  from l have l: "list_at (pool_heap s) (pool_list s) (as' @ [b, a]) (rs' @ [q, r])" by (simp add: as r)
  obtain l' h' where rem: "ll_remove_tail_hw1 (pool_list s) (pool_heap s) = Some (a, l', h')" "data_at h' = data_at (pool_heap s)"
    "data_at (pool_heap s) a = Some r" "ll_remove_tail_hw1 l' h' = Some (b, ll_init_hw1 l', h')" "data_at (pool_heap s) b = Some q"
    by (rule ll_remove_tail_hw1_several [OF l]) (rule that)
  have "a \<noteq> NULL" "b \<noteq> NULL" using list_at_node [OF l, of a] list_at_node [OF l, of b] by auto
  moreover have data: "data_at h' a = Some r" "data_at h' b = Some q" using rem(2,3,5) by simp_all
  moreover obtain n where n: "h' a = Some n" "node_data n = r" using data(1) by (auto simp: data_at_def)
  moreover obtain m where m: "h' b = Some m" "node_data m = q" using data(2) by (auto simp: data_at_def)
  ultimately have "take_requests 2 s = Some ([c, d], s\<lparr>pool_list := ll_init_hw1 l', pool_heap := h', queue_size := int (length cs)\<rparr>)"
    using rem(1,4) r(2,3) size by (simp add: take_request_def load_at_def numeral_2_eq_2)
  then show thesis
    by (rule that) (simp_all add: take_request_def ll_remove_tail_hw1_def ll_init_hw1_def load_at_def)
qed

end
