(* ===== verification/Thread_Pool.thy ===== *)
theory Thread_Pool imports Request_Queue begin

text \<open>
  The thread pool of \<open>HW1-skeleton/thread_pool.c\<close> as a step relation: 16 consumers and the
  accepting thread share \<open>queue_lock\<close>, the condition variable and the queue, and their
  steps interleave in any order; they are atomic, a read of \<open>queue_size\<close> without the lock
  included. A consumer is at one of the places where another thread
  can get in; a step takes it to the next one. Waits may end spuriously, and a mutex locked
  twice by its owner blocks, as POSIX says of a mutex with default attributes that is normal.
\<close>

abbreviation (input) NUM_THREADS :: "'a::numeral" where "NUM_THREADS \<equiv> 16"

datatype consumer_pc =
    Check_finish      \<comment> \<open>\<open>while(finish == 0)\<close>\<close>
  | Locking           \<comment> \<open>\<open>pthread_mutex_lock(&queue_lock)\<close>\<close>
  | Check_queue       \<comment> \<open>\<open>while(queue_size == 0)\<close>\<close>
  | Waiting           \<comment> \<open>in \<open>pthread_cond_wait\<close>, the lock released\<close>
  | Relocking         \<comment> \<open>in \<open>pthread_cond_wait\<close>, woken up\<close>
  | Woken             \<comment> \<open>behind \<open>pthread_cond_wait\<close>\<close>
  | Serving ptr       \<comment> \<open>with the request it took, up to \<open>free(request)\<close>\<close>
  | Returned_NULL

record pool_run = pool_state +
  finish_flag :: int
  owner :: "nat option"
  consumer_at :: "nat \<Rightarrow> consumer_pc"
  handed_out :: "ptr list"

definition consumer_to :: "nat \<Rightarrow> consumer_pc \<Rightarrow> 'a pool_run_scheme \<Rightarrow> 'a pool_run_scheme" where
  "consumer_to t p s = s\<lparr>consumer_at := (consumer_at s)(t := p)\<rparr>"

text \<open>
  What comes of a step: the thread has to wait or has ended, the step is undefined, or there
  is a next state. A program has no behaviour from an undefined step on, so that the states of
  a run are those in front of it.
\<close>
datatype 's outcome = Blocks | Undefined | Continues 's

text \<open>
  One step of consumer \<open>t\<close>. Waiting for the condition without owning the lock is undefined;
  so are a request that is taken from an empty list and one that was freed.
\<close>
definition consumer :: "nat \<Rightarrow> 'a pool_run_scheme \<Rightarrow> 'a pool_run_scheme outcome" where
  "consumer t s = (case consumer_at s t of
     Check_finish \<Rightarrow> Continues (consumer_to t (if finish_flag s = 0 then Locking else Returned_NULL) s)
   | Locking \<Rightarrow> (if owner s = None then Continues (consumer_to t Check_queue (s\<lparr>owner := Some t\<rparr>)) else Blocks)
   | Check_queue \<Rightarrow>
       (if queue_size s = 0
        then if owner s = Some t then Continues (consumer_to t Waiting (s\<lparr>owner := None\<rparr>))
             else Undefined
        else Continues (consumer_to t Check_finish s))
   | Waiting \<Rightarrow> Blocks
   | Relocking \<Rightarrow> (if owner s = None then Continues (consumer_to t Woken (s\<lparr>owner := Some t\<rparr>)) else Blocks)
   | Woken \<Rightarrow>
       (if finish_flag s = 1 then Continues (consumer_to t Check_finish (s\<lparr>owner := None\<rparr>))
        else (case take_request s of
                None \<Rightarrow> Undefined
              | Some (request, s) \<Rightarrow> Continues (consumer_to t (Serving request) (s\<lparr>owner := None\<rparr>))))
   | Serving request \<Rightarrow>
       (case requests s request of
          None \<Rightarrow> Undefined
        | Some client \<Rightarrow>
            Continues (consumer_to t Check_queue (s\<lparr>handed_out := handed_out s @ [client], requests := (requests s)(request := None)\<rparr>)))
   | Returned_NULL \<Rightarrow> Blocks)"

text \<open>\<open>pthread_cond_signal\<close> with nobody waiting does nothing; a broadcast wakes every waiter.\<close>
definition wake_all :: "'a pool_run_scheme \<Rightarrow> 'a pool_run_scheme" where
  "wake_all s = s\<lparr>consumer_at := (\<lambda>t. if consumer_at s t = Waiting then Relocking else consumer_at s t)\<rparr>"

inductive signalled :: "'a pool_run_scheme \<Rightarrow> 'a pool_run_scheme \<Rightarrow> bool" where
  signal_one: "consumer_at s t = Waiting \<Longrightarrow> signalled s (consumer_to t Relocking s)"
| signal_none: "\<forall>t. consumer_at s t \<noteq> Waiting \<Longrightarrow> signalled s s"

text \<open>The critical section of \<open>finish_threads\<close>.\<close>
definition finish_threads :: "'a pool_run_scheme \<Rightarrow> 'a pool_run_scheme" where
  "finish_threads s = wake_all (s\<lparr>finish_flag := 1\<rparr>)"

definition start_threads :: "ll_list \<Rightarrow> pool_run" where
  "start_threads l = pool_state.extend (start_pool l)
     \<lparr>finish_flag = 0, owner = None, consumer_at = (\<lambda>t. if t < NUM_THREADS then Check_finish else Returned_NULL), handed_out = []\<rparr>"

inductive pool_step :: "'a pool_run_scheme \<Rightarrow> 'a pool_run_scheme \<Rightarrow> bool" where
  consumes: "consumer t s = Continues s' \<Longrightarrow> pool_step s s'"
| puts: "owner s = None \<Longrightarrow> request \<noteq> NULL \<Longrightarrow> requests s request = None \<Longrightarrow>
    new_node \<noteq> NULL \<Longrightarrow> pool_heap s new_node = None \<Longrightarrow>
    put_request junk request new_node client s = Some s1 \<Longrightarrow> signalled s1 s' \<Longrightarrow> pool_step s s'"
| spurious: "consumer_at s t = Waiting \<Longrightarrow> pool_step s (consumer_to t Relocking s)"
| finishes: "owner s = None \<Longrightarrow> pool_step s (finish_threads s)"

inductive_simps signalled_simps: "signalled s s'"

inductive pool_steps :: "'a pool_run_scheme \<Rightarrow> 'a pool_run_scheme \<Rightarrow> bool" for s where
  pool_refl: "pool_steps s s"
| pool_next: "pool_steps s s1 \<Longrightarrow> pool_step s1 s2 \<Longrightarrow> pool_steps s s2"

text \<open>The next step of some consumer is undefined.\<close>
definition pool_undefined :: "'a pool_run_scheme \<Rightarrow> bool" where
  "pool_undefined s \<longleftrightarrow> (\<exists>t. consumer t s = Undefined)"

text \<open>It is so for a consumer that comes back from a service and finds the queue empty.\<close>

lemma unlocked_wait_undefined:
  "consumer_at s t = Check_queue \<Longrightarrow> queue_size s = 0 \<Longrightarrow> owner s \<noteq> Some t \<Longrightarrow> pool_undefined s"
  unfolding pool_undefined_def by (rule exI [of _ t]) (simp add: consumer_def)

section \<open>The lock\<close>

lemma consumer_to_simps [simp]:
  "consumer_at (consumer_to t p s) u = (if u = t then p else consumer_at s u)"
  "owner (consumer_to t p s) = owner s" "queue_size (consumer_to t p s) = queue_size s"
  "finish_flag (consumer_to t p s) = finish_flag s" "handed_out (consumer_to t p s) = handed_out s"
  "requests (consumer_to t p s) = requests s" "pool_heap (consumer_to t p s) = pool_heap s"
  "pool_list (consumer_to t p s) = pool_list s"
  by (simp_all add: consumer_to_def)

lemma take_request_fields:
  assumes "take_request s = Some (c, s')"
  shows "owner s' = owner s" "consumer_at s' = consumer_at s" "finish_flag s' = finish_flag s"
    "handed_out s' = handed_out s" "queue_size s' = queue_size s - 1"
  using assms by (auto simp: take_request_def split: Option.bind_splits)

lemma put_request_fields:
  assumes "put_request junk r n c s = Some s'"
  shows "owner s' = owner s" "consumer_at s' = consumer_at s" "finish_flag s' = finish_flag s"
    "handed_out s' = handed_out s" "queue_size s' = queue_size s + 1"
  using assms by (auto simp: put_request_def split: Option.bind_splits)

text \<open>A signal changes where one waiting consumer is, and nothing else.\<close>

lemma signalled_fields:
  assumes "signalled s s'"
  shows "owner s' = owner s" "queue_size s' = queue_size s"
    "consumer_at s' t = consumer_at s t \<or> consumer_at s t = Waiting \<and> consumer_at s' t = Relocking"
  using assms by (auto simp: signalled_simps split: if_splits)

text \<open>
  The places at which a consumer can hold the lock; one that takes a request does hold it,
  and one that waits, has been woken up or serves a client does not.
\<close>
definition pool_lock_inv :: "'a pool_run_scheme \<Rightarrow> bool" where
  "pool_lock_inv s \<longleftrightarrow> (\<forall>t. (consumer_at s t = Woken \<longrightarrow> owner s = Some t) \<and>
     (owner s = Some t \<longrightarrow> consumer_at s t \<in> {Woken, Check_queue, Check_finish, Locking, Returned_NULL}))"

lemma pool_lock_inv_start: "pool_lock_inv (start_threads l)"
  by (simp add: pool_lock_inv_def start_threads_def pool_state.defs)

lemma pool_lock_invD:
  assumes "pool_lock_inv s"
  shows "consumer_at s t = Woken \<Longrightarrow> owner s = Some t"
    "owner s = Some t \<Longrightarrow> consumer_at s t \<in> {Woken, Check_queue, Check_finish, Locking, Returned_NULL}"
  using assms unfolding pool_lock_inv_def by blast+

text \<open>A change of the other fields and of waiting consumers keeps the invariant.\<close>

lemma pool_lock_inv_wake:
  assumes "pool_lock_inv s" "owner s' = owner s"
    and "\<And>t. consumer_at s' t = consumer_at s t \<or> consumer_at s t = Waiting \<and> consumer_at s' t = Relocking"
  shows "pool_lock_inv s'"
  unfolding pool_lock_inv_def
proof (intro allI conjI impI)
  fix t
  show "owner s' = Some t" if "consumer_at s' t = Woken"
    using that assms(2) assms(3) [of t] pool_lock_invD(1) [OF assms(1), of t] by auto
  show "consumer_at s' t \<in> {Woken, Check_queue, Check_finish, Locking, Returned_NULL}" if "owner s' = Some t"
  proof -
    have "consumer_at s t \<in> {Woken, Check_queue, Check_finish, Locking, Returned_NULL}"
      using that assms(2) pool_lock_invD(2) [OF assms(1), of t] by simp
    with assms(3) [of t] show ?thesis by auto
  qed
qed

lemma consumer_lock_inv:
  assumes inv: "pool_lock_inv s" and step: "consumer t s = Continues s'"
  shows "pool_lock_inv s'"
  unfolding pool_lock_inv_def
proof (intro allI conjI impI)
  fix u
  note w = pool_lock_invD [OF inv]
  show "owner s' = Some u" if "consumer_at s' u = Woken"
    using step that w(1) [of u] w(1) [of t] w(2) [of t] w(2) [of u]
    by (auto simp: consumer_def take_request_fields split: consumer_pc.splits if_splits option.splits)
  show "consumer_at s' u \<in> {Woken, Check_queue, Check_finish, Locking, Returned_NULL}" if "owner s' = Some u"
    using step that w(2) [of u] w(2) [of t]
    by (auto simp: consumer_def take_request_fields split: consumer_pc.splits if_splits option.splits)
qed

lemma pool_step_lock_inv:
  assumes inv: "pool_lock_inv s" and step: "pool_step s s'"
  shows "pool_lock_inv s'"
  using step
proof (cases rule: pool_step.cases)
  case (consumes t)
  then show ?thesis by (rule consumer_lock_inv [OF inv])
next
  case (puts request new_node junk client s1)
  note f = signalled_fields [OF puts(7)] and g = put_request_fields [OF puts(6)]
  show ?thesis by (rule pool_lock_inv_wake [OF inv]) (use f g in auto)
next
  case (spurious t)
  then show ?thesis by (intro pool_lock_inv_wake [OF inv]) auto
next
  case finishes
  then show ?thesis by (intro pool_lock_inv_wake [OF inv]) (auto simp: finish_threads_def wake_all_def)
qed

lemma pool_steps_lock_inv: "pool_steps s s' \<Longrightarrow> pool_lock_inv s \<Longrightarrow> pool_lock_inv s'"
  by (induction rule: pool_steps.induct) (auto intro: pool_step_lock_inv)

section \<open>A consumer that finds the queue non-empty\<close>

text \<open>It goes round the outer loop and asks for the lock it holds.\<close>
definition deadlocked :: "nat \<Rightarrow> 'a pool_run_scheme \<Rightarrow> bool" where
  "deadlocked t s \<longleftrightarrow> owner s = Some t \<and> consumer_at s t = Locking"

text \<open>While the lock is held nobody puts a request, and nobody but its holder takes one.\<close>

lemma pool_step_deadlocked:
  assumes "pool_lock_inv s" "deadlocked t s" "pool_step s s'"
  shows "deadlocked t s' \<and> queue_size s' = queue_size s \<and> pool_list s' = pool_list s \<and> pool_heap s' = pool_heap s"
  using assms(3)
proof (cases rule: pool_step.cases)
  case (consumes u)
  have "consumer_at s u \<noteq> Woken" using pool_lock_invD(1) [OF assms(1), of u] assms(2) by (auto simp: deadlocked_def)
  with consumes assms(2) show ?thesis
    by (auto simp: deadlocked_def consumer_def split: consumer_pc.splits if_splits option.splits)
next
  case puts
  with assms(2) show ?thesis by (simp add: deadlocked_def)
next
  case spurious
  with assms(2) show ?thesis by (auto simp: deadlocked_def)
next
  case finishes
  with assms(2) show ?thesis by (simp add: deadlocked_def)
qed

lemma pool_steps_deadlocked:
  assumes "pool_steps s s'" "pool_lock_inv s" "deadlocked t s"
  shows "deadlocked t s' \<and> queue_size s' = queue_size s \<and> pool_list s' = pool_list s \<and> pool_heap s' = pool_heap s"
  using assms
proof (induction rule: pool_steps.induct)
  case (pool_next s1 s2)
  then show ?case using pool_step_deadlocked [of s1 t s2] pool_steps_lock_inv [of s s1] by auto
qed simp

lemma consumer_deadlocks:
  assumes "owner s = None" "consumer_at s t = Locking" "queue_size s \<noteq> 0" "finish_flag s = 0"
  obtains s' where "pool_steps s s'" "deadlocked t s'" "queue_size s' = queue_size s"
proof -
  let ?s1 = "consumer_to t Check_queue (s\<lparr>owner := Some t\<rparr>)"
  have 1: "pool_step s ?s1" by (rule consumes [of t]) (use assms in \<open>simp add: consumer_def\<close>)
  have 2: "pool_step ?s1 (consumer_to t Check_finish ?s1)"
    by (rule consumes [of t]) (use assms in \<open>simp add: consumer_def\<close>)
  have 3: "pool_step (consumer_to t Check_finish ?s1) (consumer_to t Locking (consumer_to t Check_finish ?s1))"
    by (rule consumes [of t]) (use assms in \<open>simp add: consumer_def\<close>)
  show thesis
    by (rule that [OF pool_next [OF pool_next [OF pool_next [OF pool_refl 1] 2] 3]])
      (simp_all add: deadlocked_def)
qed

end
