(* ===== verification/Pool_Properties.thy ===== *)
theory Pool_Properties imports Thread_Pool Client_Properties begin

text \<open>
  The pre-threaded server of \<open>HW1-skeleton\<close>: what a consumer does for one request, the order
  in which requests leave the queue, and what the interleaving of the consumers allows.
\<close>

section \<open>One request\<close>

text \<open>
  The part of \<open>consumer\<close> in \<open>thread_pool.c\<close> behind the critical section, for the client of
  the request; both structures are freed afterwards.
\<close>
definition serve_request :: "lib \<Rightarrow> client \<Rightarrow> io_state \<Rightarrow> (client \<times> io_state) option" where
  "serve_request L client w =
     do {
       (r, client, w) \<leftarrow> read_request L client w;
       (client, w) \<leftarrow> (if r \<noteq> 0 then do { (_, client, w) \<leftarrow> write_reply client w; Some (client, w) } else Some (client, w));
       Some (client, if client_status client = STATUS_OK then w\<lparr>operations_completed := operations_completed w + 1\<rparr> else w)
     }"

text \<open>
  A consumer serves a connection completely: when the request arrives in any number of
  pieces, names a readable file, and writes are accepted in pieces of any positive size, it
  sends the response header followed by the whole file and counts the operation; the client
  is freed with its socket still open.
\<close>

lemma pool_serves_file:
  assumes c: "c = make_client junk sock" and sock: "willing w sock"
    and req: "pieces_of_header L [] pieces" "reads w sock = map Some pieces @ cs" "length (concat pieces) < BUFFER_SIZE"
    and name: "get_filename L (concat pieces) = (r, filename, protocol)" "r \<noteq> -1"
    and data: "files w filename = Some (True, data)"
    and reply: "reply = cstring (get_200 L filename protocol (sint (of_nat (length data) :: 32 word)))"
      "length reply < BUFFER_SIZE"
  shows "\<exists>c' w'. serve_request L c w = Some (c', w') \<and> sent w' sock = sent w sock @ reply @ data \<and>
    operations_completed w' = operations_completed w + 1 \<and> socket c' = sock \<and> closed w' = closed w"
proof -
  have fields: "socket c = sock" "client_state c = E_RECV_REQUEST" "client_status c = STATUS_OK" "received c [] = c"
    using c by (simp_all add: make_client_def received_empty)
  have sock0: "0 \<le> socket c" using sock fields(1) by (simp add: willing_def)
  let ?c1 = "received c (concat pieces)" and ?w1 = "after_reads w sock cs"
  have files1: "files ?w1 filename = Some (True, data)" using data by (simp add: after_reads_def)
  obtain c2 w2 where s: "switch_state L filename protocol ?c1 ?w1 = Some (c2, w2)" "in_buffer c2" "pending c2 = reply"
    "client_state c2 = E_SEND_REPLY" "socket c2 = socket ?c1" "client_status c2 = client_status ?c1"
    "client_file c2 = Suc (next_stream ?w1)" "w2 = ?w1\<lparr>streams := (streams ?w1)(Suc (next_stream ?w1) \<mapsto> data),
      next_stream := Suc (next_stream ?w1)\<rparr>"
    by (rule switch_state_readable [OF files1 reply, where c = ?c1]) (rule that)
  have read: "read_request L c w = Some (1, c2, w2)"
    using read_request_pieces [of L "[]" pieces c w cs] req name fields sock0 s(1) by (simp add: dispatch_def)
  have rest: "file_rest c2 w2 = Some data" by (simp add: file_rest_def s(7,8))
  have will: "willing w2 (socket c2)" using sock fields(1) by (simp add: s(5,8) after_reads_def willing_def)
  obtain c' w' where w': "write_reply c2 w2 = Some (1, c', w')" "same_client c2 c'" "ntowrite c' = 0"
    "sent w' = (sent w2)(socket c2 := sent w2 (socket c2) @ pending c2 @ data)" "closed w' = closed w2"
    "operations_completed w' = operations_completed w2"
    "client_file c2 \<noteq> NULL \<Longrightarrow> streams w' (client_file c2) = None"
    by (rule write_reply_ok [OF will s(2) rest]) (rule that)
  have w2: "sent w2 = sent w" "closed w2 = closed w" "operations_completed w2 = operations_completed w"
    by (simp_all add: s(8) after_reads_def)
  have "serve_request L c w = Some (c', w'\<lparr>operations_completed := operations_completed w' + 1\<rparr>)"
    using read w'(1,2) s(6) fields(3) by (simp add: serve_request_def same_client_def)
  then show ?thesis
    using w'(2,4-6) w2 s(3,5) fields(1) by (auto simp: same_client_def)
qed

lemma pool_serves_file_example:
  "\<exists>c' w'. serve_request sample_lib sample_client sample_io = Some (c', w') \<and> sent w' 5 = [50, 48, 48, 7, 8, 9] \<and> closed w' = []"
proof -
  have "willing sample_io 5" by (simp add: willing_def sample_io_def)
  moreover have "reads sample_io 5 = map Some [[71], [10]] @ []" "files sample_io [102] = Some (True, [7, 8, 9])"
    by (simp_all add: sample_io_def)
  moreover have "length [50 :: u8, 48, 48] < 4096" by simp
  moreover have "get_filename sample_lib (concat [[71], [10]]) = (0, [102], [])"
    "[50, 48, 48] = cstring (get_200 sample_lib [102] [] (sint (of_nat (length [7 :: u8, 8, 9]) :: 32 word)))"
    by (simp_all add: sample_lib_def cstring_def)
  ultimately have "\<exists>c' w'. serve_request sample_lib sample_client sample_io = Some (c', w') \<and>
      sent w' 5 = sent sample_io 5 @ [50, 48, 48] @ [7, 8, 9] \<and>
      operations_completed w' = operations_completed sample_io + 1 \<and> socket c' = 5 \<and> closed w' = closed sample_io"
    by (intro pool_serves_file [OF sample_client_def _ sample_pieces]) (assumption | simp only: | simp)+
  then show ?thesis by (auto simp: sample_io_def)
qed

section \<open>The queue\<close>

lemma two_taken:
  assumes "queued s [c, d]"
  obtains s' where "take_requests 2 s = Some ([c, d], s')" "queue_size s' = 0"
  by (rule take_requests_several [OF assms]) (auto intro: that)

text \<open>
  Requests leave the queue in the order of their arrival as long as at most two are
  queued. Of three or more, only the two oldest can be taken: the counter then says that
  requests are left, but the list is empty, and taking the next one reads through NULL.
\<close>

lemma queue_loses_requests:
  assumes "allocations xs"
  shows "\<exists>s. put_requests junk xs (start_pool l) = Some s \<and> queue_size s = int (length xs) \<and>
    (length xs \<le> 2 \<longrightarrow> (\<exists>s'. take_requests (length xs) s = Some (map client_of xs, s') \<and> queue_size s' = 0)) \<and>
    (length xs > 2 \<longrightarrow> (\<exists>s'. take_requests 2 s = Some (map client_of (take 2 xs), s') \<and>
       queue_size s' = int (length xs - 2) \<and> take_request s' = None))"
proof -
  obtain s where s: "put_requests junk xs (start_pool l) = Some s" "queued s (map client_of xs)"
    using put_requests_ok [OF queued_start [of l] assms, of junk] by (auto simp: start_pool_def)
  then have size: "queue_size s = int (length xs)" by (simp add: queued_def)
  have small: "\<exists>s'. take_requests (length xs) s = Some (map client_of xs, s') \<and> queue_size s' = 0" if "length xs \<le> 2"
  proof (cases xs)
    case Nil
    with size show ?thesis by simp
  next
    case (Cons x ys)
    show ?thesis
    proof (cases ys)
      case Nil
      with s(2) Cons have "queued s [client_of x]" by simp
      then obtain r s' where "take_request s = Some (r, s')" "requests s' r = Some (client_of x)" "queued s' []" by (rule take_requests_single)
      with Cons Nil show ?thesis by (simp add: queued_def)
    next
      case (Cons y zs)
      with \<open>xs = x # ys\<close> that have xs: "xs = [x, y]" by simp
      with s(2) have "queued s [client_of x, client_of y]" by simp
      then obtain s' where "take_requests 2 s = Some ([client_of x, client_of y], s')" "queue_size s' = 0" by (rule two_taken)
      with xs show ?thesis by (simp add: numeral_2_eq_2)
    qed
  qed
  have large: "\<exists>s'. take_requests 2 s = Some (map client_of (take 2 xs), s') \<and>
      queue_size s' = int (length xs - 2) \<and> take_request s' = None" if "length xs > 2"
  proof -
    from that obtain x y zs where xs: "xs = x # y # zs" by (cases xs; cases "tl xs") auto
    with s(2) have "queued s (client_of x # client_of y # map client_of zs)" by simp
    then obtain s' where "take_requests 2 s = Some ([client_of x, client_of y], s')" "take_request s' = None"
      "queue_size s' = int (length (map client_of zs))" by (rule take_requests_several)
    with xs show ?thesis by (simp add: numeral_2_eq_2)
  qed
  show ?thesis using s(1) size small large by blast
qed

lemma queue_loses_requests_example:
  "\<exists>s s'. put_requests \<lparr>node_data = 0, node_prev = 0, node_next = 0\<rparr> [(1, 11, 101), (2, 12, 102), (3, 13, 103)]
      (start_pool \<lparr>list_head = 0, list_tail = 0\<rparr>) = Some s \<and>
    take_requests 2 s = Some ([101, 102], s') \<and> queue_size s' = 1 \<and> take_request s' = None"
proof -
  have "allocations [(1, 11, 101), (2, 12, 102), (3, 13, 103)]" by (simp add: allocations_def)
  from queue_loses_requests [OF this, of "\<lparr>node_data = 0, node_prev = 0, node_next = 0\<rparr>" "\<lparr>list_head = 0, list_tail = 0\<rparr>"]
  show ?thesis by (auto simp: client_of_def numeral_2_eq_2 simp del: take_requests.simps put_requests.simps)
qed

section \<open>The interleaving\<close>


lemma start_threads_simps [simp]:
  "owner (start_threads l) = None" "finish_flag (start_threads l) = 0" "queue_size (start_threads l) = 0"
  "consumer_at (start_threads l) t = (if t < NUM_THREADS then Check_finish else Returned_NULL)"
  "pool_heap (start_threads l) = Map.empty" "requests (start_threads l) = Map.empty"
  by (simp_all add: start_threads_def pool_state.defs start_pool_def)

lemma queued_start_threads: "queued (start_threads l) []"
  using queued_start [of l] by (simp add: queued_def start_threads_def pool_state.defs)

text \<open>Consumer 3 is about to take the lock while a request is queued.\<close>
lemma about_to_deadlock:
  "\<exists>s. pool_steps (start_threads l) s \<and> owner s = None \<and> consumer_at s 3 = Locking \<and> queue_size s = 1 \<and> finish_flag s = 0"
proof -
  let ?s = "start_threads l"
  let ?s1 = "consumer_to 3 Locking ?s"
  have 1: "pool_step ?s ?s1" by (rule consumes [of 3]) (simp add: consumer_def)
  have q: "queued ?s1 []" using queued_start_threads [of l] by (simp add: queued_def)
  obtain s2 where s2: "put_request junk 1 11 101 ?s1 = Some s2"
    by (rule put_request_ok [OF q, of 1 11, where client = 101]) simp_all
  note f = put_request_fields [OF s2]
  have sig: "signalled s2 s2" by (rule signal_none) (simp add: f)
  have 2: "pool_step ?s1 s2" by (rule puts [OF _ _ _ _ _ s2 sig]) simp_all
  show ?thesis
    by (rule exI [of _ s2]) (simp add: pool_next [OF pool_next [OF pool_refl 1] 2] f)
qed


text \<open>
  A consumer that gets the lock while a request is queued can lock the pool for good: it
  leaves the inner loop with the lock held and asks for it again. From then on, whatever the
  other threads do, the lock is never released and no request is put or taken.
\<close>

lemma consumer_locks_itself:
  assumes "pool_steps (start_threads l) s"
    and "owner s = None" and "consumer_at s t = Locking" and "queue_size s \<noteq> 0" and "finish_flag s = 0"
  shows "\<exists>s'. pool_steps s s' \<and> (\<forall>s''. pool_steps s' s'' \<longrightarrow> owner s'' = Some t \<and> consumer_at s'' t = Locking \<and>
    queue_size s'' = queue_size s)"
proof -
  obtain s' where s': "pool_steps s s'" "deadlocked t s'" "queue_size s' = queue_size s"
    by (rule consumer_deadlocks [OF assms(2-5)])
  have inv: "pool_lock_inv s'"
    by (rule pool_steps_lock_inv [OF s'(1) pool_steps_lock_inv [OF assms(1) pool_lock_inv_start]])
  show ?thesis
  proof (intro exI conjI allI impI)
    fix s'' assume "pool_steps s' s''"
    from pool_steps_deadlocked [OF this inv s'(2)] s'(3)
    show "owner s'' = Some t" "consumer_at s'' t = Locking" "queue_size s'' = queue_size s"
      by (simp_all add: deadlocked_def)
  qed (rule s'(1))
qed

lemma consumer_locks_itself_example:
  "\<exists>(s :: pool_run) s'. queue_size s = 1 \<and> pool_steps s s' \<and> (\<forall>s''. pool_steps s' s'' \<longrightarrow> owner s'' = Some 3)"
proof -
  obtain s where s: "pool_steps (start_threads \<lparr>list_head = 0, list_tail = 0\<rparr>) s" "owner s = None" "consumer_at s 3 = Locking" "queue_size s = 1"
    "finish_flag s = 0" using about_to_deadlock by blast
  then have "queue_size s \<noteq> 0" by simp
  from consumer_locks_itself [OF s(1-3) this s(5)] s(4) show ?thesis by blast
qed

end
