(* ===== verification/Client_Safety.thy ===== *)
theory Client_Safety imports Client_List begin

text \<open>
  The handlers of the state machine are defined unless the client has just completed a
  header that the library rejects: no access leaves the buffer of a client, and no stream is
  used after it was closed. The state of a live client is \<open>client_ok\<close>; each handler keeps it
  or closes the socket.
\<close>

text \<open>The library's promise: what the response functions write fits into \<open>BUFFER_SIZE\<close>.\<close>
definition replies_fit :: "lib \<Rightarrow> bool" where
  "replies_fit L \<longleftrightarrow> (\<forall>f p n. length (cstring (get_200 L f p n)) < BUFFER_SIZE) \<and>
     (\<forall>f p. length (cstring (get_403 L f p)) < BUFFER_SIZE \<and> length (cstring (get_404 L f p)) < BUFFER_SIZE)"

lemma replies_fitD:
  assumes "replies_fit L"
  shows "length (cstring (get_200 L f p n)) < BUFFER_SIZE" "length (cstring (get_403 L f p)) < BUFFER_SIZE"
    "length (cstring (get_404 L f p)) < BUFFER_SIZE"
  using assms unfolding replies_fit_def by blast+

definition client_ok :: "client \<Rightarrow> io_state \<Rightarrow> bool" where
  "client_ok c w \<longleftrightarrow> 0 \<le> socket c \<and> socket c < FD_SETSIZE \<and> in_buffer c \<and> 0 \<le> nread c \<and> nread c \<le> BUFFER_SIZE - 1 \<and>
     client_state c \<in> {E_RECV_REQUEST, E_SEND_REPLY} \<and>
     (client_file c \<noteq> NULL \<longrightarrow> streams w (client_file c) \<noteq> None)"

text \<open>Streams are numbered in the order they are opened.\<close>
definition streams_ok :: "io_state \<Rightarrow> bool" where
  "streams_ok w \<longleftrightarrow> (\<forall>f. streams w f \<noteq> None \<longrightarrow> f \<noteq> NULL \<and> f \<le> next_stream w)"

text \<open>
  What a handler may do to the streams: those of other clients, with numbers up to the
  last one opened before and different from the client's own, are left alone; the client
  keeps its stream, gives it up, or gets a new one.
\<close>
definition own_stream_only :: "client \<Rightarrow> io_state \<Rightarrow> client \<Rightarrow> io_state \<Rightarrow> bool" where
  "own_stream_only c w c' w' \<longleftrightarrow> next_stream w \<le> next_stream w' \<and>
     (\<forall>f \<le> next_stream w. f \<noteq> client_file c \<longrightarrow> streams w' f = streams w f) \<and>
     client_file c' \<in> {NULL, client_file c, Suc (next_stream w)} \<and> streams_ok w'"

lemmas client_safety = client_ok_def streams_ok_def own_stream_only_def

section \<open>The system calls\<close>

lemma sys_read_result:
  assumes "sys_read fd n w = (r, bs, w')"
  shows "r \<le> int n" "0 < r \<Longrightarrow> r = int (length bs)" "streams w' = streams w" "next_stream w' = next_stream w"
    "files w' = files w"
  using assms by (auto simp: sys_read_def split: if_splits list.splits option.splits)

lemma sys_write_result:
  assumes "sys_write fd bs w = (r, w')"
  shows "r = -1 \<or> 0 \<le> r \<and> r \<le> int (length bs)" "streams w' = streams w" "next_stream w' = next_stream w"
  using assms by (auto simp: sys_write_def Let_def split: if_splits list.splits)

lemma fail_client_simps [simp]:
  "fst (fail_client c w) = c\<lparr>client_status := STATUS_BAD, socket := -1\<rparr>"
  "snd (fail_client c w) = sys_close (socket c) w"
  by (simp_all add: fail_client_def finish_client_def)

lemma sys_close_simps [simp]:
  "streams (sys_close fd w) = streams w" "next_stream (sys_close fd w) = next_stream w" "files (sys_close fd w) = files w"
  by (simp_all add: sys_close_def)

text \<open>
  Preparing a reply is defined for every file name; the client keeps its socket and sends
  what fits into its buffer.
\<close>

lemma switch_state_safe:
  assumes fit: "replies_fit L" and ok: "streams_ok w" and own: "client_file c \<noteq> NULL \<longrightarrow> streams w (client_file c) \<noteq> None"
  obtains c' w' where "switch_state L filename protocol c w = Some (c', w')" "own_stream_only c w c' w'"
    "in_buffer c'" "client_state c' = E_SEND_REPLY" "socket c' = socket c" "nread c' = nread c"
    "client_file c' \<noteq> NULL \<longrightarrow> streams w' (client_file c') \<noteq> None"
proof -
  note fit = replies_fitD [OF fit]
  let ?reply = "\<lambda>buf c. c\<lparr>client_buffer := store_bytes (client_buffer c) 0 (cstring buf @ [0]),
      ntowrite := int (length (cstring buf)), nwritten := 0, client_state := E_SEND_REPLY\<rparr>"
  consider (missing) "files w filename = None" | (forbidden) data where "files w filename = Some (False, data)"
    | (readable) data where "files w filename = Some (True, data)" by (cases "files w filename") auto
  then show thesis
  proof cases
    case missing
    then have "switch_state L filename protocol c w =
        Some (?reply (get_404 L filename protocol) (c\<lparr>client_status := STATUS_404\<rparr>), w)"
      using fit by (simp add: switch_state_def sys_access_def Let_def)
    then show thesis using ok own fit(3) [of filename protocol]
      by (intro that [of "?reply (get_404 L filename protocol) (c\<lparr>client_status := STATUS_404\<rparr>)" w]) (simp_all add: own_stream_only_def in_buffer_def less_imp_le)
  next
    case forbidden
    then have "switch_state L filename protocol c w =
        Some (?reply (get_403 L filename protocol) (c\<lparr>client_file := NULL, client_status := STATUS_403\<rparr>), w)"
      using fit by (simp add: switch_state_def sys_access_def sys_fopen_def Let_def)
    then show thesis using ok fit(2) [of filename protocol]
      by (intro that [of "?reply (get_403 L filename protocol) (c\<lparr>client_file := NULL, client_status := STATUS_403\<rparr>)" w]) (simp_all add: own_stream_only_def in_buffer_def less_imp_le)
  next
    case readable
    let ?f = "Suc (next_stream w)"
    let ?w = "w\<lparr>streams := (streams w)(?f \<mapsto> data), next_stream := ?f\<rparr>"
    let ?n = "sint (of_nat (length data) :: 32 word)"
    have "switch_state L filename protocol c w =
        Some (?reply (get_200 L filename protocol ?n) (c\<lparr>client_file := ?f\<rparr>), ?w)"
      using readable fit by (simp add: switch_state_def sys_access_def sys_fopen_def obtain_file_size_def Let_def)
    moreover have "streams_ok ?w" using ok by (auto simp: streams_ok_def le_Suc_eq)
    ultimately show thesis using fit(1) [of filename protocol ?n]
      by (intro that [of "?reply (get_200 L filename protocol ?n) (c\<lparr>client_file := ?f\<rparr>)" ?w]) (simp_all add: own_stream_only_def in_buffer_def less_imp_le)
  qed
qed

section \<open>The handlers\<close>

text \<open>The bytes of the request that the next read of the client leads to; empty when it fails.\<close>
definition next_request :: "client \<Rightarrow> io_state \<Rightarrow> bytes" where
  "next_request c w =
     (case sys_read (socket c) (nat (BUFFER_SIZE - 1 - nread c)) w of (r, data, w') \<Rightarrow>
        if r \<le> 0 then []
        else fetch_bytes (store_bytes (client_buffer c) (nat (nread c)) data) 0 (nat (nread c + r)))"

text \<open>The client is about to complete a header that \<open>get_filename\<close> does not accept.\<close>
definition rejected_header :: "lib \<Rightarrow> client \<Rightarrow> io_state \<Rightarrow> bool" where
  "rejected_header L c w \<longleftrightarrow> client_state c = E_RECV_REQUEST \<and> next_request c w \<noteq> [] \<and>
     header_complete L (next_request c w) \<and> fst (get_filename L (next_request c w)) = -1"

lemma continue_reading_rejected:
  assumes "client_ok c w" "rejected_header L c w"
  shows "continue_reading_request L c w = None"
proof -
  obtain r bs w1 where rd: "sys_read (socket c) (nat (BUFFER_SIZE - 1 - nread c)) w = (r, bs, w1)"
    by (metis prod.exhaust)
  have range: "0 \<le> nread c" "nread c \<le> 4095" using assms(1) by (simp_all add: client_ok_def)
  have r: "0 < r" using assms(2) rd by (simp add: rejected_header_def next_request_def split: if_splits)
  then have req: "next_request c w = fetch_bytes (store_bytes (client_buffer c) (nat (nread c)) bs) 0 (nat (nread c + r))"
    using rd by (simp add: next_request_def)
  have nread: "nread c + r \<le> 4095" using sys_read_result(1) [OF rd] range by linarith
  from rd r range nread assms(2) req [symmetric] show ?thesis
    by (simp add: continue_reading_request_def rejected_header_def header_end_def Let_def case_prod_beta)
qed

lemma continue_reading_safe:
  assumes fit: "replies_fit L" and c: "client_ok c w" and ok: "streams_ok w"
    and recv: "client_state c = E_RECV_REQUEST" and good: "\<not> rejected_header L c w"
  obtains c' w' where "continue_reading_request L c w = Some (c', w')" "own_stream_only c w c' w'"
    "client_ok c' w' \<or> socket c' = -1"
proof -
  obtain r bs w1 where rd: "sys_read (socket c) (nat (BUFFER_SIZE - 1 - nread c)) w = (r, bs, w1)"
    by (metis prod.exhaust)
  note res = sys_read_result [OF rd]
  have range: "0 \<le> nread c" "nread c \<le> 4095" using c by (simp_all add: client_ok_def)
  have ok1: "streams_ok w1" using ok res(3,4) by (simp add: streams_ok_def)
  have file1: "client_file c \<noteq> NULL \<longrightarrow> streams w1 (client_file c) \<noteq> None" using c res(3) by (simp add: client_ok_def)
  show thesis
  proof (cases "r \<le> 0")
    case True
    then have "continue_reading_request L c w = Some (fail_client c w1)"
      using rd range by (simp add: continue_reading_request_def)
    then show thesis using ok1 res(3,4)
      by (intro that [of "fst (fail_client c w1)" "snd (fail_client c w1)"])
        (simp_all add: own_stream_only_def streams_ok_def prod_eq_iff)
  next
    case False
    let ?req = "fetch_bytes (store_bytes (client_buffer c) (nat (nread c)) bs) 0 (nat (nread c + r))"
    let ?c = "c\<lparr>client_buffer := store_bytes (store_bytes (client_buffer c) (nat (nread c)) bs) (nat (nread c + r)) [0],
      nread := nread c + r\<rparr>"
    have req: "next_request c w = ?req" using False rd by (simp add: next_request_def)
    have nread: "nread c + r \<le> 4095" using res(1) range by linarith
    have end_ok: "header_end (c\<lparr>client_buffer := store_bytes (client_buffer c) (nat (nread c)) bs, nread := nread c + r\<rparr>) = Some ?c"
      using range False nread by (simp add: header_end_def)
    have ok_c: "client_ok ?c w1" using c nread False res(3) by (simp add: client_ok_def in_buffer_def)
    have own_c: "own_stream_only c w ?c w1" using ok1 res(3,4) by (simp add: own_stream_only_def)
    show thesis
    proof (cases "header_complete L ?req")
      case False
      then have "continue_reading_request L c w = Some (?c, w1)"
        using rd range \<open>\<not> r \<le> 0\<close> end_ok by (simp add: continue_reading_request_def Let_def)
      with ok_c own_c show thesis by (intro that) auto
    next
      case True
      obtain g filename protocol where name: "get_filename L ?req = (g, filename, protocol)" by (metis prod.exhaust)
      have "?req \<noteq> []" using False range by (simp add: fetch_bytes_def)
      then have "g \<noteq> -1" using good True name recv req by (simp add: rejected_header_def)
      then have step: "continue_reading_request L c w = switch_state L filename protocol ?c w1"
        using rd range False True name end_ok by (simp add: continue_reading_request_def Let_def)
      have file2: "client_file ?c \<noteq> NULL \<longrightarrow> streams w1 (client_file ?c) \<noteq> None" using file1 by simp
      obtain c' w' where s: "switch_state L filename protocol ?c w1 = Some (c', w')"
        "own_stream_only ?c w1 c' w'" "in_buffer c'" "client_state c' = E_SEND_REPLY"
        "socket c' = socket ?c" "nread c' = nread ?c" "client_file c' \<noteq> NULL \<longrightarrow> streams w' (client_file c') \<noteq> None"
        by (rule switch_state_safe [OF fit ok1 file2]) (rule that)
      have "own_stream_only c w c' w'"
        using s(2) by (simp add: own_stream_only_def res(3,4))
      moreover have "client_ok c' w'"
        using s(3-7) c nread range False by (simp add: client_ok_def)
      ultimately show thesis using step s(1) that [of c' w'] by simp
    qed
  qed
qed

lemma continue_sending_safe:
  assumes c: "client_ok c w" and ok: "streams_ok w"
  obtains c' w' where "continue_sending_reply c w = Some (c', w')" "own_stream_only c w c' w'"
    "client_ok c' w' \<or> socket c' = -1"
proof -
  have buf: "in_buffer c" using c by (simp add: client_ok_def)
  consider (writing) "ntowrite c \<noteq> 0" | (finishing) "ntowrite c = 0" "client_file c = NULL"
    | (reading) "ntowrite c = 0" "client_file c \<noteq> NULL" by blast
  then show thesis
  proof cases
    case writing
    obtain r w1 where wr: "sys_write (socket c) (pending c) w = (r, w1)" by fastforce
    note res = sys_write_result [OF wr]
    let ?cw = "if r = -1 then fail_client c w1 else (c, w1)"
    let ?c = "(fst ?cw)\<lparr>nwritten := nwritten (fst ?cw) + r, ntowrite := ntowrite (fst ?cw) - r\<rparr>"
    have "continue_sending_reply c w = Some (?c, snd ?cw)"
      using writing buf wr by (simp add: continue_sending_reply_def case_prod_beta)
    moreover have "own_stream_only c w ?c (snd ?cw)"
      using ok res(2,3) by (simp add: own_stream_only_def streams_ok_def)
    moreover have "client_ok ?c (snd ?cw) \<or> socket ?c = -1"
    proof (cases "r = -1")
      case False
      with res(1) have r: "0 \<le> r" "r \<le> ntowrite c" using buf by (auto simp: pending_def in_buffer_def)
      with False c buf res(2) show ?thesis by (simp add: client_ok_def in_buffer_def)
    qed simp
    ultimately show thesis by (rule that)
  next
    case finishing
    let ?w = "sys_close (socket c) w"
    let ?w' = "if client_status c = STATUS_OK then ?w\<lparr>operations_completed := operations_completed ?w + 1\<rparr> else ?w"
    have "continue_sending_reply c w = Some (c\<lparr>socket := -1\<rparr>, ?w')"
      using finishing by (simp add: continue_sending_reply_def finish_client_def)
    moreover have "streams ?w' = streams w" "next_stream ?w' = next_stream w" by simp_all
    then have "own_stream_only c w (c\<lparr>socket := -1\<rparr>) ?w'" using ok by (simp add: own_stream_only_def streams_ok_def)
    ultimately show thesis by (intro that) auto
  next
    case reading
    with c obtain data where data: "streams w (client_file c) = Some data" by (auto simp: client_ok_def)
    have own: "client_file c \<le> next_stream w" using ok data by (simp add: streams_ok_def)
    let ?chunk = "take BUFFER_SIZE data"
    let ?w1 = "w\<lparr>streams := (streams w)(client_file c \<mapsto> drop BUFFER_SIZE data)\<rparr>"
    let ?w2 = "w\<lparr>streams := (streams w)(client_file c := None)\<rparr>"
    let ?c1 = "c\<lparr>client_buffer := store_bytes (client_buffer c) 0 ?chunk, nwritten := 0, ntowrite := int (length ?chunk)\<rparr>"
    show thesis
    proof (cases "length data < BUFFER_SIZE")
      case True
      then have "continue_sending_reply c w = Some (?c1\<lparr>client_file := NULL\<rparr>, ?w2)"
        using reading data by (simp add: continue_sending_reply_def sys_fread_def sys_fclose_def)
      moreover have "client_ok (?c1\<lparr>client_file := NULL\<rparr>) ?w2"
        using c True by (simp add: client_ok_def in_buffer_def)
      ultimately show thesis using ok
        by (intro that) (auto simp: own_stream_only_def streams_ok_def split: if_splits)
    next
      case False
      then have "continue_sending_reply c w = Some (?c1, ?w1)"
        using reading data by (simp add: continue_sending_reply_def sys_fread_def)
      moreover have "client_ok ?c1 ?w1" using c False by (simp add: client_ok_def in_buffer_def)
      ultimately show thesis using ok own reading
        by (intro that) (auto simp: own_stream_only_def streams_ok_def split: if_splits)
    qed
  qed
qed

lemma handle_client_rejected:
  assumes "client_ok c w" "rejected_header L c w"
  shows "handle_client L c w = None"
  using continue_reading_rejected [OF assms] assms(2) by (simp add: handle_client_def rejected_header_def)

lemma handle_client_safe:
  assumes "replies_fit L" "client_ok c w" "streams_ok w" "\<not> rejected_header L c w"
  obtains c' w' where "handle_client L c w = Some (c', w')" "own_stream_only c w c' w'"
    "client_ok c' w' \<or> socket c' = -1"
proof (cases "client_state c = E_RECV_REQUEST")
  case True
  obtain c' w' where "continue_reading_request L c w = Some (c', w')" "own_stream_only c w c' w'"
    "client_ok c' w' \<or> socket c' = -1" by (rule continue_reading_safe [OF assms(1-3) True assms(4)])
  with True show thesis by (intro that) (simp_all add: handle_client_def)
next
  case False
  with assms(2) have "client_state c = E_SEND_REPLY" by (simp add: client_ok_def)
  moreover obtain c' w' where "continue_sending_reply c w = Some (c', w')" "own_stream_only c w c' w'"
    "client_ok c' w' \<or> socket c' = -1" by (rule continue_sending_safe [OF assms(2,3)])
  ultimately show thesis by (intro that) (simp_all add: handle_client_def)
qed

end
