(* ===== verification/Server_Loop.thy ===== *)
theory Server_Loop imports Client_Safety begin

text \<open>
  The main loop of \<open>HW1-skeleton/server_statemachine.c\<close>: collecting the descriptors, and one
  round behind \<open>select\<close>, which accepts a connection, serves the ready clients and removes
  the finished ones. What \<open>select\<close> reported and whether a connection came in are inputs of
  the round. At the end the three faults that make a round undefined, and that it is well
  behaved without them.
\<close>

section \<open>The code\<close>

text \<open>
  The loop in front of \<open>select\<close>: \<open>maximum_descriptor\<close>, and what is put into the read set and
  the write set. The code hands the pointer \<open>current\<close> itself to \<open>FD_SET\<close>, which takes an
  \<open>int\<close>; \<open>as_int\<close> is the value the compiler makes of it.
\<close>
partial_function (option) descriptor_loop ::
    "(ptr \<Rightarrow> int) \<Rightarrow> (ptr \<rightharpoonup> client) \<Rightarrow> ptr \<Rightarrow> int \<Rightarrow> fd_set \<Rightarrow> fd_set \<Rightarrow> (int \<times> fd_set \<times> fd_set) option" where
  "descriptor_loop as_int h current maximum_descriptor set_read set_write =
     (if current \<noteq> NULL then
        do {
          c \<leftarrow> load_at h current;
          let maximum_descriptor = socket c;
          set_read \<leftarrow> (if client_state c = E_RECV_REQUEST then FD_SET (as_int current) set_read else Some set_read);
          set_write \<leftarrow> (if client_state c = E_SEND_REPLY then FD_SET (as_int current) set_write else Some set_write);
          let maximum_descriptor = (if maximum_descriptor < socket c then socket c else maximum_descriptor);
          descriptor_loop as_int h (client_next c) maximum_descriptor set_read set_write
        }
      else Some (maximum_descriptor, set_read, set_write))"

text \<open>
  A connection: the address and the old contents of the new client, and the result of
  \<open>accept_client\<close>. Of the library, \<open>make_nonblocking\<close> only leaves a mark on the descriptor.
\<close>
type_synonym connection = "ptr \<times> buf \<times> int"

definition make_nonblocking :: "int \<Rightarrow> io_state \<Rightarrow> io_state" where
  "make_nonblocking fd w = w\<lparr>nonblocking := nonblocking w @ [fd]\<rparr>"

definition accept_connection :: "lib \<Rightarrow> connection \<Rightarrow> server_state \<Rightarrow> io_state \<Rightarrow> (server_state \<times> io_state) option" where
  "accept_connection L connection s w =
     (case connection of (new_client, junk, client_socket) \<Rightarrow>
       do {
         let w = print (case get_peer_information L client_socket of (host, port) \<Rightarrow> New_connection_from host port) w;
         let w = make_nonblocking client_socket w;
         (inserted, s) \<leftarrow> insert_client new_client junk client_socket s;
         Some (s, w)
       })"

text \<open>One round behind \<open>select\<close>, with the sets as it left them.\<close>
definition server_round ::
    "lib \<Rightarrow> int \<Rightarrow> fd_set \<Rightarrow> fd_set \<Rightarrow> connection \<Rightarrow> server_state \<Rightarrow> io_state \<Rightarrow> (server_state \<times> io_state) option" where
  "server_round L accept_socket set_read set_write connection s w =
     do {
       incoming \<leftarrow> FD_ISSET accept_socket set_read;
       (s, w) \<leftarrow> (if incoming then accept_connection L connection s w else Some (s, w));
       (s, w) \<leftarrow> handle_ready L set_read set_write (clients_head s) s w;
       s \<leftarrow> remove_dead s;
       Some (s, w)
     }"

text \<open>The loop at the end of the program, which closes the remaining sockets.\<close>
partial_function (option) close_clients :: "(ptr \<rightharpoonup> client) \<Rightarrow> ptr \<Rightarrow> io_state \<Rightarrow> io_state option" where
  "close_clients h current w =
     (if current \<noteq> NULL then
        do { c \<leftarrow> load_at h current; close_clients h (client_next c) (sys_close (socket c) w) }
      else Some w)"

section \<open>Walking the list\<close>

lemma client_chain_Cons:
  assumes "chain (clients.view h) p (a # as) NULL"
  obtains c where "load_at h a = Some c" "h a = Some c" "a \<noteq> NULL" "client_next c = first_of as NULL"
    "chain (clients.view h) a as NULL"
proof -
  from assms have "a \<noteq> NULL" "clients.view h a = Some (p, first_of as NULL)" "chain (clients.view h) a as NULL" by simp_all
  then show thesis using that by (auto simp: clients.view_def load_at_def)
qed

text \<open>The clients of a list of addresses, and what each loop computes from them.\<close>
definition clients_of :: "(ptr \<rightharpoonup> client) \<Rightarrow> ptr list \<Rightarrow> client list" where
  "clients_of h as = map (\<lambda>a. the (h a)) as"

lemma descriptor_loop_chain:
  assumes "chain (clients.view h) p as NULL" "\<And>a. a \<in> set as \<Longrightarrow> 0 \<le> as_int a \<and> as_int a < FD_SETSIZE"
  shows "descriptor_loop as_int h (first_of as NULL) m rs ws =
    Some (if as = [] then m else socket (the (h (last as))),
      rs \<union> as_int ` set (filter (\<lambda>a. client_state (the (h a)) = E_RECV_REQUEST) as),
      ws \<union> as_int ` set (filter (\<lambda>a. client_state (the (h a)) = E_SEND_REPLY) as))"
  using assms
proof (induction as arbitrary: p m rs ws)
  case Nil
  show ?case by (subst descriptor_loop.simps) simp
next
  case (Cons a as)
  obtain c where c: "load_at h a = Some c" "h a = Some c" "a \<noteq> NULL" "client_next c = first_of as NULL"
    "chain (clients.view h) a as NULL" by (rule client_chain_Cons [OF Cons.prems(1)])
  have set: "FD_SET (as_int a) fds = Some (insert (as_int a) fds)" for fds
    using Cons.prems(2) [of a] by (simp add: FD_SET_def)
  have range: "\<And>b. b \<in> set as \<Longrightarrow> 0 \<le> as_int b \<and> as_int b < FD_SETSIZE" using Cons.prems(2) by simp
  show ?case
    using Cons.IH [OF c(5) range] by (cases as; subst descriptor_loop.simps) (simp_all add: c(1,2,3,4) set Let_def)
qed

definition descriptor_fits :: "int \<Rightarrow> bool" where
  "descriptor_fits fd \<longleftrightarrow> 0 \<le> fd \<and> fd < FD_SETSIZE"

lemma descriptor_loop_undefined:
  assumes "chain (clients.view h) p as NULL" "\<exists>a \<in> set as. \<not> descriptor_fits (as_int a)"
    and "\<forall>a \<in> set as. client_state (the (h a)) \<in> {E_RECV_REQUEST, E_SEND_REPLY}"
  shows "descriptor_loop as_int h (first_of as NULL) m rs ws = None"
  using assms
proof (induction as arbitrary: p m rs ws)
  case (Cons a as)
  obtain c where c: "load_at h a = Some c" "h a = Some c" "a \<noteq> NULL" "client_next c = first_of as NULL"
    "chain (clients.view h) a as NULL" by (rule client_chain_Cons [OF Cons.prems(1)])
  have state: "client_state c \<in> {E_RECV_REQUEST, E_SEND_REPLY}" using Cons.prems(3) c(2) by simp
  show ?case
  proof (cases "descriptor_fits (as_int a)")
    case True
    then have "\<exists>b \<in> set as. \<not> descriptor_fits (as_int b)" using Cons.prems(2) by auto
    with Cons.IH [OF c(5)] Cons.prems(3) have "descriptor_loop as_int h (first_of as NULL) m rs ws = None" for m rs ws by simp
    moreover have "FD_SET (as_int a) fds = Some (insert (as_int a) fds)" for fds using True by (simp add: FD_SET_def descriptor_fits_def)
    ultimately show ?thesis by (subst descriptor_loop.simps) (simp add: c(1,3,4) Let_def)
  next
    case False
    then have "FD_SET (as_int a) fds = None" for fds by (auto simp: FD_SET_def descriptor_fits_def)
    with state show ?thesis by (subst descriptor_loop.simps) (auto simp: c(1,3) Let_def)
  qed
qed simp

lemma close_clients_chain:
  assumes "chain (clients.view h) p as NULL"
  shows "close_clients h (first_of as NULL) w = Some (w\<lparr>closed := closed w @ map socket (clients_of h as)\<rparr>)"
  using assms
proof (induction as arbitrary: p w)
  case Nil
  show ?case by (subst close_clients.simps) (simp add: clients_of_def)
next
  case (Cons a as)
  obtain c where c: "load_at h a = Some c" "h a = Some c" "a \<noteq> NULL" "client_next c = first_of as NULL"
    "chain (clients.view h) a as NULL" by (rule client_chain_Cons [OF Cons.prems])
  show ?case
    by (subst close_clients.simps) (use c Cons.IH [OF c(5)] in \<open>simp add: clients_of_def sys_close_def\<close>)
qed

text \<open>The links determine the list.\<close>

lemma client_chain_unique:
  assumes "chain (clients.view h) p as NULL" "chain (clients.view h) p bs NULL" "first_of as NULL = first_of bs NULL"
  shows "as = bs"
  using assms
proof (induction as arbitrary: p bs)
  case Nil
  then show ?case by (cases bs) auto
next
  case (Cons a as)
  then show ?case by (cases bs) auto
qed

lemma clients_at_unique: "clients_at s as \<Longrightarrow> clients_at s bs \<Longrightarrow> as = bs"
  using client_chain_unique [of "client_heap s" NULL as bs] by (simp add: clients_at_def linked_def)

section \<open>The invariant of the loop\<close>

text \<open>
  The client at an address without its links, the live clients \<open>as\<close>, and that no two live
  clients share a stream.
\<close>
abbreviation client_at :: "(ptr \<rightharpoonup> client) \<Rightarrow> ptr \<Rightarrow> client option" where
  "client_at h a \<equiv> clients.carried h a"

definition streams_owned :: "(ptr \<rightharpoonup> client) \<Rightarrow> io_state \<Rightarrow> ptr list \<Rightarrow> bool" where
  "streams_owned h w as \<longleftrightarrow> (\<forall>a \<in> set as. \<forall>b \<in> set as. \<forall>c d. a \<noteq> b \<and> client_at h a = Some c \<and> client_at h b = Some d \<and>
     client_ok c w \<and> client_ok d w \<and> client_file c \<noteq> NULL \<longrightarrow> client_file c \<noteq> client_file d)"

definition live_or_dead :: "(ptr \<rightharpoonup> client) \<Rightarrow> io_state \<Rightarrow> ptr \<Rightarrow> bool" where
  "live_or_dead h w a \<longleftrightarrow> (\<exists>c. client_at h a = Some c \<and> (client_ok c w \<or> socket c = -1))"

definition all_live :: "(ptr \<rightharpoonup> client) \<Rightarrow> io_state \<Rightarrow> ptr list \<Rightarrow> bool" where
  "all_live h w as \<longleftrightarrow> (\<forall>a \<in> set as. \<exists>c. client_at h a = Some c \<and> client_ok c w)"

definition server_inv :: "server_state \<Rightarrow> io_state \<Rightarrow> ptr list \<Rightarrow> bool" where
  "server_inv s w as \<longleftrightarrow> clients_at s as \<and> streams_ok w \<and> all_live (client_heap s) w as \<and>
     streams_owned (client_heap s) w as"

lemma client_ok_links [simp]:
  "client_ok (c\<lparr>client_prev := p, client_next := q\<rparr>) w = client_ok c w"
  by (simp add: client_ok_def in_buffer_def)

lemma client_at_Some: "h a = Some c \<Longrightarrow> client_at h a = Some (c\<lparr>client_prev := NULL, client_next := NULL\<rparr>)"
  by (simp add: clients.carried_def)

lemma client_at_D:
  assumes "client_at h a = Some d"
  obtains c where "h a = Some c" "d = c\<lparr>client_prev := NULL, client_next := NULL\<rparr>"
  using assms by (auto simp: clients.carried_def)

lemma client_at_upd: "client_at (h(a \<mapsto> c)) b =
    (if b = a then Some (c\<lparr>client_prev := NULL, client_next := NULL\<rparr>) else client_at h b)"
  by (simp add: clients.carried_def)

text \<open>A client other than the one that was handled stays well formed, with its stream.\<close>

lemma client_ok_other:
  assumes "client_ok d w" "streams_ok w" "own_stream_only c w c' w'"
    and "client_file d = NULL \<or> client_file d \<noteq> client_file c"
  shows "client_ok d w'"
proof -
  have "streams w' (client_file d) = streams w (client_file d)" if "client_file d \<noteq> NULL"
  proof -
    have "client_file d \<le> next_stream w" using assms(1,2) that by (auto simp: client_ok_def streams_ok_def)
    with assms(3,4) that show ?thesis by (auto simp: own_stream_only_def)
  qed
  with assms(1) show ?thesis by (simp add: client_ok_def)
qed

text \<open>Handling one client of the list keeps the others and the ownership of the streams.\<close>

lemma handled_keeps:
  assumes a: "a \<in> set as" "h a = Some c" "client_ok c w" and ok: "streams_ok w"
    and rest: "\<forall>b \<in> set as. live_or_dead h w b" and own: "streams_owned h w as"
    and step: "own_stream_only c w c' w'" "client_ok c' w' \<or> socket c' = -1"
  defines "h' \<equiv> h(a \<mapsto> c')"
  shows "\<forall>b \<in> set as. live_or_dead h' w' b"
    and "streams_owned h' w' as"
    and "\<And>b d. b \<in> set as \<Longrightarrow> b \<noteq> a \<Longrightarrow> client_at h b = Some d \<Longrightarrow> client_ok d w \<Longrightarrow> client_ok d w'"
proof -
  let ?c = "c\<lparr>client_prev := NULL, client_next := NULL\<rparr>"
  have other: "client_ok d w'" if "b \<in> set as" "b \<noteq> a" "client_at h b = Some d" "client_ok d w" for b d
  proof (rule client_ok_other [OF that(4) ok step(1)])
    have "client_file ?c \<noteq> NULL \<longrightarrow> client_file ?c \<noteq> client_file d"
      using own a that client_at_Some [of h a c, OF a(2)] unfolding streams_owned_def by (metis client_ok_links)
    then show "client_file d = NULL \<or> client_file d \<noteq> client_file c" by auto
  qed
  show "client_ok d w'" if "b \<in> set as" "b \<noteq> a" "client_at h b = Some d" "client_ok d w" for b d
    by (rule other [OF that])
  have "live_or_dead h' w' b" if "b \<in> set as" for b
  proof (cases "b = a")
    case True
    with step(2) show ?thesis by (auto simp: live_or_dead_def h'_def client_at_upd)
  next
    case False
    from rest that obtain d where d: "client_at h b = Some d" "client_ok d w \<or> socket d = -1"
      by (auto simp: live_or_dead_def)
    with other [OF that False d(1)] False show ?thesis by (auto simp: live_or_dead_def h'_def client_at_upd)
  qed
  then show "\<forall>b \<in> set as. live_or_dead h' w' b" by blast
  show "streams_owned h' w' as"
    unfolding streams_owned_def
  proof (intro ballI allI impI, elim conjE)
    fix x y e d
    assume xy: "x \<in> set as" "y \<in> set as" "x \<noteq> y" "client_at h' x = Some e" "client_at h' y = Some d"
      "client_ok e w'" "client_ok d w'" "client_file e \<noteq> NULL"
    have was_ok: "client_ok d w" if "client_at h z = Some d" "z \<in> set as" "client_ok d w'" for z d
    proof -
      from rest that(1,2) have "client_ok d w \<or> socket d = -1" by (auto simp: live_or_dead_def)
      with that(3) show ?thesis by (auto simp: client_ok_def)
    qed
    have bound: "client_file d \<le> next_stream w" if "client_ok d w" for d
      using that ok by (auto simp: client_ok_def streams_ok_def)
    have new: "client_file c' \<noteq> client_file d" if "z \<in> set as" "z \<noteq> a" "client_at h z = Some d" "client_ok d w'"
      "client_file c' \<noteq> NULL" for z d
    proof -
      have d: "client_ok d w" by (rule was_ok [OF that(3,1,4)])
      have "client_file ?c \<noteq> NULL \<longrightarrow> client_file ?c \<noteq> client_file d"
        using own a that d client_at_Some [of h a c, OF a(2)] unfolding streams_owned_def by (metis client_ok_links)
      moreover have "client_file c' \<in> {client_file c, Suc (next_stream w)}"
        using step(1) that(5) by (auto simp: own_stream_only_def)
      ultimately show ?thesis using bound [OF d] that(5) by auto
    qed
    consider "x = a" "y \<noteq> a" | "x \<noteq> a" "y = a" | "x \<noteq> a" "y \<noteq> a" using xy(3) by blast
    then show "client_file e \<noteq> client_file d"
    proof cases
      case 1
      with xy new [of y d] show ?thesis by (auto simp: h'_def client_at_upd)
    next
      case 2
      with xy new [of x e] show ?thesis by (auto simp: h'_def client_at_upd)
    next
      case 3
      then have "client_at h x = Some e" "client_at h y = Some d" using xy by (simp_all add: h'_def client_at_upd)
      with xy was_ok [of x e] was_ok [of y d] own show ?thesis unfolding streams_owned_def by blast
    qed
  qed
qed

text \<open>
  A pass over the ready clients is undefined exactly when one of them completes a header that
  the library rejects; otherwise it handles each of them in a live state.
\<close>

definition ready_rejected :: "lib \<Rightarrow> fd_set \<Rightarrow> fd_set \<Rightarrow> client \<Rightarrow> io_state \<Rightarrow> bool" where
  "ready_rejected L rs ws c w \<longleftrightarrow> fd_ready rs ws (socket c) = Some True \<and> rejected_header L c w"

fun pass_rejects :: "lib \<Rightarrow> fd_set \<Rightarrow> fd_set \<Rightarrow> ptr list \<Rightarrow> (ptr \<rightharpoonup> client) \<Rightarrow> io_state \<Rightarrow> bool" where
  "pass_rejects L rs ws [] h w = False"
| "pass_rejects L rs ws (a # as) h w =
     (case h a of None \<Rightarrow> False | Some c \<Rightarrow>
        ready_rejected L rs ws c w \<or>
        (case handle_if_ready L rs ws c w of None \<Rightarrow> False
         | Some (c', w') \<Rightarrow> pass_rejects L rs ws as (h(a \<mapsto> c')) w'))"

lemma handle_if_ready_rejected:
  assumes "client_ok c w" "ready_rejected L rs ws c w"
  shows "handle_if_ready L rs ws c w = None"
  using handle_client_rejected [of c w L] assms by (simp add: ready_rejected_def handle_if_ready_def)

lemma handle_if_ready_safe:
  assumes "replies_fit L" "client_ok c w" "streams_ok w" "\<not> ready_rejected L rs ws c w"
  obtains c' w' where "handle_if_ready L rs ws c w = Some (c', w')" "own_stream_only c w c' w'" "client_ok c' w' \<or> socket c' = -1"
proof -
  have "fd_ready rs ws (socket c) = Some (socket c \<in> rs \<or> socket c \<in> ws)"
    using assms(2) by (simp add: fd_ready_def FD_ISSET_def client_ok_def)
  then obtain b where b: "fd_ready rs ws (socket c) = Some b" by blast
  show thesis
  proof (cases b)
    case True
    with assms(4) b have "\<not> rejected_header L c w" by (simp add: ready_rejected_def)
    show ?thesis
      by (rule handle_client_safe [OF assms(1-3) \<open>\<not> rejected_header L c w\<close>]) (rule that, simp_all add: handle_if_ready_def b True)
  next
    case False
    with assms(2,3) show ?thesis by (intro that [of c w]) (simp_all add: handle_if_ready_def b own_stream_only_def)
  qed
qed

text \<open>After a client was handled, the rest of the pass finds its clients as it needs them.\<close>

lemma serve_list_rest:
  assumes "replies_fit L" "streams_ok w" "set (a # todo) \<subseteq> set as" "distinct (a # todo)"
    and "\<forall>b \<in> set as. live_or_dead h w b" "streams_owned h w as" "all_live h w (a # todo)"
  obtains c where "h a = Some c" "client_ok c w"
    "\<And>c1 w1. handle_if_ready L rs ws c w = Some (c1, w1) \<Longrightarrow> \<not> ready_rejected L rs ws c w \<Longrightarrow>
      streams_ok w1 \<and> (\<forall>b \<in> set as. live_or_dead (h(a \<mapsto> c1)) w1 b) \<and> streams_owned (h(a \<mapsto> c1)) w1 as \<and>
      all_live (h(a \<mapsto> c1)) w1 todo"
proof -
  from assms(3,7) obtain d where d: "client_at h a = Some d" "client_ok d w" and a: "a \<in> set as"
    by (auto simp: all_live_def)
  from d(1) obtain c where c: "h a = Some c" "d = c\<lparr>client_prev := NULL, client_next := NULL\<rparr>" by (rule client_at_D)
  with d have cok: "client_ok c w" by simp
  have rest: "streams_ok w1 \<and> (\<forall>b \<in> set as. live_or_dead (h(a \<mapsto> c1)) w1 b) \<and> streams_owned (h(a \<mapsto> c1)) w1 as \<and>
      all_live (h(a \<mapsto> c1)) w1 todo" if r: "handle_if_ready L rs ws c w = Some (c1, w1)" "\<not> ready_rejected L rs ws c w" for c1 w1
  proof -
    have step: "own_stream_only c w c1 w1" "client_ok c1 w1 \<or> socket c1 = -1"
      by (rule handle_if_ready_safe [OF assms(1) cok assms(2) r(2)], use r(1) in simp)+
    note keeps = handled_keeps [OF a c(1) cok assms(2,5,6) step]
    have "all_live (h(a \<mapsto> c1)) w1 todo"
      unfolding all_live_def
    proof
      fix b assume b: "b \<in> set todo"
      with assms(4) have "b \<noteq> a" by auto
      from b assms(7) obtain e where e: "client_at h b = Some e" "client_ok e w" by (auto simp: all_live_def)
      from b assms(3) have "b \<in> set as" by auto
      from keeps(3) [OF this \<open>b \<noteq> a\<close> e] e(1) \<open>b \<noteq> a\<close>
      show "\<exists>c. client_at (h(a \<mapsto> c1)) b = Some c \<and> client_ok c w1" by (simp add: client_at_upd)
    qed
    with keeps(1,2) step(1) show ?thesis by (simp add: own_stream_only_def)
  qed
  show thesis by (rule that [OF c(1) cok rest])
qed

lemma serve_list_safe:
  assumes "replies_fit L" "streams_ok w" "set todo \<subseteq> set as" "distinct todo"
    and "\<forall>b \<in> set as. live_or_dead h w b" "streams_owned h w as" "all_live h w todo" "\<not> pass_rejects L rs ws todo h w"
  shows "\<exists>h' w'. serve_list L rs ws todo h w = Some (h', w') \<and> streams_ok w' \<and>
    (\<forall>b \<in> set as. live_or_dead h' w' b) \<and> streams_owned h' w' as \<and> dom h' = dom h"
  using assms(2-)
proof (induction todo arbitrary: h w)
  case (Cons a todo)
  obtain c where c: "h a = Some c" "client_ok c w"
    and rest: "\<And>c1 w1. handle_if_ready L rs ws c w = Some (c1, w1) \<Longrightarrow> \<not> ready_rejected L rs ws c w \<Longrightarrow>
      streams_ok w1 \<and> (\<forall>b \<in> set as. live_or_dead (h(a \<mapsto> c1)) w1 b) \<and> streams_owned (h(a \<mapsto> c1)) w1 as \<and>
      all_live (h(a \<mapsto> c1)) w1 todo"
    by (rule serve_list_rest [OF assms(1) Cons.prems(1-6), where rs = rs and ws = ws]) (rule that)
  have good: "\<not> ready_rejected L rs ws c w" using Cons.prems(7) c(1) by simp
  obtain c1 w1 where r: "handle_if_ready L rs ws c w = Some (c1, w1)"
    by (rule handle_if_ready_safe [OF assms(1) c(2) Cons.prems(1) good]) (rule that)
  have sub: "set todo \<subseteq> set as" "distinct todo" using Cons.prems(2,3) by simp_all
  have "\<not> pass_rejects L rs ws todo (h(a \<mapsto> c1)) w1" using Cons.prems(7) c(1) r by simp
  with rest [OF r good] sub Cons.IH [of w1 "h(a \<mapsto> c1)"] obtain h' w' where
    "serve_list L rs ws todo (h(a \<mapsto> c1)) w1 = Some (h', w')" "streams_ok w'" "\<forall>b \<in> set as. live_or_dead h' w' b"
    "streams_owned h' w' as" "dom h' = dom (h(a \<mapsto> c1))" by blast
  with c(1) r show ?case by (auto simp: insert_absorb domI)
qed simp

lemma serve_list_rejected:
  assumes "replies_fit L" "streams_ok w" "set todo \<subseteq> set as" "distinct todo"
    and "\<forall>b \<in> set as. live_or_dead h w b" "streams_owned h w as" "all_live h w todo" "pass_rejects L rs ws todo h w"
  shows "serve_list L rs ws todo h w = None"
  using assms(2-)
proof (induction todo arbitrary: h w)
  case (Cons a todo)
  obtain c where c: "h a = Some c" "client_ok c w"
    and rest: "\<And>c1 w1. handle_if_ready L rs ws c w = Some (c1, w1) \<Longrightarrow> \<not> ready_rejected L rs ws c w \<Longrightarrow>
      streams_ok w1 \<and> (\<forall>b \<in> set as. live_or_dead (h(a \<mapsto> c1)) w1 b) \<and> streams_owned (h(a \<mapsto> c1)) w1 as \<and>
      all_live (h(a \<mapsto> c1)) w1 todo"
    by (rule serve_list_rest [OF assms(1) Cons.prems(1-6), where rs = rs and ws = ws]) (rule that)
  show ?case
  proof (cases "ready_rejected L rs ws c w")
    case True
    from handle_if_ready_rejected [OF c(2) this] c(1) show ?thesis by simp
  next
    case False
    obtain c1 w1 where r: "handle_if_ready L rs ws c w = Some (c1, w1)"
      by (rule handle_if_ready_safe [OF assms(1) c(2) Cons.prems(1) False]) (rule that)
    have sub: "set todo \<subseteq> set as" "distinct todo" using Cons.prems(2,3) by simp_all
    have "pass_rejects L rs ws todo (h(a \<mapsto> c1)) w1" using Cons.prems(7) c(1) r False by simp
    with rest [OF r False] sub Cons.IH [of w1 "h(a \<mapsto> c1)"] have "serve_list L rs ws todo (h(a \<mapsto> c1)) w1 = None" by blast
    with c(1) r show ?thesis by simp
  qed
qed simp

section \<open>A round\<close>

text \<open>The invariant only depends on the clients without their links.\<close>

lemma streams_owned_cong:
  assumes "\<And>a. a \<in> set bs \<Longrightarrow> client_at h' a = client_at h a" "set bs \<subseteq> set as" "streams_owned h w as"
  shows "streams_owned h' w bs"
  unfolding streams_owned_def
proof (intro ballI allI impI, elim conjE)
  fix a b c d
  assume ab: "a \<in> set bs" "b \<in> set bs" "a \<noteq> b" "client_at h' a = Some c" "client_at h' b = Some d"
    "client_ok c w" "client_ok d w" "client_file c \<noteq> NULL"
  then have "client_at h a = Some c" "client_at h b = Some d" "a \<in> set as" "b \<in> set as"
    using assms(1,2) by auto
  with ab assms(3) show "client_file c \<noteq> client_file d" unfolding streams_owned_def by blast
qed

lemma all_live_cong:
  assumes "\<And>a. a \<in> set as \<Longrightarrow> client_at h' a = client_at h a" "all_live h w as"
  shows "all_live h' w as"
  using assms by (simp add: all_live_def)

lemma socket_at_client: "client_at (client_heap s) a = Some c \<Longrightarrow> socket_at s a = socket c"
  by (auto simp: socket_at_def elim!: client_at_D)

lemma server_inv_list:
  assumes "server_inv s w as"
  shows "clients_at s as" "\<forall>a \<in> set as. 0 \<le> socket_at s a"
    "close_clients (client_heap s) (clients_head s) w' = Some (w'\<lparr>closed := closed w' @ map (socket_at s) as\<rparr>)"
proof -
  show at: "clients_at s as" using assms by (simp add: server_inv_def)
  have live: "all_live (client_heap s) w as" using assms by (simp add: server_inv_def)
  show "\<forall>a \<in> set as. 0 \<le> socket_at s a"
  proof
    fix a assume "a \<in> set as"
    with live obtain c where "client_at (client_heap s) a = Some c" "client_ok c w" by (auto simp: all_live_def)
    then show "0 \<le> socket_at s a" by (simp add: socket_at_client client_ok_def)
  qed
  have "map socket (clients_of (client_heap s) as) = map (socket_at s) as"
    using at by (auto simp: clients_of_def socket_at_def elim: clients_at_node)
  moreover from at have "chain (clients.view (client_heap s)) NULL as NULL" "clients_head s = first_of as NULL"
    by (simp_all add: clients_at_def linked_def)
  ultimately show "close_clients (client_heap s) (clients_head s) w' = Some (w'\<lparr>closed := closed w' @ map (socket_at s) as\<rparr>)"
    using close_clients_chain [of "client_heap s" NULL as w'] by auto
qed

lemma accept_keeps_inv:
  assumes inv: "server_inv s w as" and new: "new_client \<noteq> NULL \<Longrightarrow> client_heap s new_client = None" and sock: "0 \<le> sock" "sock < FD_SETSIZE"
  obtains s' as' where "map_option snd (insert_client new_client junk sock s) = Some s'" "server_inv s' w as'"
    "dom (client_heap s') \<subseteq> insert new_client (dom (client_heap s))"
proof (cases "new_client = NULL")
  case True
  then have "map_option snd (insert_client new_client junk sock s) = Some s" by (simp add: insert_client_def)
  then show thesis using inv by (rule that) auto
next
  case False
  note new = new [OF this]
  have at: "clients_at s as" using inv by (simp add: server_inv_def)
  obtain s' where s': "insert_client new_client junk sock s = Some (1, s')" "clients_at s' (new_client # as)"
    "dom (client_heap s') = insert new_client (dom (client_heap s))"
    "client_at (client_heap s') = (client_at (client_heap s))(new_client \<mapsto> make_client junk sock)"
    by (rule insert_client_ok [OF at False new, where junk = junk and sock = sock]) (rule that)
  have fresh: "new_client \<notin> set as"
    using at new by (auto elim: clients_at_node)
  have ok: "client_ok (make_client junk sock) w" using sock by (simp add: client_ok_def make_client_def in_buffer_def)
  have live: "all_live (client_heap s') w (new_client # as)"
    using inv fresh ok by (auto simp: server_inv_def all_live_def s'(4))
  have none: "client_file (make_client junk sock) = NULL" by (simp add: make_client_def)
  have owned: "streams_owned (client_heap s') w (new_client # as)"
    unfolding streams_owned_def
  proof (intro ballI allI impI, elim conjE)
    fix a b c d
    assume ab: "a \<in> set (new_client # as)" "b \<in> set (new_client # as)" "a \<noteq> b" "client_at (client_heap s') a = Some c"
      "client_at (client_heap s') b = Some d" "client_ok c w" "client_ok d w" "client_file c \<noteq> NULL"
    then have a: "a \<noteq> new_client" using none by (auto simp: s'(4))
    show "client_file c \<noteq> client_file d"
    proof (cases "b = new_client")
      case True
      with ab none show ?thesis by (simp add: s'(4))
    next
      case False
      with a ab inv show ?thesis unfolding server_inv_def streams_owned_def by (auto simp: s'(4))
    qed
  qed
  show thesis
    by (rule that [of s' "new_client # as"]) (use s' inv live owned in \<open>simp_all add: server_inv_def\<close>)
qed

lemma pass_keeps_inv:
  assumes fit: "replies_fit L" and inv: "server_inv s w as"
    and good: "\<not> pass_rejects L rs ws as (client_heap s) w"
  obtains s1 s' w' as' where "handle_ready L rs ws (clients_head s) s w = Some (s1, w')" "remove_dead s1 = Some s'"
    "server_inv s' w' as'" "dom (client_heap s') \<subseteq> dom (client_heap s)"
proof -
  have at: "clients_at s as" and ok: "streams_ok w" and live: "all_live (client_heap s) w as"
    and own: "streams_owned (client_heap s) w as" using inv by (simp_all add: server_inv_def)
  from at have ch: "chain (clients.view (client_heap s)) NULL as NULL" and head: "clients_head s = first_of as NULL"
    and dist: "distinct as" by (simp_all add: clients_at_def linked_def)
  have "\<forall>b \<in> set as. live_or_dead (client_heap s) w b" using live by (auto simp: all_live_def live_or_dead_def)
  from serve_list_safe [OF fit ok subset_refl dist this own live good]
  obtain h w' where serve: "serve_list L rs ws as (client_heap s) w = Some (h, w')" "streams_ok w'"
    "\<forall>b \<in> set as. live_or_dead h w' b" "streams_owned h w' as" "dom h = dom (client_heap s)" by blast
  let ?s1 = "s\<lparr>client_heap := h\<rparr>"
  have ready: "handle_ready L rs ws (clients_head s) s w = Some (?s1, w')"
    using handle_ready_chain [OF ch, of L rs ws w] serve(1) by (simp add: head)
  have at1: "clients_at ?s1 as"
    using serve_list_links [OF serve(1)] at by (simp add: clients_at_def)
  obtain s' where s': "remove_dead ?s1 = Some s'" "clients_at s' (filter (\<lambda>a. socket_at ?s1 a \<noteq> -1) as)"
    "\<And>a. a \<in> set as \<Longrightarrow> socket_at ?s1 a = -1 \<Longrightarrow> client_heap s' a = None"
    "\<And>a. a \<notin> set as \<Longrightarrow> client_heap s' a = client_heap ?s1 a"
    "\<And>a. a \<in> set as \<Longrightarrow> socket_at ?s1 a \<noteq> -1 \<Longrightarrow> client_at (client_heap s') a = client_at (client_heap ?s1) a"
    by (rule remove_dead_ok [OF at1]) (rule that)
  let ?bs = "filter (\<lambda>a. socket_at ?s1 a \<noteq> -1) as"
  have same: "client_at (client_heap s') a = client_at h a" if "a \<in> set ?bs" for a
    using s'(5) [of a] that by simp
  have live1: "all_live h w' ?bs"
    unfolding all_live_def
  proof
    fix a assume a: "a \<in> set ?bs"
    then obtain c where c: "client_at h a = Some c" "client_ok c w' \<or> socket c = -1"
      using serve(3) by (auto simp: live_or_dead_def)
    with a socket_at_client [of ?s1 a c] show "\<exists>c. client_at h a = Some c \<and> client_ok c w'" by auto
  qed
  have "all_live (client_heap s') w' ?bs" by (rule all_live_cong [OF same live1])
  moreover have "streams_owned (client_heap s') w' ?bs"
    by (rule streams_owned_cong [OF same _ serve(4)]) (assumption, auto)
  ultimately have "server_inv s' w' ?bs"
    using s'(2) serve(2) by (simp add: server_inv_def)
  moreover have "dom (client_heap s') \<subseteq> dom (client_heap s)"
  proof
    fix a assume a: "a \<in> dom (client_heap s')"
    have "h a \<noteq> None"
    proof (cases "a \<in> set as")
      case True
      with a s'(3) [of a] have "socket_at ?s1 a \<noteq> -1" by auto
      with True s'(5) [of a] have "client_at (client_heap s') a = client_at h a" by simp
      with a show ?thesis by (cases "h a") (auto simp: clients.carried_def)
    next
      case False
      with a s'(4) [of a] show ?thesis by (cases "h a") auto
    qed
    then have "a \<in> dom h" by auto
    then show "a \<in> dom (client_heap s)" using serve(5) by simp
  qed
  ultimately show thesis by (rule that [OF ready s'(1)])
qed

lemma pass_rejected:
  assumes fit: "replies_fit L" and inv: "server_inv s w as" and bad: "pass_rejects L rs ws as (client_heap s) w"
  shows "handle_ready L rs ws (clients_head s) s w = None"
proof -
  have at: "clients_at s as" and ok: "streams_ok w" and live: "all_live (client_heap s) w as"
    and own: "streams_owned (client_heap s) w as" using inv by (simp_all add: server_inv_def)
  from at have ch: "chain (clients.view (client_heap s)) NULL as NULL" and head: "clients_head s = first_of as NULL"
    and dist: "distinct as" by (simp_all add: clients_at_def linked_def)
  have "\<forall>b \<in> set as. live_or_dead (client_heap s) w b" using live by (auto simp: all_live_def live_or_dead_def)
  from serve_list_rejected [OF fit ok subset_refl dist this own live bad] handle_ready_chain [OF ch, of L rs ws w]
  show ?thesis by (simp add: head)
qed

lemma server_inv_announced [simp]:
  "server_inv s (make_nonblocking fd w) as = server_inv s w as"
  "server_inv s (print m w) as = server_inv s w as"
  by (simp_all add: server_inv_def make_nonblocking_def print_def all_live_def streams_owned_def streams_ok_def client_ok_def)

text \<open>The effect of a connection on the world.\<close>
definition announced :: "lib \<Rightarrow> int \<Rightarrow> io_state \<Rightarrow> io_state" where
  "announced L fd w = make_nonblocking fd
     (print (New_connection_from (fst (get_peer_information L fd)) (snd (get_peer_information L fd))) w)"

lemma accept_connection_announced:
  "accept_connection L (a, junk, sock) s w = map_option (\<lambda>(r, s). (s, announced L sock w)) (insert_client a junk sock s)"
  by (cases "insert_client a junk sock s") (auto simp: accept_connection_def announced_def case_prod_beta)

lemma server_inv_announced' [simp]: "server_inv s (announced L fd w) as = server_inv s w as"
  by (simp add: announced_def)

text \<open>In the pass of a round, some ready client completes a header that the library rejects.\<close>
definition round_rejects :: "lib \<Rightarrow> int \<Rightarrow> fd_set \<Rightarrow> fd_set \<Rightarrow> connection \<Rightarrow> server_state \<Rightarrow> io_state \<Rightarrow> bool" where
  "round_rejects L accept_socket set_read set_write connection s w \<longleftrightarrow>
     (\<exists>s1 w1 as. (if accept_socket \<in> set_read then accept_connection L connection s w else Some (s, w)) = Some (s1, w1) \<and>
       clients_at s1 as \<and> pass_rejects L set_read set_write as (client_heap s1) w1)"

lemma server_round_accepts:
  assumes inv: "server_inv s w as" and fresh: "fst x = NULL \<or> client_heap s (fst x) = None"
    and ok: "\<not> (l \<in> rs \<and> fst x \<noteq> NULL \<and> \<not> descriptor_fits (snd (snd x)))"
  obtains s0 w0 as0 where "(if l \<in> rs then accept_connection L x s w else Some (s, w)) = Some (s0, w0)" "server_inv s0 w0 as0"
    "dom (client_heap s0) \<subseteq> insert (fst x) (dom (client_heap s))"
proof -
  obtain a junk sock where x: "x = (a, junk, sock)" by (metis prod.exhaust)
  show thesis
  proof (cases "l \<in> rs \<and> a \<noteq> NULL")
    case True
    then have new: "client_heap s a = None" "0 \<le> sock" "sock < FD_SETSIZE"
      using ok fresh by (simp_all add: descriptor_fits_def x)
    obtain s1 as1 where "map_option snd (insert_client a junk sock s) = Some s1" "server_inv s1 w as1"
      "dom (client_heap s1) \<subseteq> insert a (dom (client_heap s))"
      by (rule accept_keeps_inv [OF inv, of a sock junk]) (use new in auto)
    with True show thesis
      by (intro that [of s1 "announced L sock w" as1]) (auto simp: accept_connection_announced x)
  next
    case False
    with inv show thesis
      by (intro that [of s "if l \<in> rs then announced L sock w else w" as])
        (auto simp: accept_connection_announced insert_client_def x)
  qed
qed

text \<open>A round that accepts a connection whose descriptor does not fit is undefined.\<close>

lemma server_round_bad_descriptor:
  assumes inv: "server_inv s w as" and new: "a \<noteq> NULL" "client_heap s a = None" "\<not> descriptor_fits sock"
    and range: "0 \<le> l" "l < FD_SETSIZE" "l \<in> rs"
  shows "server_round L l rs ws (a, junk, sock) s w = None"
proof -
  have "clients_at s as" using inv by (simp add: server_inv_def)
  then obtain s1 where s1: "insert_client a junk sock s = Some (1, s1)" "clients_at s1 (a # as)" "socket_at s1 a = sock"
    by (rule insert_client_ok [OF _ new(1,2)])
  from s1(2) have ch: "chain (clients.view (client_heap s1)) NULL (a # as) NULL" and head: "clients_head s1 = a"
    by (simp_all add: clients_at_def linked_def)
  obtain c where c: "client_heap s1 a = Some c" by (rule clients_at_node [OF s1(2), of a]) simp_all
  with s1(3) have "socket c = sock" by (simp add: socket_at_def)
  with new(3) have "fd_ready rs ws (socket c) = None"
    by (auto simp: fd_ready_def FD_ISSET_def descriptor_fits_def)
  then have "handle_ready L rs ws a s1 w' = None" for w'
    using handle_ready_chain [OF ch, of L rs ws w'] c by (simp add: handle_if_ready_def)
  with s1(1) head range show ?thesis by (simp add: server_round_def accept_connection_announced FD_ISSET_def)
qed

text \<open>A round is undefined exactly when it meets a rejected header; otherwise it keeps the invariant.\<close>

lemma server_round_rejected:
  assumes fit: "replies_fit L" and inv: "server_inv s w as" and fresh: "fst x = NULL \<or> client_heap s (fst x) = None"
    and ok: "\<not> (l \<in> rs \<and> fst x \<noteq> NULL \<and> \<not> descriptor_fits (snd (snd x)))"
    and range: "0 \<le> l" "l < FD_SETSIZE" and bad: "round_rejects L l rs ws x s w"
  shows "server_round L l rs ws x s w = None"
proof -
  obtain s0 w0 as0 where s0: "(if l \<in> rs then accept_connection L x s w else Some (s, w)) = Some (s0, w0)"
    "server_inv s0 w0 as0"
    by (rule server_round_accepts [OF inv fresh ok, of L]) (rule that)
  from bad s0(1) obtain as1 where at: "clients_at s0 as1" "pass_rejects L rs ws as1 (client_heap s0) w0"
    unfolding round_rejects_def by auto
  from at(1) s0(2) have "as1 = as0" by (simp add: server_inv_def clients_at_unique)
  with pass_rejected [OF fit s0(2)] at(2) have "handle_ready L rs ws (clients_head s0) s0 w0 = None" by simp
  with s0(1) range show ?thesis by (simp add: server_round_def FD_ISSET_def)
qed

lemma server_round_safe:
  assumes fit: "replies_fit L" and inv: "server_inv s w as" and fresh: "fst x = NULL \<or> client_heap s (fst x) = None"
    and ok: "\<not> (l \<in> rs \<and> fst x \<noteq> NULL \<and> \<not> descriptor_fits (snd (snd x)))"
    and range: "0 \<le> l" "l < FD_SETSIZE" and good: "\<not> round_rejects L l rs ws x s w"
  obtains s' w' as' where "server_round L l rs ws x s w = Some (s', w')" "server_inv s' w' as'"
    "dom (client_heap s') \<subseteq> insert (fst x) (dom (client_heap s))"
proof -
  obtain s0 w0 as0 where s0: "(if l \<in> rs then accept_connection L x s w else Some (s, w)) = Some (s0, w0)"
    "server_inv s0 w0 as0" "dom (client_heap s0) \<subseteq> insert (fst x) (dom (client_heap s))"
    by (rule server_round_accepts [OF inv fresh ok, of L]) (rule that)
  have "\<not> pass_rejects L rs ws as0 (client_heap s0) w0"
    using good s0(1,2) unfolding round_rejects_def server_inv_def by blast
  then obtain s1 s' w' as' where s1: "handle_ready L rs ws (clients_head s0) s0 w0 = Some (s1, w')" "remove_dead s1 = Some s'"
    "server_inv s' w' as'" "dom (client_heap s') \<subseteq> dom (client_heap s0)"
    by (rule pass_keeps_inv [OF fit s0(2)])
  have "server_round L l rs ws x s w = Some (s', w')"
    using s0(1) s1(1,2) range by (simp add: server_round_def FD_ISSET_def)
  then show thesis
    by (rule that [OF _ s1(3)]) (use s0(3) s1(4) in blast)
qed

end
