(* ===== verification/Server_Properties.thy ===== *)
theory Server_Properties imports Server_Loop Client_Properties begin

text \<open>
  What the handlers of the state-machine server of \<open>HW1-skeleton\<close> do to a well-formed client,
  and what its loop in front of \<open>select\<close> computes.
\<close>

text \<open>
  C25: The handler of a well-formed client is undefined in exactly one case: the client
  completes a header that \<open>get_filename\<close> rejects, after which the code uses uninitialised
  arrays. In every other case, whatever the sockets deliver, it stays inside the buffer and
  uses open streams only; the client is well formed again, or its socket has been closed;
  the streams of other clients are left alone.
\<close>

theorem handler_keeps_client_ok:
  assumes "replies_fit L" and "client_ok c w" and "streams_ok w"
  shows "(handle_client L c w = None \<longleftrightarrow> rejected_header L c w) \<and>
    (\<forall>c' w'. handle_client L c w = Some (c', w') \<longrightarrow> (client_ok c' w' \<or> socket c' = -1) \<and> streams_ok w' \<and>
      (\<forall>f \<le> next_stream w. f \<noteq> client_file c \<longrightarrow> streams w' f = streams w f))"
proof (cases "rejected_header L c w")
  case True
  with handle_client_rejected [OF assms(2) True] show ?thesis by simp
next
  case False
  obtain c' w' where "handle_client L c w = Some (c', w')" "own_stream_only c w c' w'" "client_ok c' w' \<or> socket c' = -1"
    by (rule handle_client_safe [OF assms False])
  with False show ?thesis by (auto simp: own_stream_only_def)
qed

lemma sample_lib_fits: "replies_fit sample_lib"
  by (simp add: replies_fit_def sample_lib_def cstring_def)

lemma sample_streams: "streams_ok sample_io"
  by (simp add: streams_ok_def sample_io_def)

text \<open>One client sends an accepted header, another one a rejected header.\<close>

definition request_io :: "bytes \<Rightarrow> io_state" where
  "request_io req = sample_io\<lparr>reads := (\<lambda>_. [Some req])\<rparr>"

lemma request_io_ok: "client_ok sample_client (request_io req)" "streams_ok (request_io req)"
  by (simp_all add: request_io_def client_ok_def sample_client_def make_client_def in_buffer_def streams_ok_def sample_io_def)

lemma sample_next_request:
  "next_request sample_client (request_io [71, 10]) = [71, 10]" "next_request sample_client (request_io [63, 10]) = [63, 10]"
  by (simp_all add: next_request_def sys_read_def request_io_def sample_client_def make_client_def fetch_bytes_def store_bytes_def
    upt_rec)

theorem handler_keeps_client_ok_witness:
  "(\<exists>c' w'. handle_client sample_lib sample_client (request_io [71, 10]) = Some (c', w') \<and>
      (client_ok c' w' \<or> socket c' = -1) \<and> streams_ok w') \<and>
    handle_client sample_lib sample_client (request_io [63, 10]) = None"
proof -
  have "client_state sample_client = E_RECV_REQUEST" by (simp add: sample_client_def make_client_def)
  then have "\<not> rejected_header sample_lib sample_client (request_io [71, 10])"
    "rejected_header sample_lib sample_client (request_io [63, 10])"
    by (simp_all add: rejected_header_def sample_next_request) (simp_all add: sample_lib_def)
  with handler_keeps_client_ok [OF sample_lib_fits request_io_ok, of "[71, 10]"]
    handler_keeps_client_ok [OF sample_lib_fits request_io_ok, of "[63, 10]"]
  show ?thesis by auto
qed

text \<open>
  The loop in front of \<open>select\<close> does not compute a maximum: \<open>maximum_descriptor\<close> ends up
  as the socket of the last client of the list, the one that was accepted first, or 0 when
  the list is empty; it sorts the clients into the two sets by their state, but as addresses.
\<close>

lemma descriptor_loop_takes_last:
  assumes "clients_at s as" "\<And>a. a \<in> set as \<Longrightarrow> 0 \<le> as_int a \<and> as_int a < FD_SETSIZE"
  shows "descriptor_loop as_int (client_heap s) (clients_head s) 0 rs ws =
    Some (if as = [] then 0 else socket_at s (last as),
      rs \<union> as_int ` set (filter (\<lambda>a. client_state (the (client_heap s a)) = E_RECV_REQUEST) as),
      ws \<union> as_int ` set (filter (\<lambda>a. client_state (the (client_heap s a)) = E_SEND_REPLY) as))"
proof -
  from assms(1) have ch: "chain (clients.view (client_heap s)) NULL as NULL" and head: "clients_head s = first_of as NULL"
    by (simp_all add: clients_at_def linked_def)
  have "socket (the (client_heap s (last as))) = socket_at s (last as)" if "as \<noteq> []"
    by (rule clients_at_node [OF assms(1) last_in_set [OF that]]) (simp add: socket_at_def)
  then show ?thesis using descriptor_loop_chain [OF ch, of as_int, OF assms(2)] by (simp add: head)
qed

lemma descriptor_loop_takes_last_example:
  "\<exists>s rs ws. socket_at s 200 = 6 \<and> descriptor_loop int (client_heap s) (clients_head s) 0 {} {} = Some (-1, rs, ws)"
proof -
  obtain s where "clients_at s [200, 100]" "socket_at s 100 = -1" "socket_at s 200 = 6" by (rule two_clients)
  moreover have "0 \<le> int a \<and> int a < 1024" if "a \<in> set [200, 100]" for a using that by auto
  ultimately show ?thesis using descriptor_loop_takes_last [of s "[200, 100]" int "{}" "{}"] by fastforce
qed

end
