(* ===== verification/Server_Start.thy ===== *)
theory Server_Start imports Sockets begin

text \<open>
  How both servers of \<open>HW1-skeleton\<close> start: the argument check, the accept socket, and the
  handlers of the signals. \<open>create_server\<close> is a function of the networking library, and
  the answers of \<open>sigaction\<close> are inputs.
\<close>

record server_environment =
  create_server :: "int \<Rightarrow> int"
  sigaction :: "signal \<Rightarrow> int"

section \<open>The port number\<close>

text \<open>
  \<open>atoi\<close> of the C library on the bytes in front of the terminating NUL: white space, a
  sign, decimal digits; what follows is ignored. A number that is no \<open>int\<close> is undefined.
\<close>
definition is_space :: "u8 \<Rightarrow> bool" where
  "is_space b \<longleftrightarrow> b = 32 \<or> (9 \<le> b \<and> b \<le> 13)"

definition is_digit :: "u8 \<Rightarrow> bool" where
  "is_digit b \<longleftrightarrow> 48 \<le> b \<and> b \<le> 57"

definition decimal :: "bytes \<Rightarrow> int" where
  "decimal bs = foldl (\<lambda>n b. 10 * n + int (unat b - 48)) 0 (takeWhile is_digit bs)"

definition atoi :: "bytes \<Rightarrow> int option" where
  "atoi bs =
     (let bs = dropWhile is_space bs;
          n = (case bs of [] \<Rightarrow> 0
               | b # rest \<Rightarrow> if b = 45 then - decimal rest else if b = 43 then decimal rest else decimal bs)
      in if -(2 ^ 31) \<le> n \<and> n < 2 ^ 31 then Some n else None)"

section \<open>Starting\<close>

text \<open>
  From the arguments to the accept socket: \<open>Inl\<close> with the message in front of
  \<open>return EXIT_FAILURE\<close>, or \<open>Inr\<close> with the socket.
\<close>
definition open_port :: "server_environment \<Rightarrow> bytes list \<Rightarrow> (message + int) option" where
  "open_port E argv =
     (if length argv < 2 then Some (Inl Usage_server_port)
      else do {
        port \<leftarrow> atoi (argv ! 1);
        let accept_socket = create_server E port;
        if accept_socket = -1 then Some (Inl Error_creating_server) else Some (Inr accept_socket)
      })"

text \<open>A failing \<open>sigaction\<close> ends the program with \<open>EXIT_FAILURE\<close>, after a message.\<close>
definition setupSignalHandler :: "server_environment \<Rightarrow> signal \<Rightarrow> disposition \<Rightarrow> io_state \<Rightarrow> message + io_state" where
  "setupSignalHandler E signal handler w =
     (if sigaction E signal = -1 then Inl Perror_sigaction
      else Inr (w\<lparr>dispositions := (dispositions w)(signal := handler)\<rparr>))"

text \<open>The copy of this function in \<open>server_statemachine.c\<close>, which nothing calls.\<close>
definition setup_signal_handler :: "server_environment \<Rightarrow> signal \<Rightarrow> disposition \<Rightarrow> io_state \<Rightarrow> message + io_state" where
  "setup_signal_handler E signal handler w =
     (let result = sigaction E signal;
          installed = w\<lparr>dispositions := (dispositions w)(signal := handler)\<rparr>
      in if result \<noteq> -1 then Inr installed else Inl Perror_sigaction)"

lemma setup_signal_handler_same: "setup_signal_handler = setupSignalHandler"
  by (intro ext) (simp add: setup_signal_handler_def setupSignalHandler_def Let_def)

text \<open>One call after the other, up to the first that fails.\<close>
primrec setup_handlers :: "server_environment \<Rightarrow> (signal \<times> disposition) list \<Rightarrow> io_state \<Rightarrow> message + io_state" where
  "setup_handlers E [] w = Inr w"
| "setup_handlers E (x # xs) w =
     (case setupSignalHandler E (fst x) (snd x) w of Inl m \<Rightarrow> Inl m | Inr w \<Rightarrow> setup_handlers E xs w)"

section \<open>What starting comes to\<close>

lemma open_port_result:
  assumes "open_port E argv = Some r"
  shows "r \<in> {Inl Usage_server_port, Inl Error_creating_server} \<or> (\<exists>port accept_socket. 2 \<le> length argv \<and> atoi (argv ! 1) = Some port \<and>
    accept_socket = create_server E port \<and> accept_socket \<noteq> -1 \<and> r = Inr accept_socket)"
  using assms by (auto simp: open_port_def not_less Let_def split: if_splits Option.bind_splits)

lemma setup_handlers_ok:
  assumes "\<forall>x \<in> set xs. sigaction E (fst x) \<noteq> -1"
  shows "setup_handlers E xs w = Inr (w\<lparr>dispositions := fold (\<lambda>x d. d(fst x := snd x)) xs (dispositions w)\<rparr>)"
  using assms by (induction xs arbitrary: w) (simp_all add: setupSignalHandler_def)

lemma setup_handlers_fail:
  assumes "\<exists>x \<in> set xs. sigaction E (fst x) = -1"
  shows "setup_handlers E xs w = Inl Perror_sigaction"
  using assms by (induction xs arbitrary: w) (auto simp: setupSignalHandler_def)

section \<open>An example\<close>

definition sample_env :: server_environment where
  "sample_env = \<lparr>create_server = (\<lambda>port. if port = 8080 then 3 else -1), sigaction = (\<lambda>_. 0)\<rparr>"

text \<open>The arguments \<open>server 8080\<close>.\<close>
definition sample_args :: "bytes list" where
  "sample_args = [[115, 101, 114, 118, 101, 114], [56, 48, 56, 48]]"

lemma sample_sigaction [simp]: "sigaction sample_env x = 0"
  by (simp add: sample_env_def)

lemma sample_start: "open_port sample_env sample_args = Some (Inr 3)"
  by (simp add: open_port_def sample_env_def sample_args_def atoi_def decimal_def is_digit_def is_space_def)

end
