(* ===== verification/Statemachine_Server.thy ===== *)
theory Statemachine_Server imports Server_Start Server_Properties begin

text \<open>
  The program of \<open>HW1-skeleton/server_statemachine.c\<close> from its arguments to its exit status.
  A run is driven by a list of events: what \<open>select\<close> finds, the connection that
  \<open>accept_client\<close> would return, and whether \<open>SIGTERM\<close> arrived.
\<close>

section \<open>The code\<close>

text \<open>
  What happens while \<open>select\<close> waits: some descriptors can be read or written, or the call
  fails, as it does when a signal handler interrupts it.
\<close>
datatype select_outcome = Descriptors fd_set fd_set | Failed

record event =
  outcome :: select_outcome
  incoming :: connection
  sigterm :: bool

text \<open>
  \<open>select(nfds, &set_read, &set_write, NULL, NULL)\<close> as POSIX describes it: only descriptors
  below \<open>nfds\<close> are looked at, and of these the ready ones stay in the sets; a failing call
  leaves the sets as they are. Without a ready descriptor it goes on waiting (\<open>None\<close>).
\<close>
definition sys_select :: "int \<Rightarrow> fd_set \<Rightarrow> fd_set \<Rightarrow> select_outcome \<Rightarrow> (fd_set \<times> fd_set) option" where
  "sys_select nfds set_read set_write out =
     (case out of
        Failed \<Rightarrow> Some (set_read, set_write)
      | Descriptors readable writable \<Rightarrow>
          let r = {fd \<in> set_read. fd < nfds \<and> fd \<in> readable}; w = {fd \<in> set_write. fd < nfds \<and> fd \<in> writable}
          in if r = {} \<and> w = {} then None else Some (r, w))"

definition handle_termination :: "int \<Rightarrow> int" where
  "handle_termination done_flag = 1"

text \<open>One event in front of which the loop waits in \<open>select\<close>.\<close>
definition statemachine_round ::
    "lib \<Rightarrow> (ptr \<Rightarrow> int) \<Rightarrow> int \<Rightarrow> event \<Rightarrow> int \<times> server_state \<times> io_state \<Rightarrow> (int \<times> server_state \<times> io_state) option" where
  "statemachine_round L as_int accept_socket x state =
     (case state of (done_flag, s, w) \<Rightarrow>
       do {
         set_read \<leftarrow> FD_SET accept_socket {};
         (maximum_descriptor, set_read, set_write) \<leftarrow> descriptor_loop as_int (client_heap s) (clients_head s) 0 set_read {};
         (case sys_select (maximum_descriptor + 1) set_read set_write (outcome x) of
            None \<Rightarrow> Some (done_flag, s, w)
          | Some (set_read, set_write) \<Rightarrow>
              do {
                (s, w) \<leftarrow> server_round L accept_socket set_read set_write (incoming x) s w;
                Some (if sigterm x then handle_termination done_flag else done_flag, s, w)
              })
       })"

primrec statemachine_loop ::
    "lib \<Rightarrow> (ptr \<Rightarrow> int) \<Rightarrow> int \<Rightarrow> event list \<Rightarrow> int \<times> server_state \<times> io_state \<Rightarrow> (int \<times> server_state \<times> io_state) option" where
  "statemachine_loop L as_int accept_socket [] state = Some state"
| "statemachine_loop L as_int accept_socket (x # xs) state =
     (if fst state = 0
      then do { state \<leftarrow> statemachine_round L as_int accept_socket x state; statemachine_loop L as_int accept_socket xs state }
      else Some state)"

text \<open>Behind the loop: the last message, the sockets of the clients that are left, the status.\<close>
definition finish_program :: "server_state \<Rightarrow> io_state \<Rightarrow> (int option \<times> server_state \<times> io_state) option" where
  "finish_program s w =
     do {
       let w = print (Finishing_program_cleanly (operations_completed w)) w;
       w \<leftarrow> close_clients (client_heap s) (clients_head s) w;
       Some (Some EXIT_SUCCESS, s, w)
     }"

text \<open>
  The whole program. The result has the exit status, or \<open>None\<close> when the program still waits
  for another event. \<open>s\<close> is the memory at the start, of which \<open>init\<close> clears the list.
\<close>
definition server_statemachine ::
    "lib \<Rightarrow> server_environment \<Rightarrow> (ptr \<Rightarrow> int) \<Rightarrow> bytes list \<Rightarrow> event list \<Rightarrow> server_state \<Rightarrow> io_state \<Rightarrow>
     (int option \<times> server_state \<times> io_state) option" where
  "server_statemachine L E as_int argv xs s w =
     do {
       start \<leftarrow> open_port E argv;
       (case start of
          Inl m \<Rightarrow> Some (Some EXIT_FAILURE, s, print m w)
        | Inr accept_socket \<Rightarrow>
            let w = make_nonblocking accept_socket w in
            (case setup_handlers E [(SIGTERM, Calls ''handle_termination''), (SIGPIPE, Calls ''pipeHandler'')] w of
               Inl m \<Rightarrow> Some (Some EXIT_FAILURE, s, print m w)
             | Inr w \<Rightarrow>
                 do {
                   (done_flag, s, w) \<leftarrow> statemachine_loop L as_int accept_socket xs (0, init s, w);
                   (if done_flag = 0 then Some (None, s, w) else finish_program s w)
                 }))
     }"

section \<open>When a run is undefined\<close>













section \<open>Rounds without clients\<close>

lemma fst_of_loop [simp]: "fst state \<noteq> 0 \<Longrightarrow> statemachine_loop L as_int l xs state = Some state"
  by (cases xs) simp_all

lemma statemachine_loop_append:
  "statemachine_loop L as_int l (xs @ ys) state =
    do { state \<leftarrow> statemachine_loop L as_int l xs state; statemachine_loop L as_int l ys state }"
  by (induction xs arbitrary: state) simp_all

text \<open>Without clients, \<open>nfds\<close> is 1: \<open>select\<close> does not look at the accept socket.\<close>

lemma descriptor_loop_NULL [simp]: "descriptor_loop as_int h NULL m rs ws = Some (m, rs, ws)"
  by (subst descriptor_loop.simps) simp

lemma round_without_clients:
  assumes "clients_head s = NULL" "0 < l" "l < FD_SETSIZE" "outcome x \<noteq> Failed"
  shows "statemachine_round L as_int l x (d, s, w) = Some (d, s, w)"
  using assms by (cases "outcome x") (simp_all add: statemachine_round_def FD_SET_def sys_select_def Let_def)

lemma rounds_without_clients:
  assumes "clients_head s = NULL" "0 < l" "l < FD_SETSIZE" "\<forall>x \<in> set xs. outcome x \<noteq> Failed"
  shows "statemachine_loop L as_int l xs (0, s, w) = Some (0, s, w)"
  using assms(4) by (induction xs) (simp_all add: round_without_clients [OF assms(1-3)])

text \<open>When \<open>select\<close> fails the accept socket is still in its set, and a connection is asked for.\<close>

lemma failed_round_without_clients:
  assumes "clients_head s = NULL" "0 < l" "l < FD_SETSIZE" "outcome x = Failed"
  shows "statemachine_round L as_int l x (d, s, w) =
    map_option (\<lambda>(s, w). (if sigterm x then 1 else d, s, w)) (server_round L l {l} {} (incoming x) s w)"
  using assms
  by (cases "server_round L l {l} {} (incoming x) s w") (auto simp: statemachine_round_def FD_SET_def sys_select_def handle_termination_def)

text \<open>The connection that is then accepted is not in the sets; a failed one cannot be looked up.\<close>

lemma accepting_round:
  assumes "clients_at s []" "0 < l" "l < FD_SETSIZE"
    and new: "a \<noteq> NULL" "client_heap s a = None" and sock: "0 \<le> sock" "sock < FD_SETSIZE" "sock \<noteq> l"
  obtains s' where "server_round L l {l} {} (a, junk, sock) s w = Some (s', announced L sock w)"
    "clients_at s' [a]" "socket_at s' a = sock"
proof -
  obtain s1 where s1: "insert_client a junk sock s = Some (1, s1)" "clients_at s1 [a]" "socket_at s1 a = sock"
    by (rule insert_client_ok [OF assms(1) new])
  from s1(2) have ch: "chain (clients.view (client_heap s1)) NULL [a] NULL" and head: "clients_head s1 = a"
    by (simp_all add: clients_at_def linked_def)
  obtain c where c: "client_heap s1 a = Some c" by (rule clients_at_node [OF s1(2), of a]) simp_all
  with s1(3) have "socket c = sock" by (simp add: socket_at_def)
  then have "handle_ready L {l} {} a s1 w' = Some (s1\<lparr>client_heap := (client_heap s1)(a \<mapsto> c)\<rparr>, w')" for w'
    using handle_ready_chain [OF ch, of L "{l}" "{}" w'] c sock
    by (simp add: handle_if_ready_def fd_ready_def FD_ISSET_def)
  moreover have "s1\<lparr>client_heap := (client_heap s1)(a \<mapsto> c)\<rparr> = s1" using c by (simp add: fun_upd_idem)
  ultimately have ready: "handle_ready L {l} {} a s1 w' = Some (s1, w')" for w' by simp
  obtain s' where "remove_dead s1 = Some s'" "clients_at s' [a]" "socket_at s' a = sock"
    by (rule remove_dead_ok [OF s1(2)]) (use s1(3) sock in \<open>simp add: that\<close>)
  with s1(1) ready head assms(2,3) show thesis
    by (intro that [of s']) (simp_all add: server_round_def accept_connection_announced FD_ISSET_def)
qed

lemma failing_accept_round:
  assumes "clients_at s []" "0 < l" "l < FD_SETSIZE" and new: "a \<noteq> NULL" "client_heap s a = None"
  shows "server_round L l {l} {} (a, junk, -1) s w = None"
proof -
  obtain s1 where s1: "insert_client a junk (-1) s = Some (1, s1)" "clients_at s1 [a]" "socket_at s1 a = -1"
    by (rule insert_client_ok [OF assms(1) new])
  from s1(2) have ch: "chain (clients.view (client_heap s1)) NULL [a] NULL" and head: "clients_head s1 = a"
    by (simp_all add: clients_at_def linked_def)
  obtain c where c: "client_heap s1 a = Some c" by (rule clients_at_node [OF s1(2), of a]) simp_all
  with s1(3) have "socket c = -1" by (simp add: socket_at_def)
  then have "handle_ready L {l} {} a s1 w' = None" for w'
    using handle_ready_chain [OF ch, of L "{l}" "{}" w'] c by (simp add: handle_if_ready_def fd_ready_def FD_ISSET_def)
  with s1(1) head assms(2,3) show ?thesis by (simp add: server_round_def accept_connection_announced FD_ISSET_def)
qed

text \<open>The state behind the start: the accept socket marked, two handlers installed.\<close>
definition started :: "int \<Rightarrow> io_state \<Rightarrow> io_state" where
  "started l w = (make_nonblocking l w)\<lparr>dispositions := (dispositions w)
     (SIGTERM := Calls ''handle_termination'', SIGPIPE := Calls ''pipeHandler'')\<rparr>"

lemma server_statemachine_started:
  assumes "open_port E argv = Some (Inr l)" "sigaction E SIGTERM \<noteq> -1" "sigaction E SIGPIPE \<noteq> -1"
  shows "server_statemachine L E as_int argv xs s w =
    do {
      (done_flag, s, w) \<leftarrow> statemachine_loop L as_int l xs (0, init s, started l w);
      (if done_flag = 0 then Some (None, s, w) else finish_program s w)
    }"
  using assms by (simp add: server_statemachine_def setupSignalHandler_def Let_def started_def make_nonblocking_def)

lemma init_fields [simp]: "clients_at (init s) []" "clients_head (init s) = NULL" "client_heap (init s) = client_heap s"
  by (simp_all add: init_def clients_at_def)

lemma started_streams [simp]: "streams_ok (started l w) = streams_ok w"
  by (simp add: started_def make_nonblocking_def streams_ok_def)

section \<open>Properties\<close>







text \<open>
  C14: Once started, the server accepts nobody: as long as \<open>select\<close> does not fail it stays in
  its loop with an empty list of clients, whatever connections arrive and whatever becomes
  readable. The accept socket is left out of \<open>maximum_descriptor\<close>, so \<open>nfds\<close> is 1.
\<close>
theorem statemachine_accepts_nobody:
  assumes "open_port E argv = Some (Inr l)" "0 < l" "l < FD_SETSIZE"
    and "sigaction E SIGTERM \<noteq> -1" "sigaction E SIGPIPE \<noteq> -1" and "\<forall>x \<in> set xs. outcome x \<noteq> Failed"
  shows "server_statemachine L E as_int argv xs s w = Some (None, init s, started l w)"
  using assms by (simp add: server_statemachine_started rounds_without_clients)

definition sample_event :: "select_outcome \<Rightarrow> int \<Rightarrow> event" where
  "sample_event out sock = \<lparr>outcome = out, incoming = (100, \<lambda>_. 0, sock), sigterm = True\<rparr>"

theorem statemachine_accepts_nobody_witness:
  "server_statemachine sample_lib sample_env int sample_args [sample_event (Descriptors {3, 4} {}) 4] no_clients sample_io =
    Some (None, init no_clients, started 3 sample_io)"
  by (rule statemachine_accepts_nobody [OF sample_start]) (simp_all add: sample_env_def sample_event_def)

text \<open>
  C15: When \<open>SIGTERM\<close> interrupts \<open>select\<close>, whose result is not looked at, the accept socket
  still counts as ready. A connection that is pending is accepted and put into the list,
  without being served; then the loop ends, the socket is closed, and the program returns
  \<open>EXIT_SUCCESS\<close>.
\<close>
theorem statemachine_terminates:
  assumes "open_port E argv = Some (Inr l)" "0 < l" "l < FD_SETSIZE"
    and "sigaction E SIGTERM \<noteq> -1" "sigaction E SIGPIPE \<noteq> -1" and "\<forall>x \<in> set xs. outcome x \<noteq> Failed"
    and "outcome x = Failed" "sigterm x" "incoming x = (a, junk, sock)"
    and "a \<noteq> NULL" "client_heap s a = None" "0 \<le> sock" "sock < FD_SETSIZE" "sock \<noteq> l"
  shows "\<exists>s' w'. server_statemachine L E as_int argv (xs @ x # ys) s w = Some (Some EXIT_SUCCESS, s', w') \<and>
    clients_at s' [a] \<and> closed w' = closed w @ [sock] \<and> sent w' = sent w \<and>
    messages w' = messages w @ [New_connection_from (fst (get_peer_information L sock)) (snd (get_peer_information L sock)),
      Finishing_program_cleanly (operations_completed w)]"
proof -
  have fresh: "client_heap (init s) a = None" by (simp add: assms(11))
  obtain s' where r: "server_round L l {l} {} (incoming x) (init s) (started l w) = Some (s', announced L sock (started l w))"
    "clients_at s' [a]" "socket_at s' a = sock"
    unfolding assms(9) by (rule accepting_round [OF init_fields(1) assms(2,3,10) fresh assms(12-14)])
  then have loop: "statemachine_loop L as_int l (xs @ x # ys) (0, init s, started l w) =
      Some (1, s', announced L sock (started l w))"
    using assms(2,3,6-8)
    by (simp add: statemachine_loop_append rounds_without_clients failed_round_without_clients)
  from r(2) have ch: "chain (clients.view (client_heap s')) NULL [a] NULL" "clients_head s' = a"
    by (simp_all add: clients_at_def linked_def)
  obtain c where "client_heap s' a = Some c" by (rule clients_at_node [OF r(2), of a]) simp_all
  with r(3) have "map socket (clients_of (client_heap s') [a]) = [sock]" by (simp add: clients_of_def socket_at_def)
  with ch close_clients_chain [OF ch(1)] loop r(2) assms(1,4,5) show ?thesis
    by (simp add: server_statemachine_started finish_program_def started_def make_nonblocking_def announced_def print_def)
qed

theorem statemachine_terminates_witness:
  "\<exists>s' w'. server_statemachine sample_lib sample_env int sample_args
      ([sample_event (Descriptors {3, 4} {}) 4] @ sample_event Failed 4 # []) no_clients sample_io =
    Some (Some EXIT_SUCCESS, s', w') \<and> closed w' = [4]"
  using statemachine_terminates [OF sample_start, of "[sample_event (Descriptors {3, 4} {}) 4]" "sample_event Failed 4"
      100 "\<lambda>_. 0" 4 no_clients sample_lib int "[]" sample_io]
  by (auto simp: sample_env_def sample_event_def no_clients(2) sample_io_def)

text \<open>
  With no connection pending, the same interruption makes \<open>accept_client\<close> return -1,
  which is not looked at either: a client with the socket -1 is put into the list, and the
  \<open>FD_ISSET\<close> on it is undefined.
\<close>
lemma statemachine_interrupt_undefined:
  assumes "open_port E argv = Some (Inr l)" "0 < l" "l < FD_SETSIZE"
    and "sigaction E SIGTERM \<noteq> -1" "sigaction E SIGPIPE \<noteq> -1" and "\<forall>x \<in> set xs. outcome x \<noteq> Failed"
    and "outcome x = Failed" "incoming x = (a, junk, -1)" "a \<noteq> NULL" "client_heap s a = None"
  shows "server_statemachine L E as_int argv (xs @ x # ys) s w = None"
  using assms failing_accept_round [OF init_fields(1) assms(2,3,9)]
  by (simp add: server_statemachine_started statemachine_loop_append rounds_without_clients failed_round_without_clients)

lemma statemachine_interrupt_undefined_example:
  "server_statemachine sample_lib sample_env int sample_args ([] @ sample_event Failed (-1) # []) no_clients sample_io = None"
  by (rule statemachine_interrupt_undefined [OF sample_start, where a = 100 and junk = "\<lambda>_. 0"])
    (simp_all add: sample_env_def sample_event_def no_clients(2))

end
