(* ===== verification/Server_Fork.thy ===== *)
theory Server_Fork imports Pool_Properties Server_Start begin

text \<open>
  The program of \<open>HW1-skeleton/server_fork.c\<close> together with its thread pool: the start, and
  a step relation in which the accepting thread, the consumers and the signal handlers
  interleave. The results of \<open>accept_client\<close> with \<open>errno\<close>, of \<open>malloc\<close>, of \<open>waitpid\<close> and of
  \<open>pthread_join\<close> are inputs. A consumer serves its client in one step: the clients have
  their own sockets and streams.
\<close>

section \<open>The code\<close>

text \<open>Where the accepting thread is.\<close>
datatype main_pc =
    Testing_done     \<comment> \<open>\<open>while(!done)\<close>\<close>
  | Accepting        \<comment> \<open>\<open>accept_client\<close>\<close>
  | Putting ptr      \<comment> \<open>\<open>put_request(client)\<close>\<close>
  | Finishing        \<comment> \<open>the critical section of \<open>finish_threads\<close>\<close>
  | Joining nat      \<comment> \<open>the loop of \<open>finish_threads\<close>, at thread \<open>i\<close>\<close>
  | Exited int

record fork_run = pool_run +
  main_at :: main_pc
  done_flag :: int
  fork_clients :: "ptr \<rightharpoonup> client"
  world :: io_state

text \<open>A result of \<open>accept_client\<close>: the descriptor, and whether \<open>errno\<close> is \<open>EINTR\<close>.\<close>
type_synonym accepted = "int \<times> bool"

text \<open>
  The part of a round in front of \<open>put_request\<close>: \<open>new_client\<close> is the result of the \<open>malloc\<close> in
  \<open>make_client\<close>, \<open>old\<close> the old bytes of its buffer; no client is made for an interruption.
\<close>
definition accept_round :: "lib \<Rightarrow> accepted \<Rightarrow> ptr \<Rightarrow> buf \<Rightarrow> fork_run \<Rightarrow> ptr option \<times> fork_run" where
  "accept_round L result new_client old s =
     (case result of (client_socket, interrupted) \<Rightarrow>
       if client_socket = -1 \<and> interrupted then (None, s)
       else
         let s = s\<lparr>world := print (case get_peer_information L client_socket of (host, port) \<Rightarrow> New_connection_from host port) (world s)\<rparr>;
             s = (if new_client \<noteq> NULL then s\<lparr>fork_clients := (fork_clients s)(new_client \<mapsto> make_client old client_socket)\<rparr> else s)
         in (Some new_client, s))"

text \<open>A whole round of the accepting thread, when it is not disturbed.\<close>
definition fork_round :: "lib \<Rightarrow> node \<Rightarrow> accepted \<Rightarrow> arrival \<Rightarrow> buf \<Rightarrow> fork_run \<Rightarrow> fork_run option" where
  "fork_round L junk result arrival old s =
     (case arrival of (request, new_node, new_client) \<Rightarrow>
       (case accept_round L result new_client old s of
          (None, s) \<Rightarrow> Some s
        | (Some client, s) \<Rightarrow> put_request junk request new_node client s))"

primrec fork_rounds :: "lib \<Rightarrow> node \<Rightarrow> (accepted \<times> arrival \<times> buf) list \<Rightarrow> fork_run \<Rightarrow> fork_run option" where
  "fork_rounds L junk [] s = Some s"
| "fork_rounds L junk (x # xs) s =
     (case x of (result, arrival, old) \<Rightarrow> do { s \<leftarrow> fork_round L junk result arrival old s; fork_rounds L junk xs s })"

text \<open>\<open>childHandler\<close> on the results of \<open>waitpid\<close>; \<open>None\<close> when none of them ends the loop.\<close>
primrec childHandler :: "int list \<Rightarrow> io_state \<Rightarrow> io_state option" where
  "childHandler [] w = None"
| "childHandler (r # rs) w =
     (if r \<noteq> -1 then childHandler rs (w\<lparr>operations_completed := operations_completed w + 1\<rparr>) else Some w)"

definition termHandler :: "fork_run \<Rightarrow> fork_run" where
  "termHandler s = s\<lparr>done_flag := 1\<rparr>"

text \<open>The state in which the accepting thread enters its loop.\<close>
definition fork_initial :: "ll_list \<Rightarrow> io_state \<Rightarrow> fork_run" where
  "fork_initial l w = pool_run.extend (start_threads l)
     \<lparr>main_at = Testing_done, done_flag = 0, fork_clients = Map.empty, world = w\<rparr>"

text \<open>From the arguments to the loop: \<open>Inl\<close> with the exit status when the program ends before.\<close>
definition server_fork :: "server_environment \<Rightarrow> bytes list \<Rightarrow> ll_list \<Rightarrow> io_state \<Rightarrow> (int \<times> io_state + fork_run) option" where
  "server_fork E argv l w =
     do {
       start \<leftarrow> open_port E argv;
       Some (case start of
          Inl m \<Rightarrow> Inl (EXIT_FAILURE, print m w)
        | Inr accept_socket \<Rightarrow>
            (case setup_handlers E [(SIGCHLD, Calls ''childHandler''), (SIGTERM, Calls ''termHandler''), (SIGPIPE, SIG_IGN)] w of
               Inl m \<Rightarrow> Inl (EXIT_FAILURE, print m w)
             | Inr w \<Rightarrow> Inr (fork_initial l w)))
     }"

text \<open>
  \<open>threads\<close> is a global array in which nothing is ever stored, so \<open>pthread_join\<close> gets the id
  0 in every round; \<open>join\<close> is what it does with it, \<open>None\<close> when that is undefined.
\<close>
definition join_thread :: "(int \<Rightarrow> int option) \<Rightarrow> nat \<Rightarrow> main_pc option" where
  "join_thread join i =
     (if i < NUM_THREADS then do { r \<leftarrow> join 0; Some (Joining (i + 1)) }
      else Some (Exited EXIT_SUCCESS))"

text \<open>The service of a request: its client, and the client and the world afterwards.\<close>
definition service :: "lib \<Rightarrow> ptr \<Rightarrow> fork_run \<Rightarrow> (ptr \<times> client \<times> io_state) option" where
  "service L request s =
     do {
       client \<leftarrow> requests s request;
       c \<leftarrow> fork_clients s client;
       (c, w) \<leftarrow> serve_request L c (world s);
       Some (client, c, w)
     }"

text \<open>When \<open>main\<close> returns, the other threads end with it.\<close>
definition running :: "fork_run \<Rightarrow> bool" where
  "running s \<longleftrightarrow> (\<forall>n. main_at s \<noteq> Exited n)"

text \<open>
  One step of a thread or a signal handler. What is undefined has no step: a service that
  fails, a consumer's undefined step, a \<open>put_request\<close> that is not defined, a bad join.
\<close>
inductive fork_step :: "lib \<Rightarrow> (int \<Rightarrow> int option) \<Rightarrow> fork_run \<Rightarrow> fork_run \<Rightarrow> bool" for L join where
  consumes: "running s \<Longrightarrow> \<forall>c. consumer_at s t \<noteq> Serving c \<Longrightarrow> consumer t s = Continues s' \<Longrightarrow> fork_step L join s s'"
| serves: "running s \<Longrightarrow> consumer_at s t = Serving request \<Longrightarrow> service L request s = Some (client, c, w') \<Longrightarrow>
    consumer t s = Continues s' \<Longrightarrow>
    fork_step L join s (s'\<lparr>fork_clients := (fork_clients s)(client := None), world := w'\<rparr>)"
| spurious: "running s \<Longrightarrow> consumer_at s t = Waiting \<Longrightarrow> fork_step L join s (consumer_to t Relocking s)"
| sigterm: "running s \<Longrightarrow> fork_step L join s (termHandler s)"
| sigchld: "running s \<Longrightarrow> childHandler rs (world s) = Some w' \<Longrightarrow> fork_step L join s (s\<lparr>world := w'\<rparr>)"
| tests: "main_at s = Testing_done \<Longrightarrow> done_flag s = 0 \<Longrightarrow> fork_step L join s (s\<lparr>main_at := Accepting\<rparr>)"
| leaves: "main_at s = Testing_done \<Longrightarrow> done_flag s \<noteq> 0 \<Longrightarrow> fork_step L join s
    (s\<lparr>main_at := Finishing, world := print (Finishing_program_cleanly (operations_completed (world s))) (world s)\<rparr>)"
| accepts: "main_at s = Accepting \<Longrightarrow> fork_clients s new_client = None \<Longrightarrow> accept_round L result new_client old s = (made, s1) \<Longrightarrow>
    fork_step L join s (s1\<lparr>main_at := (case made of None \<Rightarrow> Testing_done | Some client \<Rightarrow> Putting client)\<rparr>)"
| puts: "main_at s = Putting client \<Longrightarrow> owner s = None \<Longrightarrow> requests s request = None \<Longrightarrow> pool_heap s new_node = None \<Longrightarrow>
    put_request junk request new_node client s = Some s1 \<Longrightarrow> signalled s1 s2 \<Longrightarrow>
    fork_step L join s (s2\<lparr>main_at := Testing_done\<rparr>)"
| finishes: "main_at s = Finishing \<Longrightarrow> owner s = None \<Longrightarrow> fork_step L join s ((finish_threads s)\<lparr>main_at := Joining 0\<rparr>)"
| joins: "main_at s = Joining i \<Longrightarrow> join_thread join i = Some p \<Longrightarrow> fork_step L join s (s\<lparr>main_at := p\<rparr>)"

inductive fork_steps :: "lib \<Rightarrow> (int \<Rightarrow> int option) \<Rightarrow> fork_run \<Rightarrow> fork_run \<Rightarrow> bool" for L join s where
  fork_refl: "fork_steps L join s s"
| fork_next: "fork_steps L join s s1 \<Longrightarrow> fork_step L join s1 s2 \<Longrightarrow> fork_steps L join s s2"

section \<open>The queue after a number of rounds\<close>

definition taken :: "accepted \<times> arrival \<times> buf \<Rightarrow> bool" where
  "taken x \<longleftrightarrow> \<not> (fst (fst x) = -1 \<and> snd (fst x))"

definition arrival_of :: "accepted \<times> arrival \<times> buf \<Rightarrow> arrival" where
  "arrival_of x = fst (snd x)"

text \<open>The first part of a round leaves the queue alone.\<close>

lemma accept_round_pool:
  assumes "accept_round L result c old s = (made, s')"
  shows "queue_size s' = queue_size s" "pool_list s' = pool_list s" "pool_heap s' = pool_heap s" "requests s' = requests s"
    "owner s' = owner s" "consumer_at s' = consumer_at s" "main_at s' = main_at s" "done_flag s' = done_flag s"
  using assms by (auto simp: accept_round_def Let_def split: prod.splits if_splits)

lemma accept_round_made:
  "fst (accept_round L result c old s) = (if fst result = -1 \<and> snd result then None else Some c)"
  by (auto simp: accept_round_def Let_def split: prod.splits)

text \<open>Every result that was not an interruption is queued, a failed one with the socket -1.\<close>

lemma fork_rounds_queue:
  assumes "queued s cs" "allocations (map arrival_of (filter taken xs))"
    and "\<And>x. x \<in> set xs \<Longrightarrow> taken x \<Longrightarrow> requests s (fst (arrival_of x)) = None \<and> pool_heap s (fst (snd (arrival_of x))) = None"
  shows "\<exists>s'. fork_rounds L junk xs s = Some s' \<and> queued s' (cs @ map (client_of \<circ> arrival_of) (filter taken xs))"
  using assms
proof (induction xs arbitrary: s cs)
  case (Cons x xs)
  obtain result r n c old where x: "x = (result, (r, n, c), old)" by (metis prod.exhaust)
  obtain made s0 where acc: "accept_round L result c old s = (made, s0)" by fastforce
  note pool = accept_round_pool [OF acc]
  have made: "made = (if taken x then Some c else None)"
    using accept_round_made [of L result c old s] acc by (simp add: taken_def x)
  have q0: "queued s0 cs" using Cons.prems(1) pool by (simp add: queued_def)
  show ?case
  proof (cases "taken x")
    case False
    with Cons.prems Cons.IH [of s cs] made acc show ?thesis
      by (auto simp: x fork_round_def accept_round_def taken_def split: prod.splits)
  next
    case True
    have new: "r \<noteq> NULL" "requests s0 r = None" "n \<noteq> NULL" "pool_heap s0 n = None"
      using Cons.prems(2) Cons.prems(3) [of x] True pool by (simp_all add: allocations_def x arrival_of_def)
    obtain s1 where s1: "put_request junk r n c s0 = Some s1" "queued s1 (cs @ [c])"
      "dom (requests s1) = insert r (dom (requests s0))" "dom (pool_heap s1) = insert n (dom (pool_heap s0))"
      by (rule put_request_ok [OF q0 new])
    have "requests s1 (fst (arrival_of y)) = None \<and> pool_heap s1 (fst (snd (arrival_of y))) = None"
      if "y \<in> set xs" "taken y" for y
    proof -
      have "arrival_of y \<in> set (map arrival_of (filter taken xs))" using that by simp
      then have "fst (arrival_of y) \<in> set (map fst (map arrival_of (filter taken xs)))"
        "fst (snd (arrival_of y)) \<in> set (map (fst \<circ> snd) (map arrival_of (filter taken xs)))"
        by (metis image_eqI set_map) (metis \<open>arrival_of y \<in> _\<close> comp_apply image_eqI set_map)
      moreover have "r \<notin> set (map fst (map arrival_of (filter taken xs)))"
        "n \<notin> set (map (fst \<circ> snd) (map arrival_of (filter taken xs)))"
        using Cons.prems(2) True by (simp_all add: allocations_def x arrival_of_def)
      ultimately have "fst (arrival_of y) \<noteq> r" "fst (snd (arrival_of y)) \<noteq> n" by metis+
      moreover have "requests s0 (fst (arrival_of y)) = None" "pool_heap s0 (fst (snd (arrival_of y))) = None"
        using Cons.prems(3) [of y] that pool by simp_all
      ultimately have "fst (arrival_of y) \<notin> dom (requests s1)" "fst (snd (arrival_of y)) \<notin> dom (pool_heap s1)"
        using s1(3,4) by auto
      then show ?thesis by blast
    qed
    moreover have "allocations (map arrival_of (filter taken xs))" using Cons.prems(2) True by (simp add: allocations_def)
    ultimately obtain s' where "fork_rounds L junk xs s1 = Some s'"
      "queued s' ((cs @ [c]) @ map (client_of \<circ> arrival_of) (filter taken xs))"
      using Cons.IH [OF s1(2)] by blast
    moreover have "fork_round L junk result (r, n, c) old s = Some s1"
      using s1(1) acc made True by (simp add: fork_round_def)
    ultimately show ?thesis using True by (simp add: x arrival_of_def client_of_def comp_def)
  qed
qed simp

text \<open>The handler counts every result but -1, whatever became of the child.\<close>

lemma childHandler_counts:
  "\<forall>r \<in> set rs. r \<noteq> -1 \<Longrightarrow> childHandler (rs @ -1 # qs) w =
    Some (w\<lparr>operations_completed := operations_completed w + of_nat (length rs)\<rparr>)"
  by (induction rs arbitrary: w) (simp_all add: algebra_simps)

end
