(* ===== verification/Fork_Properties.thy ===== *)
theory Fork_Properties imports Server_Fork begin

text \<open>
  The properties of the server with the thread pool as one program: the first client is
  served from its connection to its reply, and a consumer that locks itself stops the
  accepting thread as well.
\<close>

section \<open>The lock in the whole program\<close>

text \<open>The facts about the pool only depend on its own fields.\<close>

lemma pool_lock_inv_cong:
  assumes "consumer_at s' = consumer_at s" "owner s' = owner s"
  shows "pool_lock_inv s' = pool_lock_inv s"
  by (simp add: pool_lock_inv_def assms)

lemma accept_round_inv:
  "accept_round L result c old s = (made, s') \<Longrightarrow> pool_lock_inv s' = pool_lock_inv s"
  by (rule pool_lock_inv_cong) (simp_all add: accept_round_pool)

lemma fork_step_lock_inv:
  assumes inv: "pool_lock_inv s" and step: "fork_step L join s s'"
  shows "pool_lock_inv s'"
  using step
proof (cases rule: fork_step.cases)
  case (consumes t)
  then show ?thesis using consumer_lock_inv [OF inv] by blast
next
  case (serves t request client c w' s1)
  have "pool_lock_inv s1" by (rule consumer_lock_inv [OF inv serves(5)])
  with serves(1) show ?thesis by (simp add: pool_lock_inv_def)
next
  case (spurious t)
  then show ?thesis by (intro pool_lock_inv_wake [OF inv]) auto
next
  case (accepts new_client result old made s1)
  with accept_round_inv [of L result new_client old s made s1] inv show ?thesis by (simp add: pool_lock_inv_def)
next
  case (puts client request new_node junk s1 s2)
  note f = signalled_fields [OF puts(7)] and g = put_request_fields [OF puts(6)]
  show ?thesis by (rule pool_lock_inv_wake [OF inv]) (use puts(1) f g in auto)
next
  case finishes
  then show ?thesis by (intro pool_lock_inv_wake [OF inv]) (auto simp: finish_threads_def wake_all_def)
qed (use inv in \<open>simp_all add: pool_lock_inv_def termHandler_def\<close>)

lemma fork_steps_lock_inv: "fork_steps L join s s' \<Longrightarrow> pool_lock_inv s \<Longrightarrow> pool_lock_inv s'"
  by (induction rule: fork_steps.induct) (auto intro: fork_step_lock_inv)

lemma fork_initial_simps [simp]:
  "owner (fork_initial l w) = None" "finish_flag (fork_initial l w) = 0" "queue_size (fork_initial l w) = 0"
  "consumer_at (fork_initial l w) t = (if t < NUM_THREADS then Check_finish else Returned_NULL)"
  "pool_heap (fork_initial l w) = Map.empty" "requests (fork_initial l w) = Map.empty"
  "handed_out (fork_initial l w) = []" "main_at (fork_initial l w) = Testing_done" "done_flag (fork_initial l w) = 0"
  "fork_clients (fork_initial l w) = Map.empty" "world (fork_initial l w) = w"
  by (simp_all add: fork_initial_def start_threads_def pool_state.defs pool_run.defs start_pool_def)

lemma pool_lock_inv_initial: "pool_lock_inv (fork_initial l w)"
  by (simp add: pool_lock_inv_def)

lemma queued_initial: "queued (fork_initial l w) []"
  using queued_start_threads [of l] by (simp add: queued_def fork_initial_def start_threads_def pool_state.defs pool_run.defs)

lemma fork_steps_trans: "fork_steps L join s1 s2 \<Longrightarrow> fork_steps L join s s1 \<Longrightarrow> fork_steps L join s s2"
  by (induction rule: fork_steps.induct) (auto intro: fork_next)

text \<open>A consumer that is not serving steps as it does in the pool.\<close>

lemma consumer_steps:
  assumes "fork_steps L join s s1" "running s1" "\<forall>c. consumer_at s1 t \<noteq> Serving c" "consumer t s1 = Continues s2"
  shows "fork_steps L join s s2"
  by (rule fork_next [OF assms(1) fork_step.consumes [OF assms(2-4)]])

section \<open>A consumer that locks itself\<close>

text \<open>The accepting thread has not entered the joins.\<close>
definition unfinished :: "fork_run \<Rightarrow> bool" where
  "unfinished s \<longleftrightarrow> (\<forall>i. main_at s \<noteq> Joining i) \<and> (\<forall>n. main_at s \<noteq> Exited n)"

lemma fork_step_stuck:
  assumes inv: "pool_lock_inv s" and d: "deadlocked t s" and u: "unfinished s" and step: "fork_step L join s s'"
  shows "deadlocked t s' \<and> unfinished s' \<and> queue_size s' = queue_size s \<and> pool_list s' = pool_list s \<and> pool_heap s' = pool_heap s"
  using step
proof (cases rule: fork_step.cases)
  case (consumes r)
  have "main_at s' = main_at s"
    using consumes(3) by (auto simp: consumer_def consumer_to_def take_request_def split: consumer_pc.splits if_splits Option.bind_splits option.splits)
  with pool_step_deadlocked [OF inv d pool_step.consumes [OF consumes(3)]] u show ?thesis by (simp add: unfinished_def)
next
  case (serves r request client c w' s1)
  have "main_at s1 = main_at s" using serves(3,5) by (auto simp: consumer_def consumer_to_def split: option.splits)
  with pool_step_deadlocked [OF inv d pool_step.consumes [OF serves(5)]] u serves(1) show ?thesis
    by (simp add: unfinished_def deadlocked_def)
next
  case (spurious r)
  with d u show ?thesis by (auto simp: deadlocked_def unfinished_def consumer_to_def)
next
  case (accepts new_client result old made s1)
  with accept_round_pool [OF accepts(4)] d show ?thesis
    by (auto simp: deadlocked_def unfinished_def split: option.splits)
qed (use d u in \<open>auto simp: deadlocked_def unfinished_def termHandler_def\<close>)

lemma fork_steps_stuck:
  assumes "fork_steps L join s s'" "pool_lock_inv s" "deadlocked t s" "unfinished s"
  shows "deadlocked t s' \<and> unfinished s' \<and> queue_size s' = queue_size s \<and> pool_list s' = pool_list s \<and> pool_heap s' = pool_heap s"
  using assms
proof (induction rule: fork_steps.induct)
  case (fork_next s1 s2)
  then show ?case using fork_step_stuck [of s1 t L join s2] fork_steps_lock_inv [of L join s s1] by auto
qed simp

text \<open>The joins come behind the critical section that sets \<open>finish\<close>.\<close>

lemma fork_step_finish:
  assumes "fork_step L join s s'" "finish_flag s = 0 \<longrightarrow> unfinished s" "finish_flag s' = 0"
  shows "unfinished s'"
  using assms
proof (cases rule: fork_step.cases)
  case (consumes r)
  then have "main_at s' = main_at s" "finish_flag s' = finish_flag s"
    by (auto simp: consumer_def consumer_to_def take_request_def split: consumer_pc.splits if_splits Option.bind_splits option.splits)
  with assms(2,3) show ?thesis by (simp add: unfinished_def)
next
  case (serves r request client c w' s1)
  then have "main_at s' = main_at s" "finish_flag s' = finish_flag s" by (auto simp: consumer_def consumer_to_def split: option.splits)
  with assms(2,3) show ?thesis by (simp add: unfinished_def)
next
  case (accepts new_client result old made s1)
  then show ?thesis by (auto simp: unfinished_def split: option.splits)
next
  case finishes
  with assms(3) show ?thesis by (simp add: finish_threads_def wake_all_def)
next
  case (joins i)
  with assms(2,3) show ?thesis by (simp add: unfinished_def)
qed (auto simp: unfinished_def termHandler_def consumer_to_def)

lemma fork_steps_finish:
  assumes "fork_steps L join s s'" "finish_flag s = 0 \<longrightarrow> unfinished s"
  shows "finish_flag s' = 0 \<longrightarrow> unfinished s'"
  using assms by (induction rule: fork_steps.induct) (use fork_step_finish in blast)+

lemma unfinished_initial: "unfinished (fork_initial l w)"
  by (simp add: unfinished_def)

lemma unfinished_running: "unfinished s \<Longrightarrow> running s"
  by (simp add: unfinished_def running_def)

section \<open>The first client\<close>

text \<open>The operations on the queue leave the rest of the program alone.\<close>

lemma put_request_fork:
  assumes "put_request junk r n c s = Some s'"
  shows "main_at s' = main_at s" "done_flag s' = done_flag s" "fork_clients s' = fork_clients s" "world s' = world s"
  using assms by (auto simp: put_request_def split: Option.bind_splits)

lemma take_request_fork:
  assumes "take_request s = Some (c, s')"
  shows "main_at s' = main_at s" "done_flag s' = done_flag s" "fork_clients s' = fork_clients s" "world s' = world s"
  using assms by (auto simp: take_request_def split: Option.bind_splits)

lemma consumer_to_fork [simp]:
  "main_at (consumer_to t p s) = main_at s" "done_flag (consumer_to t p s) = done_flag s"
  "fork_clients (consumer_to t p s) = fork_clients s" "world (consumer_to t p s) = world s"
  by (simp_all add: consumer_to_def)

text \<open>Consumer 0 takes the lock, finds the queue empty, and waits.\<close>

lemma consumer_goes_to_wait:
  obtains s where "fork_steps L join (fork_initial l w) s" "consumer_at s = (consumer_at (fork_initial l w))(0 := Waiting)"
    "owner s = None" "finish_flag s = 0" "queued s []" "main_at s = Testing_done" "done_flag s = 0"
    "fork_clients s = Map.empty" "world s = w" "requests s = Map.empty" "pool_heap s = Map.empty"
proof -
  let ?s0 = "fork_initial l w" and ?run = "fork_steps L join (fork_initial l w)"
  let ?s1 = "consumer_to 0 Locking ?s0"
  let ?s2 = "consumer_to 0 Check_queue (?s1\<lparr>owner := Some 0\<rparr>)"
  let ?s3 = "consumer_to 0 Waiting (?s2\<lparr>owner := None\<rparr>)"
  have "?run ?s1" by (rule consumer_steps [OF fork_refl, of _ 0]) (simp_all add: running_def consumer_def)
  then have "?run ?s2" by (rule consumer_steps [of _ _ _ _ 0]) (simp_all add: running_def consumer_def)
  then have run: "?run ?s3" by (rule consumer_steps [of _ _ _ _ 0]) (simp_all add: running_def consumer_def)
  have "queued ?s3 []" using queued_initial [of l w] by (simp add: queued_def consumer_to_def)
  then show thesis by (intro that [OF run]) (simp_all add: consumer_to_def fun_eq_iff)
qed

text \<open>A connection is accepted and queued; the signal may go to any waiting consumer.\<close>

lemma connection_queued:
  assumes s: "owner s = None" "queued s []" "main_at s = Testing_done"
    "done_flag s = 0" "fork_clients s = Map.empty" "requests s = Map.empty" "pool_heap s = Map.empty"
    and new: "client \<noteq> NULL" "request \<noteq> NULL" "new_node \<noteq> NULL" and sock: "sock \<noteq> -1"
  obtains s' m where "\<And>s''. signalled s' s'' \<Longrightarrow> fork_steps L join s (s''\<lparr>main_at := Testing_done\<rparr>)"
    "consumer_at s' = consumer_at s" "owner s' = None" "finish_flag s' = finish_flag s" "queued s' [client]"
    "fork_clients s' = [client \<mapsto> make_client old sock]" "world s' = print m (world s)"
proof -
  obtain host port where peer: "get_peer_information L sock = (host, port)" by fastforce
  let ?w = "print (New_connection_from host port) (world s)"
  let ?s1 = "s\<lparr>main_at := Accepting\<rparr>"
  let ?s2 = "?s1\<lparr>world := ?w, fork_clients := [client \<mapsto> make_client old sock], main_at := Putting client\<rparr>"
  have 1: "fork_step L join s ?s1" by (rule tests) (use s in simp_all)
  have acc: "accept_round L (sock, False) client old ?s1 =
      (Some client, ?s1\<lparr>world := ?w, fork_clients := [client \<mapsto> make_client old sock]\<rparr>)"
    using new(1) sock s(5) by (simp add: accept_round_def peer Let_def)
  have 2: "fork_step L join ?s1 ?s2"
    using accepts [of ?s1, OF _ _ acc] s(5) by simp
  have q: "queued ?s2 []" using s(2) by (simp add: queued_def)
  have fresh: "requests ?s2 request = None" "pool_heap ?s2 new_node = None" using s(6,7) by simp_all
  obtain s3 where s3: "put_request junk request new_node client ?s2 = Some s3" "queued s3 [client]"
    by (rule put_request_ok [OF q new(2) fresh(1) new(3) fresh(2), where client = client]) simp
  note f = put_request_fields [OF s3(1)] put_request_fork [OF s3(1)]
  have "fork_steps L join s (s4\<lparr>main_at := Testing_done\<rparr>)" if "signalled s3 s4" for s4
    by (rule fork_next [OF fork_next [OF fork_next [OF fork_refl 1] 2]])
      (rule puts [OF _ _ fresh s3(1) that], use s(1) in simp_all)
  then show thesis by (rule that [of s3]) (use f s s3(2) in simp_all)
qed

lemma connection_wakes_consumer:
  assumes s: "consumer_at s 0 = Waiting" "owner s = None" "finish_flag s = 0" "queued s []" "main_at s = Testing_done"
    "done_flag s = 0" "fork_clients s = Map.empty" "requests s = Map.empty" "pool_heap s = Map.empty"
    and new: "client \<noteq> NULL" "request \<noteq> NULL" "new_node \<noteq> NULL" and sock: "sock \<noteq> -1"
  obtains s' m where "fork_steps L join s s'" "consumer_at s' 0 = Relocking" "owner s' = None" "finish_flag s' = 0" "queued s' [client]"
    "main_at s' = Testing_done" "fork_clients s' = [client \<mapsto> make_client old sock]" "world s' = print m (world s)"
proof -
  obtain s1 m where s1: "\<And>s2. signalled s1 s2 \<Longrightarrow> fork_steps L join s (s2\<lparr>main_at := Testing_done\<rparr>)"
    "consumer_at s1 = consumer_at s" "owner s1 = None" "finish_flag s1 = finish_flag s" "queued s1 [client]"
    "fork_clients s1 = [client \<mapsto> make_client old sock]" "world s1 = print m (world s)"
    by (rule connection_queued [OF s(2,4-9) new sock, where L = L and join = join and old = old]) (rule that)
  let ?s2 = "(consumer_to 0 Relocking s1)\<lparr>main_at := Testing_done\<rparr>"
  have "signalled s1 (consumer_to 0 Relocking s1)" by (rule signal_one) (use s1(2) s(1) in simp)
  from s1(1) [OF this] have "fork_steps L join s ?s2" .
  moreover have "queued ?s2 [client]" using s1(5) by (simp add: queued_def)
  ultimately show thesis by (intro that [of ?s2 m]) (use s1 s(3) in simp_all)
qed

text \<open>The consumer takes the only request.\<close>

lemma woken_consumer_takes:
  assumes s: "consumer_at s 0 = Relocking" "owner s = None" "finish_flag s = 0" "queued s [client]" "running s"
  obtains request s' where "fork_steps L join s s'" "consumer_at s' 0 = Serving request" "requests s' request = Some client"
    "owner s' = None" "queued s' []"
    "running s'" "fork_clients s' = fork_clients s" "world s' = world s"
proof -
  let ?s1 = "consumer_to 0 Woken (s\<lparr>owner := Some 0\<rparr>)"
  have 1: "fork_steps L join s ?s1"
    by (rule consumer_steps [OF fork_refl s(5), of 0]) (use s in \<open>simp_all add: consumer_def\<close>)
  have "queued ?s1 [client]" using s(4) by (simp add: queued_def)
  then obtain r s2 where s2: "take_request ?s1 = Some (r, s2)" "requests s2 r = Some client" "queued s2 []"
    by (rule take_requests_single)
  note f = take_request_fields [OF s2(1)] take_request_fork [OF s2(1)]
  let ?s3 = "consumer_to 0 (Serving r) (s2\<lparr>owner := None\<rparr>)"
  have "fork_steps L join s ?s3"
    by (rule consumer_steps [OF 1, of 0]) (use s(3,5) s2(1) in \<open>simp_all add: consumer_def running_def\<close>)
  moreover have "queued ?s3 []" using s2(3) by (simp add: queued_def)
  ultimately show thesis using s(5) s2(2) f by (intro that [of ?s3 r]) (simp_all add: running_def)
qed

lemma server_fork_started:
  assumes "server_fork E argv l w = Some (Inr s)"
  obtains d where "s = fork_initial l (w\<lparr>dispositions := d\<rparr>)"
  using assms
  by (auto simp: server_fork_def setupSignalHandler_def split: Option.bind_splits sum.splits if_splits)

lemma io_print_simps [simp]:
  "willing (print m (w\<lparr>dispositions := d\<rparr>)) fd = willing w fd" "reads (print m (w\<lparr>dispositions := d\<rparr>)) = reads w"
  "files (print m (w\<lparr>dispositions := d\<rparr>)) = files w" "sent (print m (w\<lparr>dispositions := d\<rparr>)) = sent w"
  "operations_completed (print m (w\<lparr>dispositions := d\<rparr>)) = operations_completed w"
  "closed (print m (w\<lparr>dispositions := d\<rparr>)) = closed w"
  by (simp_all add: willing_def print_def)

lemma first_client_run:
  assumes start: "server_fork E argv l w = Some (Inr s)" and sock: "willing w sock"
    and req: "pieces_of_header L [] pieces" "reads w sock = map Some pieces @ cs" "length (concat pieces) < BUFFER_SIZE"
    and name: "get_filename L (concat pieces) = (r, filename, protocol)" "r \<noteq> -1"
    and data: "files w filename = Some (True, data)"
    and reply: "reply = cstring (get_200 L filename protocol (sint (of_nat (length data) :: 32 word)))" "length reply < BUFFER_SIZE"
  shows "\<exists>s'. fork_steps L join s s' \<and> sent (world s') sock = sent w sock @ reply @ data \<and>
    operations_completed (world s') = operations_completed w + 1 \<and> closed (world s') = closed w \<and>
    fork_clients s' = Map.empty \<and> queued s' [] \<and> consumer_at s' 0 = Check_queue \<and> owner s' = None"
proof -
  obtain d where s: "s = fork_initial l (w\<lparr>dispositions := d\<rparr>)" using start by (rule server_fork_started)
  obtain s1 where s1: "fork_steps L join s s1" "consumer_at s1 0 = Waiting" "owner s1 = None" "finish_flag s1 = 0" "queued s1 []"
    "main_at s1 = Testing_done" "done_flag s1 = 0" "fork_clients s1 = Map.empty" "requests s1 = Map.empty"
    "pool_heap s1 = Map.empty" "world s1 = w\<lparr>dispositions := d\<rparr>"
    by (rule consumer_goes_to_wait [of L join l "w\<lparr>dispositions := d\<rparr>"]) (rule that, simp_all add: s)
  have sock_neg: "sock \<noteq> -1" using sock by (auto simp: willing_def)
  have "(101 :: nat) \<noteq> NULL" "(1 :: nat) \<noteq> NULL" "(11 :: nat) \<noteq> NULL" by simp_all
  then obtain s2 m where s2: "fork_steps L join s1 s2" "consumer_at s2 0 = Relocking" "owner s2 = None" "finish_flag s2 = 0"
    "queued s2 [101]" "main_at s2 = Testing_done" "fork_clients s2 = [101 \<mapsto> make_client old sock]" "world s2 = print m (world s1)"
    by (rule connection_wakes_consumer [OF s1(2-10) _ _ _ sock_neg])
  have run: "running s2" by (simp add: running_def s2(6))
  obtain req s3 where s3: "fork_steps L join s2 s3" "consumer_at s3 0 = Serving req" "requests s3 req = Some 101"
    "owner s3 = None" "queued s3 []" "running s3" "fork_clients s3 = fork_clients s2" "world s3 = world s2"
    by (rule woken_consumer_takes [OF s2(2-5) run])
  let ?w = "print m (w\<lparr>dispositions := d\<rparr>)"
  have world: "world s3 = ?w" using s3(8) s2(8) s1(11) by simp
  obtain c' w' where serve: "serve_request L (make_client old sock) ?w = Some (c', w')" "sent w' sock = sent w sock @ reply @ data"
    "operations_completed w' = operations_completed w + 1" "closed w' = closed w"
    using pool_serves_file [OF refl, of ?w sock L pieces cs r filename protocol data reply old] sock req name data reply by auto
  let ?s4 = "consumer_to 0 Check_queue (s3\<lparr>handed_out := handed_out s3 @ [101], requests := (requests s3)(req := None)\<rparr>)"
  have "fork_step L join s3 (?s4\<lparr>fork_clients := (fork_clients s3)(101 := None), world := w'\<rparr>)"
    by (rule fork_step.serves [of s3 0 req L 101 c' w'])
      (use s3 s2(7) serve(1) world in \<open>simp_all add: consumer_def service_def\<close>)
  then have "fork_steps L join s (?s4\<lparr>fork_clients := (fork_clients s3)(101 := None), world := w'\<rparr>)"
    by (rule fork_next [OF fork_steps_trans [OF s3(1) fork_steps_trans [OF s2(1) s1(1)]]])
  moreover have "queued (?s4\<lparr>fork_clients := (fork_clients s3)(101 := None), world := w'\<rparr>) []"
    using s3(5) by (simp add: queued_def)
  ultimately show ?thesis using serve(2-4) s3(4,7) s2(7)
    by (intro exI [of _ "?s4\<lparr>fork_clients := (fork_clients s3)(101 := None), world := w'\<rparr>"] conjI) simp_all
qed

text \<open>
  C3: The server with the thread pool serves its first client: from a successful start there
  is a run in which a consumer waits, the connection is accepted and queued, the consumer
  takes it and sends the response header and the whole file, whatever pieces the request
  arrives in and whatever pieces the socket takes. The operation is counted and the client
  freed, but its socket is never closed.
\<close>
theorem first_client_served:
  assumes start: "server_fork E argv l w = Some (Inr s)" and sock: "willing w sock"
    and req: "pieces_of_header L [] pieces" "reads w sock = map Some pieces @ cs" "length (concat pieces) < BUFFER_SIZE"
    and name: "get_filename L (concat pieces) = (r, filename, protocol)" "r \<noteq> -1"
    and data: "files w filename = Some (True, data)"
    and reply: "reply = cstring (get_200 L filename protocol (sint (of_nat (length data) :: 32 word)))" "length reply < BUFFER_SIZE"
  shows "\<exists>s'. fork_steps L join s s' \<and> sent (world s') sock = sent w sock @ reply @ data \<and>
    operations_completed (world s') = operations_completed w + 1 \<and> closed (world s') = closed w \<and>
    fork_clients s' = Map.empty \<and> queued s' []"
  using first_client_run [OF assms] by blast

text \<open>
  What follows that service is undefined: the queue is empty, and the consumer goes back to
  its wait without the lock.
\<close>
lemma service_then_undefined:
  assumes "server_fork E argv l w = Some (Inr s)" "willing w sock"
    and "pieces_of_header L [] pieces" "reads w sock = map Some pieces @ cs" "length (concat pieces) < BUFFER_SIZE"
    and "get_filename L (concat pieces) = (r, filename, protocol)" "r \<noteq> -1" "files w filename = Some (True, data)"
    and "reply = cstring (get_200 L filename protocol (sint (of_nat (length data) :: 32 word)))" "length reply < BUFFER_SIZE"
  shows "\<exists>s'. fork_steps L join s s' \<and> sent (world s') sock = sent w sock @ reply @ data \<and> pool_undefined s'"
proof -
  obtain s' where s': "fork_steps L join s s'" "sent (world s') sock = sent w sock @ reply @ data" "queued s' []"
    "consumer_at s' 0 = Check_queue" "owner s' = None"
    using first_client_run [OF assms, of join] by blast
  have "pool_undefined s'" by (rule unlocked_wait_undefined [OF s'(4)]) (use s'(3,5) in \<open>simp_all add: queued_def\<close>)
  with s'(1,2) show ?thesis by blast
qed

lemma sample_fork_start:
  obtains s where "server_fork sample_env sample_args \<lparr>list_head = 0, list_tail = 0\<rparr> sample_io = Some (Inr s)"
  by (simp add: server_fork_def sample_start setupSignalHandler_def)

theorem first_client_served_witness:
  "\<exists>s s'. server_fork sample_env sample_args \<lparr>list_head = 0, list_tail = 0\<rparr> sample_io = Some (Inr s) \<and>
    fork_steps sample_lib (\<lambda>_. None) s s' \<and> sent (world s') 5 = [50, 48, 48, 7, 8, 9] \<and> queued s' []"
proof -
  obtain s where s: "server_fork sample_env sample_args \<lparr>list_head = 0, list_tail = 0\<rparr> sample_io = Some (Inr s)"
    by (rule sample_fork_start)
  have "willing sample_io 5" "reads sample_io 5 = map Some [[71], [10]] @ []" "files sample_io [102] = Some (True, [7, 8, 9])"
    by (simp_all add: willing_def sample_io_def)
  moreover have "get_filename sample_lib (concat [[71], [10]]) = (0, [102], [])"
    "[50, 48, 48] = cstring (get_200 sample_lib [102] [] (sint (of_nat (length [7 :: u8, 8, 9]) :: 32 word)))"
    by (simp_all add: sample_lib_def cstring_def)
  moreover have "length [50 :: u8, 48, 48] < 4096" "length (concat [[71 :: u8], [10]]) < 4096" "(0 :: int) \<noteq> -1" by simp_all
  ultimately obtain s' where "fork_steps sample_lib (\<lambda>_. None) s s'" "queued s' []"
    "sent (world s') 5 = sent sample_io 5 @ [50, 48, 48] @ [7, 8, 9]"
    using first_client_served [OF s _ sample_pieces, of 5 "[]" 0 "[102]" "[]" "[7, 8, 9]" "[50, 48, 48]" "\<lambda>_. None"] by blast
  with s show ?thesis by (auto simp: sample_io_def)
qed

text \<open>
  C13: a request that is queued when a consumer comes to the lock can stop the whole server:
  there is a run after which, whatever the threads, the signals and new connections do (short of anything undefined),
  the lock stays taken, nothing is put into the queue or taken from it, and the program never
  returns, not even after \<open>SIGTERM\<close>.
\<close>
theorem server_hangs:
  assumes "fork_steps L join (fork_initial l w) s" and "owner s = None" and "consumer_at s t = Locking"
    and "queue_size s \<noteq> 0" and "finish_flag s = 0"
  shows "\<exists>s'. fork_steps L join s s' \<and> (\<forall>s''. fork_steps L join s' s'' \<longrightarrow>
    owner s'' = Some t \<and> pool_list s'' = pool_list s' \<and> pool_heap s'' = pool_heap s' \<and> queue_size s'' = queue_size s \<and> (\<forall>n. main_at s'' \<noteq> Exited n))"
proof -
  have u: "unfinished s" using fork_steps_finish [OF assms(1)] assms(5) unfinished_initial by blast
  have inv: "pool_lock_inv s" by (rule fork_steps_lock_inv [OF assms(1) pool_lock_inv_initial])
  let ?s1 = "consumer_to t Check_queue (s\<lparr>owner := Some t\<rparr>)"
  let ?s2 = "consumer_to t Check_finish ?s1" and ?s3 = "consumer_to t Locking (consumer_to t Check_finish ?s1)"
  have run: "running s" "running ?s1" "running ?s2" using u by (simp_all add: running_def unfinished_def consumer_to_def)
  have "fork_steps L join s ?s1"
    by (rule consumer_steps [OF fork_refl run(1), of t]) (use assms(2,3) in \<open>simp_all add: consumer_def\<close>)
  then have "fork_steps L join s ?s2"
    by (rule consumer_steps [OF _ run(2), of _ _ _ t]) (use assms(4) in \<open>simp_all add: consumer_def\<close>)
  then have steps: "fork_steps L join s ?s3"
    by (rule consumer_steps [OF _ run(3), of _ _ _ t]) (use assms(5) in \<open>simp_all add: consumer_def\<close>)
  have stuck: "deadlocked t ?s3" "unfinished ?s3" using u by (simp_all add: deadlocked_def unfinished_def consumer_to_def)
  have "owner s'' = Some t \<and> pool_list s'' = pool_list ?s3 \<and> pool_heap s'' = pool_heap ?s3 \<and> queue_size s'' = queue_size s \<and> (\<forall>n. main_at s'' \<noteq> Exited n)"
    if "fork_steps L join ?s3 s''" for s''
    using fork_steps_stuck [OF that fork_steps_lock_inv [OF steps inv] stuck] by (simp add: deadlocked_def unfinished_def)
  with steps show ?thesis by blast
qed

text \<open>Consumer 3 has passed the test and is about to take the lock when a request is queued.\<close>

lemma about_to_hang:
  obtains s where "fork_steps L join (fork_initial l w) s" "owner s = None" "consumer_at s 3 = Locking" "queue_size s = 1" "finish_flag s = 0"
proof -
  let ?s = "fork_initial l w"
  let ?s1 = "consumer_to 3 Locking ?s"
  have run: "fork_steps L join ?s ?s1" by (rule consumer_steps [OF fork_refl, of _ 3]) (simp_all add: running_def consumer_def)
  have q: "queued ?s1 []" using queued_initial [of l w] by (simp add: queued_def)
  have new: "(101 :: nat) \<noteq> NULL" "(1 :: nat) \<noteq> NULL" "(11 :: nat) \<noteq> NULL" "(5 :: int) \<noteq> -1" by simp_all
  have start: "owner ?s1 = None" "main_at ?s1 = Testing_done" "done_flag ?s1 = 0" "fork_clients ?s1 = Map.empty"
    "requests ?s1 = Map.empty" "pool_heap ?s1 = Map.empty" by simp_all
  obtain s2 m where s2: "\<And>s3. signalled s2 s3 \<Longrightarrow> fork_steps L join ?s1 (s3\<lparr>main_at := Testing_done\<rparr>)"
    "consumer_at s2 = consumer_at ?s1" "owner s2 = None" "finish_flag s2 = finish_flag ?s1" "queued s2 [101]"
    by (rule connection_queued [OF start(1) q start(2-6) new, where L = L and join = join and old = "\<lambda>_. 0"]) (rule that)
  have "signalled s2 s2" by (rule signal_none) (simp add: s2(2))
  from fork_steps_trans [OF s2(1) [OF this] run]
  show thesis by (rule that) (use s2 in \<open>simp_all add: queued_def\<close>)
qed

theorem server_hangs_witness:
  "\<exists>s'. fork_steps sample_lib (\<lambda>_. None) (fork_initial \<lparr>list_head = 0, list_tail = 0\<rparr> sample_io) s' \<and>
    (\<forall>s''. fork_steps sample_lib (\<lambda>_. None) s' s'' \<longrightarrow> owner s'' = Some 3)"
proof -
  obtain s where s: "fork_steps sample_lib (\<lambda>_. None) (fork_initial \<lparr>list_head = 0, list_tail = 0\<rparr> sample_io) s" "owner s = None"
    "consumer_at s 3 = Locking" "queue_size s = 1" "finish_flag s = 0" by (rule about_to_hang)
  then have "queue_size s \<noteq> 0" by simp
  from server_hangs [OF s(1-3) this s(5)] fork_steps_trans [OF _ s(1)] show ?thesis by blast
qed

end
