(* ===== verification/Translation.thy ===== *)
theory Translation imports Frame begin

text \<open>
  The page tables of \<open>HW3-skeleton/translation.c\<close>, in the bytes of the array \<open>memory\<close> of
  \<open>frame.c\<close>. An entry is a little-endian 64-bit word, \<open>address\<close> in bits 0 to 51 and \<open>flags\<close>
  in bits 55 to 63. Pointers are 64-bit addresses, and \<open>table_root + a\<close> counts bytes, as
  \<open>table_root\<close> has type \<open>void *\<close> and \<open>address\<close> is an integer. An access outside of the array
  is undefined. \<open>vm_map\<close> calls a function \<open>new_node\<close> that the sources do not define; it is a
  parameter.
\<close>

abbreviation (input) MEMORY_SIZE :: "'a::numeral" where "MEMORY_SIZE \<equiv> 4194304"

record vm_state = frame_state +
  memory :: buf
  memory_base :: u64
  table_root :: u64

section \<open>Memory\<close>

text \<open>The offset in the array of the \<open>n\<close> bytes at an address.\<close>
definition offset_of :: "nat \<Rightarrow> u64 \<Rightarrow> 'a vm_state_scheme \<Rightarrow> nat option" where
  "offset_of n a s = (if memory_base s \<le> a \<and> unat a - unat (memory_base s) + n \<le> MEMORY_SIZE
     then Some (unat a - unat (memory_base s)) else None)"

definition load_u64 :: "u64 \<Rightarrow> 'a vm_state_scheme \<Rightarrow> u64 option" where
  "load_u64 a s = map_option (get_u64 (memory s)) (offset_of 8 a s)"

definition store_u64 :: "u64 \<Rightarrow> u64 \<Rightarrow> 'a vm_state_scheme \<Rightarrow> 'a vm_state_scheme option" where
  "store_u64 a v s = map_option (\<lambda>i. s\<lparr>memory := put_u64 (memory s) i v\<rparr>) (offset_of 8 a s)"

text \<open>The fields of an entry, and the entry with a field assigned.\<close>

definition entry_address :: "u64 \<Rightarrow> u64" where
  "entry_address e = take_bit 52 e"

definition entry_flags :: "u64 \<Rightarrow> u64" where
  "entry_flags e = drop_bit 55 e"

definition with_address :: "u64 \<Rightarrow> u64 \<Rightarrow> u64" where
  "with_address v e = (e AND NOT (mask 52)) OR take_bit 52 v"

definition with_flags :: "u64 \<Rightarrow> u64 \<Rightarrow> u64" where
  "with_flags v e = take_bit 55 e OR push_bit 55 (take_bit 9 v)"

text \<open>An assignment to a field of the entry at an address.\<close>
definition update_entry :: "(u64 \<Rightarrow> u64) \<Rightarrow> u64 \<Rightarrow> 'a vm_state_scheme \<Rightarrow> 'a vm_state_scheme option" where
  "update_entry f p s = do { e \<leftarrow> load_u64 p s; store_u64 p (f e) s }"

section \<open>The code\<close>

text \<open>\<open>FRAME_ADDRESS(allocate_frame(1))\<close>, filled with zeros.\<close>
definition make_node :: "'a vm_state_scheme \<Rightarrow> (u64 \<times> 'a vm_state_scheme) option" where
  "make_node s =
     do {
       (frame, s) \<leftarrow> allocate_frame 1 s;
       let node = memory_base s + word_of_int frame * 4096;
       i \<leftarrow> offset_of 4096 node s;
       Some (node, s\<lparr>memory := memset (memory s) i 0 4096\<rparr>)
     }"

text \<open>\<open>(page >> 9 * level) & 0x1FF\<close>\<close>
definition table_index :: "u64 \<Rightarrow> nat \<Rightarrow> u64" where
  "table_index page level = drop_bit (9 * level) page AND 0x1FF"

text \<open>One level of the walk of \<open>vm_map\<close>: a missing table is added; the result is its address.\<close>
definition next_table ::
    "('a vm_state_scheme \<Rightarrow> (u64 \<times> 'a vm_state_scheme) option) \<Rightarrow> u64 \<Rightarrow> 'a vm_state_scheme \<Rightarrow> (u64 \<times> 'a vm_state_scheme) option" where
  "next_table new_node pointer s =
     do {
       e \<leftarrow> load_u64 pointer s;
       s \<leftarrow> (if entry_address e = 0
             then do { (n, s) \<leftarrow> new_node s; update_entry (with_address n) pointer s }
             else Some s);
       e \<leftarrow> load_u64 pointer s;
       Some (entry_address e, s)
     }"

definition vm_map_page ::
    "('a vm_state_scheme \<Rightarrow> (u64 \<times> 'a vm_state_scheme) option) \<Rightarrow> u64 \<Rightarrow> u64 \<Rightarrow> 'a vm_state_scheme \<Rightarrow> (int \<times> 'a vm_state_scheme) option" where
  "vm_map_page new_node page frame s =
     do {
       (t1, s) \<leftarrow> next_table new_node (table_root s + table_index page 0) s;
       (t2, s) \<leftarrow> next_table new_node (t1 + table_index page 1) s;
       (t3, s) \<leftarrow> next_table new_node (t2 + table_index page 2) s;
       let fourth_pointer = t3 + table_index page 3;
       e \<leftarrow> load_u64 fourth_pointer s;
       (if entry_address e = 0
        then do {
          s \<leftarrow> update_entry (with_address frame) fourth_pointer s;
          s \<leftarrow> update_entry (with_flags 1) fourth_pointer s;
          Some (1, s)
        }
        else Some (0, s))
     }"

text \<open>The loop of \<open>vm_map\<close> with \<open>n\<close> rounds left; \<open>page\<close> grows by \<open>i\<close> in round \<open>i\<close>.\<close>
primrec vm_map_loop ::
    "('a vm_state_scheme \<Rightarrow> (u64 \<times> 'a vm_state_scheme) option) \<Rightarrow> nat \<Rightarrow> nat \<Rightarrow> u64 \<Rightarrow> u64 \<Rightarrow> 'a vm_state_scheme \<Rightarrow> (int \<times> 'a vm_state_scheme) option" where
  "vm_map_loop new_node 0 i page frame s = Some (1, s)"
| "vm_map_loop new_node (Suc n) i page frame s =
     do {
       let page = page + of_nat i;
       (r, s) \<leftarrow> vm_map_page new_node page frame s;
       (if r = 0 then Some (0, s) else vm_map_loop new_node n (Suc i) page frame s)
     }"

text \<open>The argument \<open>flags\<close> is not used.\<close>
definition vm_map ::
    "('a vm_state_scheme \<Rightarrow> (u64 \<times> 'a vm_state_scheme) option) \<Rightarrow> u64 \<Rightarrow> u64 \<Rightarrow> int \<Rightarrow> u16 \<Rightarrow> 'a vm_state_scheme \<Rightarrow> (int \<times> 'a vm_state_scheme) option" where
  "vm_map new_node page frame number flags s =
     (if page = 0 then Some (0, s)
      else do {
        s \<leftarrow> (if table_root s = 0 then do { (root, s) \<leftarrow> make_node s; Some (s\<lparr>table_root := root\<rparr>) } else Some s);
        vm_map_loop new_node (nat number) 0 page frame s
      })"

definition vm_find :: "u64 \<Rightarrow> 'a vm_state_scheme \<Rightarrow> u64 option" where
  "vm_find page s =
     (if page = 0 then Some 0
      else do {
        first \<leftarrow> load_u64 (table_root s + table_index page 0) s;
        (if entry_address first = 0 then Some 0
         else do {
           second \<leftarrow> load_u64 (entry_address first + table_index page 1) s;
           (if entry_address second = 0 then Some 0
            else do {
              third \<leftarrow> load_u64 (entry_address second + table_index page 2) s;
              (if entry_address third = 0 then Some 0
               else do {
                 let fourth_pointer = entry_address third + table_index page 3;
                 fourth \<leftarrow> load_u64 fourth_pointer s;
                 Some (if entry_flags fourth = 1 then fourth_pointer else 0)
               })
            })
         })
      })"

primrec vm_unmap_loop :: "nat \<Rightarrow> nat \<Rightarrow> u64 \<Rightarrow> 'a vm_state_scheme \<Rightarrow> (int \<times> 'a vm_state_scheme) option" where
  "vm_unmap_loop 0 i page s = Some (0, s)"
| "vm_unmap_loop (Suc n) i page s =
     do {
       let page = page + of_nat i;
       last_pointer \<leftarrow> vm_find page s;
       e \<leftarrow> load_u64 last_pointer s;
       (if entry_flags e = 1 then do { s \<leftarrow> update_entry (with_flags 0) last_pointer s; Some (1, s) }
        else vm_unmap_loop n (Suc i) page s)
     }"

definition vm_unmap :: "u64 \<Rightarrow> int \<Rightarrow> 'a vm_state_scheme \<Rightarrow> (int \<times> 'a vm_state_scheme) option" where
  "vm_unmap page number s = (if page = 0 then Some (0, s) else vm_unmap_loop (nat number) 0 page s)"

text \<open>
  The \<open>int\<close> variable \<open>i\<close> is always at most \<open>pow(2, 36)\<close>, so the loop can only end by
  returning, or by the undefined increment of \<open>INT_MAX\<close>.
\<close>
function vm_locate_loop :: "int \<Rightarrow> int \<Rightarrow> int \<Rightarrow> 'a vm_state_scheme \<Rightarrow> u64 option" where
  "vm_locate_loop i counter number s =
     (if i < 2 ^ 31 then
        do {
          current_page \<leftarrow> vm_find (word_of_int i) s;
          e \<leftarrow> load_u64 current_page s;
          (if entry_flags e = 0 \<and> counter = number then Some (word_of_int i)
           else vm_locate_loop (i + 1) (if entry_flags e = 0 then counter + 1 else 0) number s)
        }
      else None)"
  by pat_completeness auto
termination by (relation "measure (\<lambda>(i, c, n, s). nat (2 ^ 31 - i))") auto

declare vm_locate_loop.simps [simp del]

definition vm_locate :: "int \<Rightarrow> 'a vm_state_scheme \<Rightarrow> u64 option" where
  "vm_locate number s = vm_locate_loop 1 0 number s"

definition vm_translate :: "u64 \<Rightarrow> 'a vm_state_scheme \<Rightarrow> u64 option" where
  "vm_translate virtual_address s =
     do {
       let virtual_page_number = drop_bit 12 virtual_address;
       let offset = virtual_address AND 0xFFF;
       physical_page_number \<leftarrow> vm_find virtual_page_number s;
       (if physical_page_number = 0 then Some (-1)
        else do {
          e \<leftarrow> load_u64 physical_page_number s;
          Some (push_bit 12 (entry_address e) OR offset)
        })
     }"

section \<open>Entries\<close>

lemma entry_flags_bit: "bit e (55 + n) \<Longrightarrow> n < 9" for e :: u64
  using bit_imp_le_length [of e "55 + n"] by simp

lemma entry_simps [simp]:
  "entry_address (with_address v e) = take_bit 52 v" "entry_flags (with_address v e) = entry_flags e"
  "entry_address (with_flags v e) = entry_address e" "entry_flags (with_flags v e) = take_bit 9 v"
  "entry_address 0 = 0" "entry_flags 0 = 0"
  unfolding entry_address_def entry_flags_def with_address_def with_flags_def
  by (auto intro!: bit_word_eqI simp: bit_simps dest: entry_flags_bit)

lemma table_index_less: "unat (table_index page level) < 512"
proof -
  have "drop_bit (9 * level) page AND 0x1FF = take_bit 9 (drop_bit (9 * level) page)"
    by (simp add: take_bit_eq_mask mask_eq_exp_minus_1 and.commute)
  then show ?thesis
    using take_bit_nat_less_exp [of 9 "unat (drop_bit (9 * level) page)"]
    by (simp add: table_index_def unsigned_take_bit_eq)
qed

text \<open>\<open>FRAME_ADDRESS\<close>, and the bytes at a small offset in a frame.\<close>

definition frame_address :: "'a vm_state_scheme \<Rightarrow> nat \<Rightarrow> u64" where
  "frame_address s f = memory_base s + of_nat (4096 * f)"

text \<open>The array lies in the lower half of the address space, behind address 0.\<close>
definition memory_ok :: "'a vm_state_scheme \<Rightarrow> bool" where
  "memory_ok s \<longleftrightarrow> 0x10000 \<le> unat (memory_base s) \<and> unat (memory_base s) + MEMORY_SIZE < 2 ^ 47"

lemma unat_frame_address:
  assumes "memory_ok s" "4096 * f + k < MEMORY_SIZE"
  shows "unat (frame_address s f + of_nat k) = unat (memory_base s) + 4096 * f + k"
proof -
  let ?n = "unat (memory_base s) + 4096 * f + k"
  have "frame_address s f + of_nat k = of_nat ?n" by (simp add: frame_address_def)
  moreover have "?n < 18446744073709551616" using assms by (simp add: memory_ok_def)
  ultimately show ?thesis by (simp only: unat_of_nat_u64)
qed

lemma offset_of_frame:
  assumes "memory_ok s" "f < NUM_FRAMES" "k + n \<le> 4096" "0 < n"
  shows "offset_of n (frame_address s f + of_nat k) s = Some (4096 * f + k)"
proof -
  have less: "4096 * f + k < MEMORY_SIZE" "4096 * f + k + n \<le> MEMORY_SIZE" using assms(2-4) by simp_all
  note u = unat_frame_address [OF assms(1) less(1)]
  have "memory_base s \<le> frame_address s f + of_nat k" by (simp add: word_le_nat_alt u)
  then show ?thesis using less(2) by (simp add: offset_of_def u)
qed

end
