(* ===== verification/Translation_Map.thy ===== *)
theory Translation_Map imports Translation begin

text \<open>
  Mapping a page in a table that has no entry for it yet, for any source of new tables that
  keeps the contract of the frame allocator, and what the walk finds afterwards.
\<close>

section \<open>A source of new tables\<close>

definition free_frames :: "'a vm_state_scheme \<Rightarrow> nat" where
  "free_frames s = card {g. g < NUM_FRAMES \<and> \<not> frame_used s g}"

lemma free_frames_take:
  assumes "g < NUM_FRAMES" "\<not> frame_used s g" "frame_used s' = (frame_used s)(g := True)"
  shows "Suc (free_frames s') = free_frames s"
proof -
  let ?A = "{h. h < NUM_FRAMES \<and> \<not> frame_used s h}"
  have "{h. h < NUM_FRAMES \<and> \<not> frame_used s' h} = ?A - {g}" using assms(3) by auto
  moreover have "card ?A = Suc (card (?A - {g}))" by (rule card.remove) (use assms(1,2) in auto)
  ultimately show ?thesis by (simp only: free_frames_def)
qed

lemma free_frame_exists:
  assumes "0 < free_frames s"
  obtains g where "g < NUM_FRAMES" "\<not> frame_used s g"
proof -
  from assms have "{g. g < NUM_FRAMES \<and> \<not> frame_used s g} \<noteq> {}" unfolding free_frames_def by (metis card.empty less_irrefl)
  then show thesis using that by blast
qed

text \<open>What a new table is: a frame that was not used before, marked as used and zeroed.\<close>
definition fresh_table :: "nat \<Rightarrow> 'a vm_state_scheme \<Rightarrow> 'a vm_state_scheme \<Rightarrow> bool" where
  "fresh_table g s s' \<longleftrightarrow> g < NUM_FRAMES \<and> \<not> frame_used s g \<and> frame_used s' = (frame_used s)(g := True) \<and>
     memory s' = memset (memory s) (4096 * g) 0 4096 \<and> memory_base s' = memory_base s \<and> table_root s' = table_root s"

locale table_source =
  fixes new_node :: "'a vm_state_scheme \<Rightarrow> (u64 \<times> 'a vm_state_scheme) option"
  assumes new_node: "memory_ok s \<Longrightarrow> 0 < free_frames s \<Longrightarrow>
    \<exists>g s'. new_node s = Some (frame_address s g, s') \<and> fresh_table g s s'"

lemma memory_ok_cong: "memory_base s' = memory_base s \<Longrightarrow> memory_ok s' = memory_ok s"
  by (simp add: memory_ok_def)

lemma frame_address_cong: "memory_base s' = memory_base s \<Longrightarrow> frame_address s' f = frame_address s f"
  by (simp add: frame_address_def)

lemma frame_used_memory [simp]: "frame_used (s\<lparr>memory := m\<rparr>) = frame_used s" "frame_used (s\<lparr>table_root := r\<rparr>) = frame_used s"
  by (simp_all add: frame_used_def fun_eq_iff)

lemma make_node_ok:
  assumes ok: "memory_ok s" and free: "0 < free_frames s"
  obtains g s' where "make_node s = Some (frame_address s g, s')" "fresh_table g s s'"
proof (cases rule: allocate_one_cases [of s])
  case (got g)
  define s1 where "s1 = after_allocation g 1 s"
  have keep: "memory s1 = memory s" "memory_base s1 = memory_base s" "table_root s1 = table_root s"
    by (simp_all add: s1_def after_allocation_def with_frame_def)
  have alloc: "allocate_frame 1 s = Some (int g, s1)" using got(1) by (simp only: s1_def)
  have addr: "memory_base s1 + word_of_int (int g) * 4096 = frame_address s g"
    unfolding keep frame_address_def by (simp add: mult.commute)
  have "offset_of 4096 (frame_address s1 g + of_nat 0) s1 = Some (4096 * g + 0)"
    by (rule offset_of_frame) (use ok got(2) memory_ok_cong [OF keep(2)] in simp_all)
  then have off: "offset_of 4096 (frame_address s g) s1 = Some (4096 * g)"
    unfolding frame_address_cong [OF keep(2)] by simp
  let ?s2 = "s1\<lparr>memory := memset (memory s) (4096 * g) 0 4096\<rparr>"
  have "make_node s = Some (frame_address s g, ?s2)"
    using alloc off addr by (simp add: make_node_def keep(1) Let_def)
  moreover have "fresh_table g s ?s2"
    using got(2,3) keep frame_used_after_allocation [OF got(2), of 1 s]
    by (simp add: fresh_table_def s1_def)
  ultimately show thesis by (rule that)
next
  case none
  from free obtain g where "g < NUM_FRAMES" "\<not> frame_used s g" by (rule free_frame_exists)
  with none(2) show thesis by blast
qed

interpretation tables: table_source make_node
proof unfold_locales
  fix s :: "'a vm_state_scheme" assume "memory_ok s" "0 < free_frames s"
  then obtain g s' where "make_node s = Some (frame_address s g, s')" "fresh_table g s s'" by (rule make_node_ok)
  then show "\<exists>g s'. make_node s = Some (frame_address s g, s') \<and> fresh_table g s s'" by blast
qed

section \<open>Entries of tables\<close>

text \<open>The entry at byte \<open>k\<close> of the table in frame \<open>f\<close>.\<close>
definition table_entry :: "'a vm_state_scheme \<Rightarrow> nat \<Rightarrow> nat \<Rightarrow> u64" where
  "table_entry s f k = get_u64 (memory s) (4096 * f + k)"

abbreviation entry_pointer :: "'a vm_state_scheme \<Rightarrow> nat \<Rightarrow> nat \<Rightarrow> u64" where
  "entry_pointer s f k \<equiv> frame_address s f + of_nat k"

lemma load_table_entry:
  assumes "memory_ok s" "f < NUM_FRAMES" "k < 512"
  shows "load_u64 (entry_pointer s f k) s = Some (table_entry s f k)"
  using offset_of_frame [OF assms(1,2), of k 8] assms(3) by (simp add: load_u64_def table_entry_def)

lemma update_table_entry:
  assumes "memory_ok s" "f < NUM_FRAMES" "k < 512"
  shows "update_entry h (entry_pointer s f k) s = Some (s\<lparr>memory := put_u64 (memory s) (4096 * f + k) (h (table_entry s f k))\<rparr>)"
  using load_table_entry [OF assms] offset_of_frame [OF assms(1,2), of k 8] assms(3)
  by (simp add: update_entry_def store_u64_def)

text \<open>Entries in different frames do not overlap; a zeroed frame has only zero entries.\<close>

lemma frames_apart:
  fixes f g :: nat
  assumes "f \<noteq> g" "k < 512" "j < 512"
  shows "4096 * f + k + 8 \<le> 4096 * g + j \<or> 4096 * g + j + 8 \<le> 4096 * f + k"
proof -
  consider "f < g" | "g < f" using assms(1) by linarith
  then show ?thesis
  proof cases
    case 1
    then have "Suc f \<le> g" by simp
    with assms(2) show ?thesis by linarith
  next
    case 2
    then have "Suc g \<le> f" by simp
    with assms(3) show ?thesis by linarith
  qed
qed

lemma get_u64_zero: "(\<And>i. i < 8 \<Longrightarrow> b (off + i) = 0) \<Longrightarrow> get_u64 b off = 0"
  by (rule bit_word_eqI) (simp add: bit_get_u64)

lemma table_entry_fresh:
  assumes "fresh_table g s s'"
  shows "k < 512 \<Longrightarrow> table_entry s' g k = 0" "k < 512 \<Longrightarrow> f \<noteq> g \<Longrightarrow> table_entry s' f k = table_entry s f k"
proof -
  show "table_entry s' g k = 0" if "k < 512"
    unfolding table_entry_def by (rule get_u64_zero) (use assms that in \<open>simp add: fresh_table_def memset_def\<close>)
  show "table_entry s' f k = table_entry s f k" if "k < 512" "f \<noteq> g"
  proof -
    have "4096 * f + k + i < 4096 * g \<or> 4096 * g + 4096 \<le> 4096 * f + k + i" if "i < 8" for i
    proof -
      consider "Suc f \<le> g" | "Suc g \<le> f" using \<open>f \<noteq> g\<close> by linarith
      then show ?thesis using \<open>k < 512\<close> that by cases linarith+
    qed
    then show ?thesis
      unfolding table_entry_def using assms by (intro get_u64_cong) (auto simp: fresh_table_def)
  qed
qed

lemma table_entry_put:
  assumes "k < 512" "j < 512"
  shows "table_entry (s\<lparr>memory := put_u64 (memory s) (4096 * f + k) v\<rparr>) f k = v"
    "f \<noteq> g \<Longrightarrow> table_entry (s\<lparr>memory := put_u64 (memory s) (4096 * f + k) v\<rparr>) g j = table_entry s g j"
proof -
  show "table_entry (s\<lparr>memory := put_u64 (memory s) (4096 * f + k) v\<rparr>) f k = v" by (simp add: table_entry_def)
  assume "f \<noteq> g"
  from frames_apart [OF this assms]
  show "table_entry (s\<lparr>memory := put_u64 (memory s) (4096 * f + k) v\<rparr>) g j = table_entry s g j"
    unfolding table_entry_def by (simp add: get_put_u64_other)
qed

lemma put_put_u64 [simp]: "put_u64 (put_u64 b off v) off w = put_u64 b off w"
  by (rule ext) (simp add: put_u64_def)

text \<open>The address of a frame fits into the 52 bits of an entry and is not NULL.\<close>

lemma frame_address_entry:
  assumes "memory_ok s" "f < NUM_FRAMES"
  shows "take_bit 52 (frame_address s f) = frame_address s f" "frame_address s f \<noteq> 0"
proof -
  have u: "unat (frame_address s f) = unat (memory_base s) + 4096 * f"
    using unat_frame_address [OF assms(1), of f 0] assms(2) by simp
  then have "unat (frame_address s f) < 2 ^ 52" using assms by (simp add: memory_ok_def)
  then show "take_bit 52 (frame_address s f) = frame_address s f"
    by (metis take_bit_nat_eq_self unsigned_take_bit_eq word_unat_eq_iff)
  show "frame_address s f \<noteq> 0" using u assms(1) by (auto simp: memory_ok_def)
qed

text \<open>What an overlapping read at byte \<open>j\<close> sees after a write at byte \<open>k\<close> of the same frame.\<close>
definition entry_beside :: "buf \<Rightarrow> nat \<Rightarrow> nat \<Rightarrow> u64 \<Rightarrow> nat \<Rightarrow> u64" where
  "entry_beside m f k v j = get_u64 (put_u64 m (4096 * f + k) v) (4096 * f + j)"

lemma entry_beside_next:
  assumes "m (4096 * f + k + 8) = 0"
  shows "entry_beside m f k v (Suc k) = drop_bit 8 v"
proof (rule bit_word_eqI)
  fix n assume "n < LENGTH(64)"
  then have n: "n < 64" by simp
  have byte: "put_u64 m (4096 * f + k) v (4096 * f + Suc k + n div 8) =
      (if n < 56 then ucast (drop_bit (8 * Suc (n div 8)) v) else 0)"
  proof (cases "n < 56")
    case True
    then have "n div 8 < 7" by (simp add: less_mult_imp_div_less)
    with True show ?thesis by (simp add: put_u64_def)
  next
    case False
    with n have "n div 8 = 7" by simp
    with False assms show ?thesis by (simp add: put_u64_def add.commute)
  qed
  have "8 * Suc (n div 8) + n mod 8 = 8 + n" by simp
  with n byte show "bit (entry_beside m f k v (Suc k)) n = bit (drop_bit 8 v) n"
    by (auto simp: entry_beside_def bit_get_u64 bit_simps add.commute [of 8 n] dest: bit_imp_le_length)
qed

lemma frames_disjoint:
  fixes f g :: nat
  assumes "f \<noteq> g" "4096 * f \<le> i" "i < 4096 * f + 4096"
  shows "i < 4096 * g \<or> 4096 * g + 4096 \<le> i"
proof -
  consider "Suc f \<le> g" | "Suc g \<le> f" using assms(1) by linarith
  then show ?thesis using assms(2,3) by cases linarith+
qed

text \<open>The walk along a path of tables that exist.\<close>

lemma vm_find_path:
  assumes ok: "memory_ok t" and page: "page \<noteq> 0" and root: "table_root t = frame_address t r"
    and frames: "r < NUM_FRAMES" "f1 < NUM_FRAMES" "f2 < NUM_FRAMES" "f3 < NUM_FRAMES"
    and path: "entry_address (table_entry t r (unat (table_index page 0))) = frame_address t f1"
      "entry_address (table_entry t f1 (unat (table_index page 1))) = frame_address t f2"
      "entry_address (table_entry t f2 (unat (table_index page 2))) = frame_address t f3"
  shows "vm_find page t = Some (if entry_flags (table_entry t f3 (unat (table_index page 3))) = 1
    then entry_pointer t f3 (unat (table_index page 3)) else 0)"
proof -
  have load: "load_u64 (frame_address t h + table_index page l) t = Some (table_entry t h (unat (table_index page l)))"
    if "h < NUM_FRAMES" for h l
    using load_table_entry [OF ok that table_index_less [of page l]] by simp
  have nonzero: "frame_address t f1 \<noteq> 0" "frame_address t f2 \<noteq> 0" "frame_address t f3 \<noteq> 0"
    using frame_address_entry(2) [OF ok] frames by simp_all
  show ?thesis
    unfolding vm_find_def root
    using page load [OF frames(1), of 0] load [OF frames(2), of 1] load [OF frames(3), of 2] load [OF frames(4), of 3] path nonzero
    by simp
qed

section \<open>Adding tables\<close>

context table_source
begin

text \<open>Following an entry without address adds a zeroed table in an unused frame.\<close>

lemma next_table_new:
  assumes ok: "memory_ok s" and f: "frame_used s f" "k < 512" and none: "entry_address (table_entry s f k) = 0"
    and free: "0 < free_frames s"
  obtains g s' where "next_table new_node (entry_pointer s f k) s = Some (frame_address s g, s')"
    "g < NUM_FRAMES" "\<not> frame_used s g" "frame_used s' = (frame_used s)(g := True)"
    "memory_base s' = memory_base s" "table_root s' = table_root s"
    "entry_address (table_entry s' f k) = frame_address s g"
    "\<And>j. j < 512 \<Longrightarrow> table_entry s' g j = 0"
    "\<And>h j. j < 512 \<Longrightarrow> h \<noteq> f \<Longrightarrow> h \<noteq> g \<Longrightarrow> table_entry s' h j = table_entry s h j"
    "\<And>j. j < 512 \<Longrightarrow> table_entry s' f j = entry_beside (memory s) f k (with_address (frame_address s g) (table_entry s f k)) j"
proof -
  have f1024: "f < NUM_FRAMES" by (rule frame_used_less [OF f(1)])
  from new_node [OF ok free] obtain g s1 where n: "new_node s = Some (frame_address s g, s1)" "fresh_table g s s1" by blast
  then have g: "g < NUM_FRAMES" "\<not> frame_used s g" and s1: "memory_base s1 = memory_base s" "table_root s1 = table_root s"
    "frame_used s1 = (frame_used s)(g := True)" by (simp_all add: fresh_table_def)
  have gf: "g \<noteq> f" using g(2) f(1) by auto
  have ok1: "memory_ok s1" using ok memory_ok_cong [OF s1(1)] by simp
  let ?v = "with_address (frame_address s g) (table_entry s1 f k)"
  let ?s2 = "s1\<lparr>memory := put_u64 (memory s1) (4096 * f + k) ?v\<rparr>"
  have ok2: "memory_ok ?s2" using ok1 by (simp add: memory_ok_def)
  have upd: "update_entry (with_address (frame_address s g)) (entry_pointer s f k) s1 = Some ?s2"
    using update_table_entry [OF ok1 f1024 f(2)] by (simp add: frame_address_cong [OF s1(1)])
  have ptr: "entry_pointer ?s2 f k = entry_pointer s f k" by (simp add: frame_address_def s1(1))
  have entry: "entry_address (table_entry ?s2 f k) = frame_address s g"
    using frame_address_entry(1) [OF ok g(1)] by (simp add: table_entry_put(1) [OF f(2) f(2)])
  have load: "load_u64 (entry_pointer s f k) ?s2 = Some (table_entry ?s2 f k)"
    using load_table_entry [OF ok2 f1024 f(2)] unfolding ptr .
  have "next_table new_node (entry_pointer s f k) s = Some (frame_address s g, ?s2)"
    unfolding next_table_def load_table_entry [OF ok f1024 f(2)]
    using none n(1) upd load entry by simp
  then show thesis
  proof (rule that [OF _ g])
    show "table_entry ?s2 g j = 0" if "j < 512" for j
      using gf that table_entry_fresh(1) [OF n(2) that] by (simp add: table_entry_put(2) [OF f(2) that])
    show "table_entry ?s2 h j = table_entry s h j" if "j < 512" "h \<noteq> f" "h \<noteq> g" for h j
      using table_entry_fresh(2) [OF n(2) that(1), of h] that(2,3) by (simp add: table_entry_put(2) [OF f(2) that(1)])
    show "table_entry ?s2 f j = entry_beside (memory s) f k (with_address (frame_address s g) (table_entry s f k)) j"
      if "j < 512" for j
    proof -
      have v: "table_entry s1 f k = table_entry s f k" using table_entry_fresh(2) [OF n(2) f(2), of f] gf by simp
      have "memory s1 i = memory s i" if "4096 * f \<le> i" "i < 4096 * f + 4096" for i
        using frames_disjoint [OF gf [symmetric] that] n(2) by (auto simp: fresh_table_def)
      then have "get_u64 (put_u64 (memory s1) (4096 * f + k) v) (4096 * f + j) = get_u64 (put_u64 (memory s) (4096 * f + k) v) (4096 * f + j)" for v
        using that by (intro get_u64_cong) (auto simp: put_u64_def)
      then show ?thesis by (simp add: table_entry_def entry_beside_def v [unfolded table_entry_def])
    qed
  qed (use s1 entry in simp_all)
qed

text \<open>Below an empty first-level entry, the walk of a page adds three tables.\<close>

lemma three_tables_new:
  fixes page :: u64
  defines "k l \<equiv> unat (table_index page l)"
  assumes ok: "memory_ok s" and root: "frame_used s r" "table_root s = frame_address s r"
    and none: "entry_address (table_entry s r (k 0)) = 0" and free: "3 \<le> free_frames s"
  obtains f1 f2 f3 s1 s2 s3 where "next_table new_node (table_root s + table_index page 0) s = Some (frame_address s f1, s1)"
    "next_table new_node (frame_address s f1 + table_index page 1) s1 = Some (frame_address s f2, s2)"
    "next_table new_node (frame_address s f2 + table_index page 2) s2 = Some (frame_address s f3, s3)"
    "memory_base s3 = memory_base s" "table_root s3 = table_root s"
    "f1 < NUM_FRAMES" "f2 < NUM_FRAMES" "f3 < NUM_FRAMES" "f3 \<notin> {r, f1, f2}"
    "entry_address (table_entry s3 r (k 0)) = frame_address s f1"
    "entry_address (table_entry s3 f1 (k 1)) = frame_address s f2"
    "entry_address (table_entry s3 f2 (k 2)) = frame_address s f3"
    "\<And>j. j < 512 \<Longrightarrow> table_entry s3 f3 j = 0"
    "\<And>j. j < 512 \<Longrightarrow> table_entry s3 r j =
      entry_beside (memory s) r (k 0) (with_address (frame_address s f1) (table_entry s r (k 0))) j"
proof -
  have k: "k l < 512" for l by (simp add: k_def table_index_less)
  have idx: "of_nat (k l) = table_index page l" for l by (simp add: k_def)
  have free1: "0 < free_frames s" using free by simp
  obtain f1 s1 where s1: "next_table new_node (entry_pointer s r (k 0)) s = Some (frame_address s f1, s1)"
    "f1 < NUM_FRAMES" "\<not> frame_used s f1" "frame_used s1 = (frame_used s)(f1 := True)"
    "memory_base s1 = memory_base s" "table_root s1 = table_root s"
    "entry_address (table_entry s1 r (k 0)) = frame_address s f1" "\<And>j. j < 512 \<Longrightarrow> table_entry s1 f1 j = 0"
    "\<And>j. j < 512 \<Longrightarrow> table_entry s1 r j = entry_beside (memory s) r (k 0) (with_address (frame_address s f1) (table_entry s r (k 0))) j"
    by (rule next_table_new [OF ok root(1) k none free1]) (rule that)
  have base1: "frame_address s1 f = frame_address s f" for f by (rule frame_address_cong [OF s1(5)])
  have ok1: "memory_ok s1" using ok memory_ok_cong [OF s1(5)] by simp
  have free2: "0 < free_frames s1" using free_frames_take [OF s1(2-4)] free by simp
  obtain f2 s2 where s2: "next_table new_node (entry_pointer s1 f1 (k 1)) s1 = Some (frame_address s1 f2, s2)"
    "f2 < NUM_FRAMES" "\<not> frame_used s1 f2" "frame_used s2 = (frame_used s1)(f2 := True)"
    "memory_base s2 = memory_base s1" "table_root s2 = table_root s1"
    "entry_address (table_entry s2 f1 (k 1)) = frame_address s1 f2" "\<And>j. j < 512 \<Longrightarrow> table_entry s2 f2 j = 0"
    "\<And>h j. j < 512 \<Longrightarrow> h \<noteq> f1 \<Longrightarrow> h \<noteq> f2 \<Longrightarrow> table_entry s2 h j = table_entry s1 h j"
    by (rule next_table_new [OF ok1 _ k _ free2, of f1 1]) (use s1(4,8) k in simp, use s1(8) k in simp, rule that)
  have base2: "frame_address s2 f = frame_address s f" for f
    using frame_address_cong [OF s2(5)] base1 by simp
  have ok2: "memory_ok s2" using ok1 memory_ok_cong [OF s2(5)] by simp
  have free3: "0 < free_frames s2"
    using free_frames_take [OF s1(2-4)] free_frames_take [OF s2(2-4)] free by simp
  obtain f3 s3 where s3: "next_table new_node (entry_pointer s2 f2 (k 2)) s2 = Some (frame_address s2 f3, s3)"
    "f3 < NUM_FRAMES" "\<not> frame_used s2 f3" "frame_used s3 = (frame_used s2)(f3 := True)"
    "memory_base s3 = memory_base s2" "table_root s3 = table_root s2"
    "entry_address (table_entry s3 f2 (k 2)) = frame_address s2 f3" "\<And>j. j < 512 \<Longrightarrow> table_entry s3 f3 j = 0"
    "\<And>h j. j < 512 \<Longrightarrow> h \<noteq> f2 \<Longrightarrow> h \<noteq> f3 \<Longrightarrow> table_entry s3 h j = table_entry s2 h j"
    by (rule next_table_new [OF ok2 _ k _ free3, of f2 2]) (use s2(4,8) k in simp, use s2(8) k in simp, rule that)
  have diff: "f1 \<noteq> r" "f2 \<noteq> r" "f3 \<noteq> r" "f2 \<noteq> f1" "f3 \<noteq> f1" "f3 \<noteq> f2"
    using s1(3) s2(3) s3(3) root(1) unfolding s1(4) s2(4) by (auto split: if_splits)
  show thesis
  proof (rule that)
    show "next_table new_node (table_root s + table_index page 0) s = Some (frame_address s f1, s1)"
      using s1(1) unfolding root(2) idx .
    show "next_table new_node (frame_address s f1 + table_index page 1) s1 = Some (frame_address s f2, s2)"
      using s2(1) unfolding base1 idx .
    show "next_table new_node (frame_address s f2 + table_index page 2) s2 = Some (frame_address s f3, s3)"
      using s3(1) unfolding base2 idx .
    show "entry_address (table_entry s3 r (k 0)) = frame_address s f1" "entry_address (table_entry s3 f1 (k 1)) = frame_address s f2"
      "entry_address (table_entry s3 f2 (k 2)) = frame_address s f3"
      using s3(9) [OF k] s2(9) [OF k] s1(7) s2(7) s3(7) diff base1 base2 by simp_all
    show "table_entry s3 r j = entry_beside (memory s) r (k 0) (with_address (frame_address s f1) (table_entry s r (k 0))) j"
      if "j < 512" for j
      using s3(9) [OF that] s2(9) [OF that] s1(9) [OF that] diff by simp
  qed (use s1 s2 s3 diff in simp_all)
qed

text \<open>
  Mapping a page whose first-level entry is empty: three tables are added, and the walk
  for the page ends at an entry with the frame and the flag.
\<close>

lemma vm_map_page_new:
  assumes ok: "memory_ok s" and root: "frame_used s r" "table_root s = frame_address s r"
    and none: "entry_address (table_entry s r (unat (table_index page 0))) = 0" and free: "3 \<le> free_frames s"
  obtains f s' where "vm_map_page new_node page frame s = Some (1, s')" "memory_base s' = memory_base s"
    "table_root s' = table_root s" "f < NUM_FRAMES"
    "page \<noteq> 0 \<Longrightarrow> vm_find page s' = Some (entry_pointer s f (unat (table_index page 3)))"
    "entry_address (table_entry s' f (unat (table_index page 3))) = take_bit 52 frame"
    "entry_flags (table_entry s' f (unat (table_index page 3))) = 1"
    "entry_address (table_entry s' r (unat (table_index page 0))) \<noteq> 0" "f \<noteq> r"
    "\<And>t v. page \<noteq> 0 \<Longrightarrow> memory_base (t :: 'a vm_state_scheme) = memory_base s \<Longrightarrow> table_root t = table_root s \<Longrightarrow>
      memory t = put_u64 (memory s') (4096 * f + unat (table_index page 3)) v \<Longrightarrow> entry_flags v \<noteq> 1 \<Longrightarrow>
      vm_find page t = Some 0"
    "\<exists>g < NUM_FRAMES. \<forall>j < 512. table_entry s' r j = entry_beside (memory s) r (unat (table_index page 0))
      (with_address (frame_address s g) (table_entry s r (unat (table_index page 0)))) j"
proof -
  let ?k = "\<lambda>l. unat (table_index page l)"
  note k = table_index_less [of page]
  obtain f1 f2 f3 s1 s2 s3 where new: "next_table new_node (table_root s + table_index page 0) s = Some (frame_address s f1, s1)"
    "next_table new_node (frame_address s f1 + table_index page 1) s1 = Some (frame_address s f2, s2)"
    "next_table new_node (frame_address s f2 + table_index page 2) s2 = Some (frame_address s f3, s3)"
    "memory_base s3 = memory_base s" "table_root s3 = table_root s"
    "f1 < NUM_FRAMES" "f2 < NUM_FRAMES" "f3 < NUM_FRAMES" "f3 \<notin> {r, f1, f2}"
    "entry_address (table_entry s3 r (?k 0)) = frame_address s f1"
    "entry_address (table_entry s3 f1 (?k 1)) = frame_address s f2"
    "entry_address (table_entry s3 f2 (?k 2)) = frame_address s f3"
    "\<And>j. j < 512 \<Longrightarrow> table_entry s3 f3 j = 0"
    "\<And>j. j < 512 \<Longrightarrow> table_entry s3 r j =
      entry_beside (memory s) r (?k 0) (with_address (frame_address s f1) (table_entry s r (?k 0))) j"
    by (rule three_tables_new [OF ok root none free]) (rule that)
  have ok3: "memory_ok s3" using ok memory_ok_cong [OF new(4)] by simp
  let ?i = "4096 * f3 + ?k 3" and ?v = "with_flags 1 (with_address frame 0)"
  let ?s4 = "s3\<lparr>memory := put_u64 (memory s3) ?i (with_address frame 0)\<rparr>"
  have ok4: "memory_ok ?s4" using ok3 by (simp add: memory_ok_def)
  have e4: "table_entry ?s4 f3 (?k 3) = with_address frame 0" by (rule table_entry_put(1) [OF k k])
  let ?s5 = "?s4\<lparr>memory := put_u64 (memory ?s4) ?i ?v\<rparr>"
  have e5: "table_entry ?s5 f3 (?k 3) = ?v" by (rule table_entry_put(1) [OF k k])
  have ptr: "entry_pointer t f3 (?k 3) = frame_address s f3 + table_index page 3" if "memory_base t = memory_base s" for t :: "'a vm_state_scheme"
    using frame_address_cong [OF that, of f3] by simp
  have "update_entry (with_address frame) (frame_address s f3 + table_index page 3) s3 = Some ?s4"
    "update_entry (with_flags 1) (frame_address s f3 + table_index page 3) ?s4 = Some ?s5"
    "load_u64 (frame_address s f3 + table_index page 3) s3 = Some 0"
    using update_table_entry [where h = "with_address frame", OF ok3 new(8) k [of 3]]
      update_table_entry [where h = "with_flags 1", OF ok4 new(8) k [of 3]] load_table_entry [OF ok3 new(8) k [of 3]]
      ptr [of s3] ptr [of ?s4] new(4)
    unfolding e4 new(13) [OF k] by simp_all
  with new(1-3) have map: "vm_map_page new_node page frame s = Some (1, ?s5)"
    by (simp add: vm_map_page_def)
  have other: "table_entry ?s5 h j = table_entry s3 h j" if "j < 512" "h \<noteq> f3" for h j
    using that(2) by (simp add: table_entry_put(2) [OF k that(1)])
  text \<open>The walk, in a state that differs at most in the last entry.\<close>
  have walk: "vm_find page t = Some (if entry_flags (table_entry t f3 (?k 3)) = 1 then entry_pointer s f3 (?k 3) else 0)"
    if t: "page \<noteq> 0" "memory_base t = memory_base s" "table_root t = table_root s"
      "\<And>h j. j < 512 \<Longrightarrow> h \<noteq> f3 \<Longrightarrow> table_entry t h j = table_entry ?s5 h j" for t :: "'a vm_state_scheme"
  proof -
    have same: "table_entry t h (?k l) = table_entry s3 h (?k l)" if "h \<noteq> f3" for h l
      using t(4) [OF k that] other [OF k that] by simp
    have "memory_ok t" using ok memory_ok_cong [OF t(2)] by simp
    from vm_find_path [OF this t(1), of r f1 f2 f3] show ?thesis
      using same [of r 0] same [of f1 1] same [of f2 2] new(6-12) frame_used_less [OF root(1)] t(3) root(2)
        frame_address_cong [OF t(2)] by simp
  qed
  show thesis
  proof (rule that [of ?s5 f3, OF map])
    show "page \<noteq> 0 \<Longrightarrow> vm_find page ?s5 = Some (entry_pointer s f3 (?k 3))"
      using walk [of ?s5] e5 new(4,5) by simp
    show "vm_find page t = Some 0" if "page \<noteq> 0" "memory_base t = memory_base s" "table_root t = table_root s"
      "memory t = put_u64 (memory ?s5) ?i v" "entry_flags v \<noteq> 1" for t :: "'a vm_state_scheme" and v
    proof -
      have "table_entry t h j = table_entry ?s5 h j" if "j < 512" "h \<noteq> f3" for h j
        using frames_apart [of f3 h "?k 3" j] k that \<open>memory t = _\<close>
        by (simp add: table_entry_def get_put_u64_other)
      moreover have "table_entry t f3 (?k 3) = v" by (simp add: table_entry_def \<open>memory t = _\<close>)
      ultimately show ?thesis using walk [OF that(1-3)] that(5) by simp
    qed
    have "table_entry ?s5 r j = entry_beside (memory s) r (?k 0) (with_address (frame_address s f1) (table_entry s r (?k 0))) j"
      if "j < 512" for j
      using other [OF that] new(9) new(14) [OF that] by simp
    with new(6) show "\<exists>g < NUM_FRAMES. \<forall>j < 512. table_entry ?s5 r j = entry_beside (memory s) r (?k 0)
        (with_address (frame_address s g) (table_entry s r (?k 0))) j" by blast
    show "entry_address (table_entry ?s5 r (?k 0)) \<noteq> 0"
      using other [OF k] new(9,10) frame_address_entry(2) [OF ok new(6)] by simp
  qed (use e5 new(4,5,8,9) in simp_all)
qed

end

end
