(* ===== verification/Translation_Properties.thy ===== *)
theory Translation_Properties imports Translation_Map begin

text \<open>The properties of the page tables.\<close>

lemma take_bit_less: "unat w < 2 ^ n \<Longrightarrow> take_bit n w = w" for w :: u64
  by (metis take_bit_nat_eq_self unsigned_take_bit_eq word_unat_eq_iff)

lemma pages_of_address:
  fixes page frame off :: u64
  assumes "unat page < 2 ^ 36" "unat frame < 2 ^ 40" "unat off < 2 ^ 12"
  shows "drop_bit 12 (push_bit 12 page OR off) = page" "(push_bit 12 page OR off) AND 0xFFF = off"
    "take_bit 52 frame = frame"
proof -
  have p: "n < 36" if "bit page n" for n
    using that take_bit_less [OF assms(1)] by (metis bit_take_bit_iff)
  have o: "n < 12" if "bit off n" for n
    using that take_bit_less [OF assms(3)] by (metis bit_take_bit_iff)
  show "drop_bit 12 (push_bit 12 page OR off) = page"
  proof (rule bit_word_eqI)
    fix n assume "n < LENGTH(64)"
    have "\<not> bit off (12 + n)" using o [of "12 + n"] by auto
    moreover have "bit page n \<Longrightarrow> 12 + n < 64" using p [of n] by simp
    ultimately show "bit (drop_bit 12 (push_bit 12 page OR off)) n = bit page n"
      by (auto simp: bit_simps)
  qed
  have m: "w AND 0xFFF = take_bit 12 w" for w :: u64
    by (simp add: take_bit_eq_mask mask_eq_exp_minus_1)
  show "(push_bit 12 page OR off) AND 0xFFF = off" unfolding m
  proof (rule bit_word_eqI)
    fix n assume "n < LENGTH(64)"
    then show "bit (take_bit 12 (push_bit 12 page OR off)) n = bit off n"
      using o [of n] by (auto simp: bit_simps)
  qed
  have "unat frame < 2 ^ 52" using assms(2) by simp
  then show "take_bit 52 frame = frame" by (rule take_bit_less)
qed

text \<open>The next page has the next index in the first table.\<close>

lemma table_index_next:
  assumes "page AND 0x1FF \<noteq> 0x1FF"
  shows "table_index (page + 1) 0 = table_index page 0 + 1" "Suc (unat (table_index page 0)) < 512"
proof -
  have m: "table_index w 0 = take_bit 9 w" for w
    by (simp add: table_index_def take_bit_eq_mask mask_eq_exp_minus_1)
  have "unat (table_index page 0) \<noteq> 511"
    using assms by (auto simp: table_index_def word_unat_eq_iff)
  with table_index_less [of page 0] show less: "Suc (unat (table_index page 0)) < 512" by linarith
  have u: "unat (table_index w 0) = unat w mod 512" for w
    unfolding m by (simp add: take_bit_eq_mod unat_mod)
  have "unat (page + 1) mod 512 = Suc (unat page) mod 512"
    by (simp add: unat_word_ariths mod_mod_cancel)
  also have "\<dots> = Suc (unat page mod 512)" using less by (simp add: u mod_Suc)
  finally have "unat (table_index (page + 1) 0) = unat (table_index page 0 + 1)"
    using less by (simp add: u unat_word_ariths)
  then show "table_index (page + 1) 0 = table_index page 0 + 1" by (rule word_unat_eq_iff [THEN iffD2])
qed

text \<open>The address of a frame without its lowest byte lies below the array.\<close>

lemma low_address:
  assumes ok: "memory_ok s" and g: "g < NUM_FRAMES"
  defines "d \<equiv> drop_bit 8 (frame_address s g)"
  shows "entry_address d = d" "d \<noteq> 0" "unat k < 512 \<Longrightarrow> unat (d + k) < unat (memory_base s)"
proof -
  have u: "unat (frame_address s g) = unat (memory_base s) + 4096 * g"
    using unat_frame_address [OF ok, of g 0] g by simp
  have d: "unat d = (unat (memory_base s) + 4096 * g) div 256"
    by (simp add: d_def drop_bit_eq_div unat_div u)
  have b: "65536 \<le> unat (memory_base s)" "unat (memory_base s) + 4194304 < 2 ^ 47"
    using ok by (simp_all add: memory_ok_def)
  have "unat d < 2 ^ 52" unfolding d using b g by simp
  then show "entry_address d = d" unfolding entry_address_def by (rule take_bit_less)
  have "unat d \<noteq> 0" unfolding d using b by simp
  then show "d \<noteq> 0" by auto
  show "unat (d + k) < unat (memory_base s)" if "unat k < 512"
  proof -
    have "unat d + unat k < unat (memory_base s)" unfolding d using b g that by linarith
    moreover have "unat (d + k) \<le> unat d + unat k" unfolding unat_word_ariths by (rule mod_less_eq_dividend)
    ultimately show ?thesis by linarith
  qed
qed

context table_source
begin

text \<open>Mapping one page when there is no table yet.\<close>

lemma vm_map_first:
  assumes ok: "memory_ok s" and root: "table_root s = 0" and free: "4 \<le> free_frames s" and page: "page \<noteq> 0"
  obtains r f s' s0 where "make_node s = Some (frame_address s r, s0)" "fresh_table r s s0"
    "vm_map_page new_node page frame (s0\<lparr>table_root := frame_address s r\<rparr>) = Some (1, s')"
    "\<And>n flags. vm_map new_node page frame (int (Suc n)) flags s = vm_map_loop new_node n 1 page frame s'"
    "memory_base s' = memory_base s" "table_root s' = frame_address s r" "r < NUM_FRAMES" "f < NUM_FRAMES"
    "vm_find page s' = Some (entry_pointer s f (unat (table_index page 3)))"
    "entry_address (table_entry s' f (unat (table_index page 3))) = take_bit 52 frame"
    "entry_flags (table_entry s' f (unat (table_index page 3))) = 1"
    "\<And>t v. memory_base (t :: 'a vm_state_scheme) = memory_base s \<Longrightarrow> table_root t = frame_address s r \<Longrightarrow>
      memory t = put_u64 (memory s') (4096 * f + unat (table_index page 3)) v \<Longrightarrow> entry_flags v \<noteq> 1 \<Longrightarrow>
      vm_find page t = Some 0"
    "\<exists>g < NUM_FRAMES. \<forall>j < 512. table_entry s' r j =
      entry_beside (memory s0) r (unat (table_index page 0)) (with_address (frame_address s g) 0) j"
proof -
  have free1: "0 < free_frames s" using free by simp
  obtain r s0 where r: "make_node s = Some (frame_address s r, s0)" "fresh_table r s s0"
    by (rule make_node_ok [OF ok free1]) (rule that)
  define t where "t = s0\<lparr>table_root := frame_address s r\<rparr>"
  have t: "memory_base t = memory_base s" "table_root t = frame_address s r" "frame_used t = (frame_used s)(r := True)"
    "memory t = memory s0" "r < NUM_FRAMES" "\<not> frame_used s r" using r(2) by (simp_all add: t_def fresh_table_def)
  have base: "frame_address t = frame_address s" by (rule ext) (simp add: frame_address_def t(1))
  have okt: "memory_ok t" using ok memory_ok_cong [OF t(1)] by simp
  have freet: "3 \<le> free_frames t" using free_frames_take [OF t(5,6,3)] free by simp
  have entries: "table_entry t r j = 0" if "j < 512" for j
    using table_entry_fresh(1) [OF r(2) that] by (simp add: table_entry_def t(4))
  let ?k = "\<lambda>l. unat (table_index page l)"
  obtain f s' where f: "vm_map_page new_node page frame t = Some (1, s')" "memory_base s' = memory_base t"
    "table_root s' = table_root t" "f < NUM_FRAMES"
    "page \<noteq> 0 \<Longrightarrow> vm_find page s' = Some (entry_pointer t f (?k 3))"
    "entry_address (table_entry s' f (?k 3)) = take_bit 52 frame" "entry_flags (table_entry s' f (?k 3)) = 1"
    "\<And>u v. page \<noteq> 0 \<Longrightarrow> memory_base (u :: 'a vm_state_scheme) = memory_base t \<Longrightarrow> table_root u = table_root t \<Longrightarrow>
      memory u = put_u64 (memory s') (4096 * f + ?k 3) v \<Longrightarrow> entry_flags v \<noteq> 1 \<Longrightarrow> vm_find page u = Some 0"
    "\<exists>g < NUM_FRAMES. \<forall>j < 512. table_entry s' r j = entry_beside (memory t) r (?k 0)
      (with_address (frame_address t g) (table_entry t r (?k 0))) j"
    by (rule vm_map_page_new [OF okt, of r page frame])
      (use t(2,3) base entries [OF table_index_less] freet in \<open>simp_all add: that\<close>)
  have "vm_map new_node page frame (int (Suc n)) flags s = vm_map_loop new_node n 1 page frame s'" for n flags
  proof -
    have "vm_map new_node page frame (int (Suc n)) flags s = vm_map_loop new_node (Suc n) 0 page frame t"
      using page r(1) root by (simp add: vm_map_def t_def nat_add_distrib del: vm_map_loop.simps)
    then show ?thesis using f(1) by simp
  qed
  then show thesis
    using f page
    by (intro that [OF r, of s' f]) (simp_all add: base t entries [OF table_index_less] flip: t_def)
qed

text \<open>What can be translated after one page has been mapped, and after it has been unmapped.\<close>

lemma map_unmap_first:
  assumes ok: "memory_ok s" and root: "table_root s = 0" and free: "4 \<le> free_frames s"
    and page: "page \<noteq> 0" "unat page < 2 ^ 36" and frame: "unat frame < 2 ^ 40" and off: "unat off < 2 ^ 12"
  shows "\<exists>s'. vm_map new_node page frame 1 flags s = Some (1, s') \<and>
     vm_translate (push_bit 12 page OR off) s' = Some (push_bit 12 frame OR off) \<and>
     (\<exists>s''. vm_unmap page 1 s' = Some (1, s'') \<and> vm_translate (push_bit 12 page OR off) s'' = Some (- 1))"
proof -
  note va = pages_of_address [OF page(2) frame off]
  let ?k = "unat (table_index page 3)"
  from ok root free page(1) obtain r f s' s0 where m: "\<And>n flags. vm_map new_node page frame (int (Suc n)) flags s = vm_map_loop new_node n 1 page frame s'"
    "memory_base s' = memory_base s" "table_root s' = frame_address s r" "f < NUM_FRAMES"
    "vm_find page s' = Some (entry_pointer s f ?k)" "entry_address (table_entry s' f ?k) = take_bit 52 frame"
    "entry_flags (table_entry s' f ?k) = 1"
    "\<And>t v. memory_base (t :: 'a vm_state_scheme) = memory_base s \<Longrightarrow> table_root t = frame_address s r \<Longrightarrow>
      memory t = put_u64 (memory s') (4096 * f + ?k) v \<Longrightarrow> entry_flags v \<noteq> 1 \<Longrightarrow> vm_find page t = Some 0"
    by (rule vm_map_first [where frame = frame]) (rule that)
  have ok': "memory_ok s'" using ok memory_ok_cong [OF m(2)] by simp
  have load: "load_u64 (entry_pointer s f ?k) s' = Some (table_entry s' f ?k)"
    using load_table_entry [OF ok' m(4) table_index_less] by (simp only: frame_address_cong [OF m(2)])
  let ?v = "with_flags 0 (table_entry s' f ?k)"
  let ?s'' = "s'\<lparr>memory := put_u64 (memory s') (4096 * f + ?k) ?v\<rparr>"
  have upd: "update_entry (with_flags 0) (entry_pointer s f ?k) s' = Some ?s''"
    using update_table_entry [OF ok' m(4) table_index_less] by (simp only: frame_address_cong [OF m(2)])
  have map: "vm_map new_node page frame 1 flags s = Some (1, s')" using m(1) [of 0] by simp
  have "entry_pointer s f ?k \<noteq> 0"
    using unat_frame_address [OF ok, of f ?k] m(4) table_index_less [of page 3] ok by (auto simp: memory_ok_def)
  then have "vm_translate (push_bit 12 page OR off) s' = Some (push_bit 12 frame OR off)"
    unfolding vm_translate_def using va m(5,6) load by simp
  moreover have "vm_unmap page 1 s' = Some (1, ?s'')"
    unfolding vm_unmap_def using page(1) m(5,7) load upd by simp
  moreover have "vm_find page ?s'' = Some 0" by (rule m(8) [of _ ?v]) (simp_all add: m(2,3))
  then have "vm_translate (push_bit 12 page OR off) ?s'' = Some (- 1)"
    unfolding vm_translate_def using va by simp
  ultimately show ?thesis using map by blast
qed

text \<open>The second round of the loop reads the entry one byte behind the one of the first round.\<close>

lemma map_two_undefined:
  assumes ok: "memory_ok s" and root: "table_root s = 0" and free: "4 \<le> free_frames s"
    and page: "page \<noteq> 0" "page AND 0x1FF \<noteq> 0x1FF"
  shows "vm_map new_node page frame (int (Suc (Suc n))) flags s = None"
proof -
  let ?k = "unat (table_index page 0)"
  from ok root free page(1) obtain r f s' s0 where r: "fresh_table r s s0"
    and m: "\<And>n flags. vm_map new_node page frame (int (Suc n)) flags s = vm_map_loop new_node n 1 page frame s'"
      "memory_base s' = memory_base s" "table_root s' = frame_address s r" "r < NUM_FRAMES"
    and beside: "\<exists>g < NUM_FRAMES. \<forall>j < 512. table_entry s' r j =
      entry_beside (memory s0) r ?k (with_address (frame_address s g) 0) j"
    by (rule vm_map_first [where frame = frame]) (rule that)
  from beside obtain g where g: "g < NUM_FRAMES"
    "\<And>j. j < 512 \<Longrightarrow> table_entry s' r j = entry_beside (memory s0) r ?k (with_address (frame_address s g) 0) j" by blast
  have ok': "memory_ok s'" using ok memory_ok_cong [OF m(2)] by simp
  note index = table_index_next [OF page(2)]
  have "entry_beside (memory s0) r ?k (with_address (frame_address s g) 0) (Suc ?k) = drop_bit 8 (with_address (frame_address s g) 0)"
    by (rule entry_beside_next) (use r table_index_less [of page 0] in \<open>simp add: fresh_table_def memset_def\<close>)
  then have entry: "table_entry s' r (Suc ?k) = drop_bit 8 (frame_address s g)"
    using g(2) [OF index(2)] frame_address_entry(1) [OF ok g(1)] by (simp add: with_address_def)
  have load: "load_u64 (table_root s' + table_index (page + 1) 0) s' = Some (drop_bit 8 (frame_address s g))"
    using load_table_entry [OF ok' m(4) index(2)] entry unfolding m(3) index(1) frame_address_cong [OF m(2)]
    by (simp add: add.commute [of 1])
  let ?d = "drop_bit 8 (frame_address s g)"
  have d: "entry_address ?d = ?d" "?d \<noteq> 0" "unat (?d + table_index (page + 1) 1) < unat (memory_base s)"
    using low_address [OF ok g(1)] table_index_less [of "page + 1" 1] by simp_all
  have out: "load_u64 (?d + table_index (page + 1) 1) s' = None"
    using d(3) by (simp add: load_u64_def offset_of_def m(2) word_le_nat_alt)
  have "vm_map_page new_node (page + 1) frame s' = None"
    using load d(1,2) out by (simp add: vm_map_page_def next_table_def)
  then show ?thesis unfolding m(1) by simp
qed

end

section \<open>Missing entries\<close>

lemma load_null: "memory_base s \<noteq> 0 \<Longrightarrow> load_u64 0 s = None"
  by (auto simp: load_u64_def offset_of_def)

lemma vm_find_cases:
  assumes "vm_find page s = Some p"
  obtains "p = 0" | e where "load_u64 p s = Some e" "entry_flags e = 1"
proof (cases "p = 0")
  case False
  with assms have "\<exists>e. load_u64 p s = Some e \<and> entry_flags e = 1"
    by (auto simp: vm_find_def Let_def bind_eq_Some_conv split: if_splits)
  then show thesis using that(2) by blast
qed (rule that(1))

lemma vm_locate_loop_undefined:
  assumes "memory_base s \<noteq> 0"
  shows "vm_locate_loop i counter number s = None"
  using assms
proof (induction i counter number s rule: vm_locate_loop.induct)
  case (1 i counter number s)
  show ?case
  proof (cases "i < 2 ^ 31")
    case True
    show ?thesis
    proof (cases "vm_find (word_of_int i) s")
      case None
      then show ?thesis by (simp add: vm_locate_loop.simps)
    next
      case (Some p)
      then show ?thesis
      proof (cases rule: vm_find_cases)
        case 1
        then show ?thesis using Some load_null [OF "1.prems"] by (simp add: vm_locate_loop.simps)
      next
        case (2 e)
        have "vm_locate_loop (i + 1) 0 number s = None"
          using "1.IH" [OF True Some 2(1)] "1.prems" 2(2) by simp
        then show ?thesis using Some 2 True by (subst vm_locate_loop.simps) simp
      qed
    qed
  qed (simp add: vm_locate_loop.simps)
qed

section \<open>Properties\<close>

text \<open>
  C4: the first page that is mapped. Let \<open>new_node\<close> supply zeroed, unused frames, as
  \<open>make_node\<close> does. When no table exists yet and four frames are free, \<open>vm_map\<close> of one page, not
  page 0, succeeds; then \<open>vm_translate\<close> takes every address of the page to the same offset of the
  frame; then \<open>vm_unmap\<close> of the page succeeds, after which \<open>vm_translate\<close> answers \<open>UINT64_MAX\<close>.
  It need not be so for a second page, whose entries may overlap those of the first.
\<close>
theorem map_translate_unmap:
  assumes "table_source new_node" "memory_ok s" "table_root s = 0" "4 \<le> free_frames s"
    "page \<noteq> 0" "unat page < 2 ^ 36" "unat frame < 2 ^ 40" "unat off < 2 ^ 12"
  shows "\<exists>s'. vm_map new_node page frame 1 flags s = Some (1, s') \<and>
     vm_translate (push_bit 12 page OR off) s' = Some (push_bit 12 frame OR off) \<and>
     (\<exists>s''. vm_unmap page 1 s' = Some (1, s'') \<and> vm_translate (push_bit 12 page OR off) s'' = Some (- 1))"
  by (rule table_source.map_unmap_first [OF assms])

definition new_vm :: vm_state where
  "new_vm = \<lparr>frames_allocated = 0, frames_available = 1024, frame_bitmap = (\<lambda>_. 0), memory = (\<lambda>_. 0),
     memory_base = 0x10000, table_root = 0\<rparr>"

lemma new_vm: "memory_ok new_vm" "table_root new_vm = 0" "4 \<le> free_frames new_vm"
  by (simp_all add: new_vm_def memory_ok_def free_frames_def frame_used_def)

theorem map_translate_unmap_witness:
  "\<exists>s'. vm_map make_node 5 7 1 0 new_vm = Some (1, s') \<and> vm_translate (push_bit 12 5 OR 9) s' = Some (push_bit 12 7 OR 9)"
  using map_translate_unmap [OF tables.table_source_axioms new_vm, of 5 7 9 0] by auto

text \<open>
  C39: a pointer to an entry is \<open>table_root + a\<close> in bytes, so the entries of neighbouring pages
  overlap. When no table exists yet, four frames are free, and \<open>vm_map\<close> is asked for two or more
  pages from one whose lowest nine bits are not all ones, its second round takes seven bytes
  of the first entry for the address of a table, and leaves the array \<open>memory\<close>. (With the lowest
  nine bits all ones the second page has the index 0, whose entry lies elsewhere.)
\<close>
theorem map_two_pages_undefined:
  assumes "table_source new_node" "memory_ok s" "table_root s = 0" "4 \<le> free_frames s"
    "page \<noteq> 0" "page AND 0x1FF \<noteq> 0x1FF" "2 \<le> number"
  shows "vm_map new_node page frame number flags s = None"
proof -
  have "number = int (Suc (Suc (nat (number - 2))))" using assms(7) by simp
  with table_source.map_two_undefined [OF assms(1-6), of frame "nat (number - 2)" flags] show ?thesis by simp
qed

theorem map_two_pages_undefined_witness: "vm_map make_node 5 7 2 0 new_vm = None"
  using map_two_pages_undefined [OF tables.table_source_axioms new_vm, of 5 2 7 0] by simp

text \<open>
  \<open>vm_find\<close> gives NULL or an entry whose flags are 1. So \<open>vm_locate\<close>, which looks for an
  entry with flags 0, returns for no number: it reads through NULL at the first page that is
  not mapped, or counts past \<open>INT_MAX\<close>. \<open>vm_unmap\<close> reads through NULL as well when its first
  page is not mapped, where it should return 0.
\<close>
lemma missing_entries_undefined:
  assumes "memory_base s \<noteq> 0"
  shows "vm_locate number s = None \<and>
    (page \<noteq> 0 \<and> 0 < count \<and> vm_find page s = Some 0 \<longrightarrow> vm_unmap page count s = None)"
proof -
  have "vm_unmap page count s = None" if "page \<noteq> 0" "0 < count" "vm_find page s = Some 0"
  proof -
    have "nat count = Suc (nat (count - 1))" using that(2) by simp
    then show ?thesis using that(1,3) load_null [OF assms] by (simp add: vm_unmap_def)
  qed
  then show ?thesis using vm_locate_loop_undefined [OF assms] by (simp add: vm_locate_def)
qed

lemma missing_entries_undefined_example: "vm_locate 1 new_vm = None"
  using missing_entries_undefined [of new_vm 1] by (simp add: new_vm_def)

end
