(* ===== verification/Kmalloc.thy ===== *)
theory Kmalloc imports Translation LL_Double begin

text \<open>
  The kernel memory allocator of \<open>HW3-skeleton/kmalloc.c\<close>. The allocator keeps a list of pages,
  whose nodes come from \<open>malloc\<close>, and in every page a chain of free blocks in the bytes of
  the array \<open>memory\<close>. Not in the sources and so parameters: \<open>new_node\<close> (called by
  \<open>vm_map\<close>), the macro \<open>PAGE_ADDRESS\<close>, and the value of the subtraction of incompatible
  pointers in \<open>pfree\<close>; also the addresses of the local variable \<open>header\<close>
  and of the parameter of \<open>kfree\<close>, which the code uses, and the nodes that \<open>malloc\<close> returns.
\<close>

record kmalloc_state = vm_state +
  linked_list :: ll_list
  node_heap :: heap

section \<open>Pages\<close>

definition palloc ::
    "('a vm_state_scheme \<Rightarrow> (u64 \<times> 'a vm_state_scheme) option) \<Rightarrow> (u64 \<Rightarrow> u64) \<Rightarrow> u64 \<Rightarrow> 'a vm_state_scheme \<Rightarrow> (u64 \<times> 'a vm_state_scheme) option" where
  "palloc new_node PAGE_ADDRESS number s =
     do {
       (frame_number, s) \<leftarrow> allocate_frame (u64_to_int number) s;
       let frame_number = word_of_int frame_number;
       page_number \<leftarrow> vm_locate (u64_to_int number) s;
       let page_number = frame_number;
       (_, s) \<leftarrow> vm_map new_node page_number frame_number (u64_to_int number) 0 s;
       Some (PAGE_ADDRESS page_number, s)
     }"

text \<open>
  \<open>PAGE_NUMBER\<close> and \<open>FRAME_NUMBER\<close> are the same text, \<open>((address - memory) / 4096)\<close>, here with an
  address of type \<open>uint64_t *\<close> and \<open>memory\<close> of type \<open>char[]\<close>. C has no such subtraction; \<open>page_of\<close> is
  what a compiler that accepts it makes of the quotient. The loop of \<open>pfree\<close> in round \<open>i\<close>
  with \<open>n\<close> rounds left: \<open>address\<close> is the same in every round, and \<open>i\<close> the number of pages.
\<close>
primrec pfree_loop :: "(u64 \<Rightarrow> u64) \<Rightarrow> u64 \<Rightarrow> nat \<Rightarrow> nat \<Rightarrow> 'a vm_state_scheme \<Rightarrow> 'a vm_state_scheme option" where
  "pfree_loop page_of address 0 i s = Some s"
| "pfree_loop page_of address (Suc n) i s =
     do {
       page_address \<leftarrow> vm_translate address s;
       let page_number = page_of page_address;
       let frame_number = page_of page_address;
       (_, s) \<leftarrow> vm_unmap page_number (int i) s;
       (_, s) \<leftarrow> deallocate_frame frame_number (int i) s;
       pfree_loop page_of address n (Suc i) s
     }"

text \<open>With more than \<open>INT_MAX\<close> pages the counter overflows.\<close>
definition pfree :: "(u64 \<Rightarrow> u64) \<Rightarrow> u64 \<Rightarrow> u64 \<Rightarrow> 'a vm_state_scheme \<Rightarrow> 'a vm_state_scheme option" where
  "pfree page_of address number s =
     do { guard (unat number < 2 ^ 31); pfree_loop page_of address (unat number) 0 s }"

definition block_init ::
    "('a vm_state_scheme \<Rightarrow> (u64 \<times> 'a vm_state_scheme) option) \<Rightarrow> (u64 \<Rightarrow> u64) \<Rightarrow> 'a vm_state_scheme \<Rightarrow> (u64 \<times> 'a vm_state_scheme) option" where
  "block_init new_node PAGE_ADDRESS s =
     do {
       (b, s) \<leftarrow> palloc new_node PAGE_ADDRESS 1 s;
       s \<leftarrow> store_u64 b (b + 8) s;
       s \<leftarrow> store_u64 (b + 8) (4096 - 3 * 8) s;
       s \<leftarrow> store_u64 (b + 16) 0 s;
       Some (b, s)
     }"

section \<open>Blocks\<close>

text \<open>
  What \<open>pred\<close> points to: the first word of the node, which is its field \<open>data\<close> because the
  pointer to the node is used as the header of the page, or a word of the array.
\<close>
datatype place = In_Node ptr | In_Memory u64

primrec store_place :: "place \<Rightarrow> u64 \<Rightarrow> 'a kmalloc_state_scheme \<Rightarrow> 'a kmalloc_state_scheme option" where
  "store_place (In_Node a) v s = map_option (\<lambda>h. s\<lparr>node_heap := h\<rparr>) (write_at (\<lambda>n. n\<lparr>node_data := unat v\<rparr>) (node_heap s) a)"
| "store_place (In_Memory a) v s = store_u64 a v s"

text \<open>The block at \<open>freeList\<close> is cut: its head is the allocated chunk.\<close>
definition cut_block :: "u64 \<Rightarrow> place \<Rightarrow> u64 \<Rightarrow> 'a kmalloc_state_scheme \<Rightarrow> 'a kmalloc_state_scheme option" where
  "cut_block sz pred freeList s =
     do {
       let newFree = freeList + (sz - 2 * 8);
       n \<leftarrow> load_u64 freeList s;
       s \<leftarrow> store_u64 newFree (n - (sz - 2 * 8)) s;
       n \<leftarrow> load_u64 (freeList + 8) s;
       s \<leftarrow> store_u64 (newFree + 8) n s;
       s \<leftarrow> store_u64 freeList sz s;
       s \<leftarrow> store_u64 (freeList + 8) 0xc0dec0de s;
       store_place pred newFree s
     }"

text \<open>The result is \<open>&header\<close>, the address of the local variable.\<close>
partial_function (option) try_fit_loop ::
    "u64 \<Rightarrow> u64 \<Rightarrow> place \<Rightarrow> u64 \<Rightarrow> 'a kmalloc_state_scheme \<Rightarrow> (u64 \<times> 'a kmalloc_state_scheme) option" where
  "try_fit_loop header_address sz pred freeList s =
     (if freeList \<noteq> 0 then
        do {
          n \<leftarrow> load_u64 freeList s;
          (if sz - 2 * 8 < n
           then do { s \<leftarrow> cut_block sz pred freeList s; Some (header_address, s) }
           else do {
             n \<leftarrow> load_u64 (freeList + 8) s;
             try_fit_loop header_address sz (In_Memory (freeList + 8)) n s
           })
        }
      else Some (0, s))"

definition try_fit_data :: "u64 \<Rightarrow> u64 \<Rightarrow> ptr \<Rightarrow> 'a kmalloc_state_scheme \<Rightarrow> (u64 \<times> 'a kmalloc_state_scheme) option" where
  "try_fit_data header_address sz page s =
     do {
       n \<leftarrow> load_at (node_heap s) page;
       try_fit_loop header_address sz (In_Node page) (of_nat (node_data n)) s
     }"

section \<open>Chunks\<close>

text \<open>The loop of \<open>kmalloc\<close> over the pages: 0 when no page has a block that fits.\<close>
partial_function (option) kmalloc_loop ::
    "u64 \<Rightarrow> u64 \<Rightarrow> ptr \<Rightarrow> 'a kmalloc_state_scheme \<Rightarrow> (u64 \<times> 'a kmalloc_state_scheme) option" where
  "kmalloc_loop header_address sz current s =
     (if current \<noteq> NULL then
        do {
          (p, s) \<leftarrow> try_fit_data header_address sz current s;
          (if p \<noteq> 0 then Some (p, s)
           else do {
             n \<leftarrow> load_at (node_heap s) current;
             kmalloc_loop header_address sz (node_next n) s
           })
        }
      else Some (0, s))"

text \<open>\<open>node\<close> is what \<open>malloc\<close> returns for the node of a new page.\<close>
definition kmalloc ::
    "('a kmalloc_state_scheme \<Rightarrow> (u64 \<times> 'a kmalloc_state_scheme) option) \<Rightarrow> (u64 \<Rightarrow> u64) \<Rightarrow> u64 \<Rightarrow> ptr \<Rightarrow> u64 \<Rightarrow> 'a kmalloc_state_scheme \<Rightarrow> (u64 \<times> 'a kmalloc_state_scheme) option" where
  "kmalloc new_node PAGE_ADDRESS header_address node sz s =
     do {
       (p, s) \<leftarrow> kmalloc_loop header_address sz (list_head (linked_list s)) s;
       (if p \<noteq> 0 then Some (p, s)
        else do {
          (b, s) \<leftarrow> block_init new_node PAGE_ADDRESS s;
          (current, l, h) \<leftarrow> ll_insert_tail node (unat b) (linked_list s) (node_heap s);
          try_fit_data header_address sz current (s\<lparr>linked_list := l, node_heap := h\<rparr>)
        })
     }"

text \<open>
  The loop of \<open>kfree\<close>. \<open>beg + beg[0] + 2 * sizeof(int64_t)\<close> counts words of eight bytes.
\<close>
partial_function (option) kfree_loop :: "u64 \<Rightarrow> u64 \<Rightarrow> 'a vm_state_scheme \<Rightarrow> 'a vm_state_scheme option" where
  "kfree_loop block beg s =
     do {
       n \<leftarrow> load_u64 (beg + 8) s;
       (if n < block then
          do {
            beg \<leftarrow> load_u64 (beg + 8) s;
            n \<leftarrow> load_u64 beg s;
            s \<leftarrow> (if beg + 8 * n + 8 * 16 = block
                 then do { m \<leftarrow> load_u64 block s; store_u64 beg (n + (m + 2 * 8)) s }
                 else do { m \<leftarrow> load_u64 (beg + 8) s; s \<leftarrow> store_u64 (block + 8) m s; store_u64 (beg + 8) block s });
            kfree_loop block beg s
          }
        else Some s)
     }"

text \<open>\<open>&address - 2 * sizeof(int64_t)\<close> is 16 pointers below the parameter of the function.\<close>
definition kfree :: "u64 \<Rightarrow> u64 \<Rightarrow> 'a vm_state_scheme \<Rightarrow> 'a vm_state_scheme option" where
  "kfree parameter_address address s =
     do {
       i \<leftarrow> offset_of 0 address s;
       let beg = frame_address s (i div 4096);
       let block = parameter_address - 8 * 16;
       kfree_loop block beg s
     }"

definition krealloc ::
    "('a kmalloc_state_scheme \<Rightarrow> (u64 \<times> 'a kmalloc_state_scheme) option) \<Rightarrow> (u64 \<Rightarrow> u64) \<Rightarrow> u64 \<Rightarrow> u64 \<Rightarrow> ptr \<Rightarrow> u64 \<Rightarrow> u64 \<Rightarrow> 'a kmalloc_state_scheme \<Rightarrow> (u64 \<times> 'a kmalloc_state_scheme) option" where
  "krealloc new_node PAGE_ADDRESS header_address parameter_address node address sz s =
     do {
       (new_data_pos, s) \<leftarrow> kmalloc new_node PAGE_ADDRESS header_address node sz s;
       i \<leftarrow> offset_of (unat sz) new_data_pos s;
       j \<leftarrow> offset_of (unat sz) address s;
       let s = s\<lparr>memory := memcpy (memory s) i (memory s) j (unat sz)\<rparr>;
       s \<leftarrow> kfree parameter_address address s;
       Some (new_data_pos, s)
     }"

end
