(* ===== verification/Kmalloc_Properties.thy ===== *)
theory Kmalloc_Properties imports Kmalloc Translation_Properties begin

text \<open>The properties of the kernel memory allocator.\<close>

section \<open>Words of the array\<close>

text \<open>The words inside of a region of \<open>n\<close> bytes at the address \<open>b\<close>.\<close>

lemma offset_of_word:
  fixes s t :: "'a vm_state_scheme"
  assumes "memory_ok s" "offset_of n b s = Some i" "k + 8 \<le> n" "memory_base t = memory_base s"
  shows "offset_of 8 (b + of_nat k) t = Some (i + k)"
proof -
  from assms(2) have i: "memory_base s \<le> b" "i = unat b - unat (memory_base s)" "i + n \<le> 4194304"
    by (auto simp: offset_of_def split: if_splits)
  have b: "unat b = unat (memory_base s) + i" using i(1,2) by (simp add: word_le_nat_alt)
  have "unat b + k < 18446744073709551616" using b i(3) assms(1,3) by (simp add: memory_ok_def)
  moreover have "b + of_nat k = of_nat (unat b + k)" by simp
  ultimately have u: "unat (b + of_nat k) = unat b + k" by (simp only: unat_of_nat_u64)
  show ?thesis using b i(3) assms(3,4) by (simp add: offset_of_def word_le_nat_alt u)
qed

lemma region_words:
  fixes s t :: "'a vm_state_scheme"
  assumes "memory_ok s" "offset_of n b s = Some i" "k + 8 \<le> n" "memory_base t = memory_base s"
  shows "load_u64 (b + of_nat k) t = Some (get_u64 (memory t) (i + k))"
    "store_u64 (b + of_nat k) v t = Some (t\<lparr>memory := put_u64 (memory t) (i + k) v\<rparr>)"
  using offset_of_word [OF assms] by (simp_all add: load_u64_def store_u64_def)

section \<open>Cutting a block\<close>

lemma cut_block_ok:
  assumes ok: "memory_ok s" and region: "offset_of (16 + k) b s = Some i" and k: "16 \<le> k"
    and node: "a \<noteq> NULL" "node_heap s a = Some nd"
  obtains s' where "cut_block (of_nat (16 + k)) (In_Node a) b s = Some s'"
    "node_heap s' = (node_heap s)(a \<mapsto> nd\<lparr>node_data := unat (b + of_nat k)\<rparr>)"
    "get_u64 (memory s') i = of_nat (16 + k)" "get_u64 (memory s') (i + 8) = 0xc0dec0de"
    "get_u64 (memory s') (i + k) = get_u64 (memory s) i - of_nat k"
    "get_u64 (memory s') (i + (k + 8)) = get_u64 (memory s) (i + 8)" "memory_base s' = memory_base s"
proof -
  note w = region_words [OF ok region]
  let ?m1 = "put_u64 (memory s) (i + k) (get_u64 (memory s) i - of_nat k)"
  let ?m2 = "put_u64 ?m1 (i + (k + 8)) (get_u64 ?m1 (i + 8))"
  let ?m3 = "put_u64 ?m2 i (of_nat (16 + k))"
  let ?m4 = "put_u64 ?m3 (i + 8) 0xc0dec0de"
  let ?s' = "s\<lparr>memory := ?m4, node_heap := (node_heap s)(a \<mapsto> nd\<lparr>node_data := unat (b + of_nat k)\<rparr>)\<rparr>"
  have cut: "cut_block (of_nat (16 + k)) (In_Node a) b s = Some ?s'"
    using w(1) [of 0] w(1) [of 8] w(2) [of 0] w(2) [of 8] w(2) [of k] w(2) [of "k + 8"] node k
    by (simp add: cut_block_def load_at_def write_at_def Let_def add.assoc)
  show thesis
    by (rule that [OF cut]) (use k in \<open>simp_all add: get_put_u64_other\<close>)
qed

section \<open>Pages\<close>

lemma bit_set_more: "bit_set f s = Some s' \<Longrightarrow> frame_state.more s' = frame_state.more s"
  by (auto simp: bit_set_def Let_def bind_eq_Some_conv split: if_splits)

lemma memory_base_more: "frame_state.more s' = frame_state.more s \<Longrightarrow> memory_base s' = memory_base s"
  by (cases s; cases s') simp

lemma bit_set_times_more: "bit_set_times n f s = Some s' \<Longrightarrow> frame_state.more s' = frame_state.more s"
  by (induction n arbitrary: s) (auto simp: bind_eq_Some_conv dest: bit_set_more)

lemma allocate_loop_more:
  "allocate_loop i c n s = Some (f, s') \<Longrightarrow> frame_state.more s' = frame_state.more s"
proof (induction i c n s rule: allocate_loop.induct)
  case (1 i c n s)
  show ?case
  proof (cases "i < 1024")
    case True
    with "1.prems" obtain v where v: "get_value (of_nat i) s = Some v"
      by (subst (asm) allocate_loop.simps) (auto simp: bind_eq_Some_conv)
    with "1.prems" True show ?thesis
      using "1.IH" [OF True v]
      by (subst (asm) allocate_loop.simps)
        (auto simp: bind_eq_Some_conv dest: bit_set_times_more split: if_splits)
  next
    case False
    with "1.prems" show ?thesis by (simp add: allocate_loop.simps)
  qed
qed

lemma palloc_undefined:
  assumes "memory_base s \<noteq> 0"
  shows "palloc new_node PAGE_ADDRESS number s = None"
proof (cases "allocate_frame (u64_to_int number) s")
  case (Some r)
  obtain f s' where r: "r = (f, s')" by (cases r)
  with Some have "frame_state.more s' = frame_state.more s"
    unfolding allocate_frame_def by (blast intro: allocate_loop_more)
  then have "memory_base s' \<noteq> 0" using assms memory_base_more by metis
  then have "vm_locate (u64_to_int number) s' = None" unfolding vm_locate_def by (rule vm_locate_loop_undefined)
  then show ?thesis using Some r by (simp add: palloc_def)
qed (simp add: palloc_def)

text \<open>The loop of \<open>kfree\<close> does not survive its first round when \<open>block\<close> is outside of the array.\<close>

lemma kfree_loop_outside:
  assumes "offset_of 8 block s = None" "offset_of 8 (block + 8) s = None"
  shows "kfree_loop block beg s = do { n \<leftarrow> load_u64 (beg + 8) s; guard (block \<le> n); Some s }"
proof -
  have "load_u64 block s = None" using assms(1) by (simp add: load_u64_def)
  moreover have "store_u64 (block + 8) m s = None" for m using assms(2) by (simp add: store_u64_def)
  ultimately show ?thesis
    by (cases "load_u64 (beg + 8) s"; subst kfree_loop.simps) (auto simp: guard_def not_less not_le bind_eq_None_conv)
qed

section \<open>Properties\<close>

text \<open>
  Let the first block of a page be larger than \<open>size - 16\<close> bytes, with \<open>size\<close> at least 32
  and inside of the array. \<open>try_fit_data\<close> cuts it: the head is marked with the size and the
  magic number, the rest is a block \<open>size - 16\<close> bytes further with the remaining size and the
  old successor, and the page refers to it. So the chunk has \<open>size - 32\<close> bytes behind its
  head, and the result is not its address but that of the local variable \<open>header\<close>.
\<close>
lemma try_fit_cuts_first_block:
  assumes "memory_ok s" "page \<noteq> NULL" "node_heap s page = Some n" "node_data n = unat b" "b \<noteq> 0"
    "load_u64 b s = Some v" "sz - 16 < v" "32 \<le> unat sz" "offset_of (unat sz) b s = Some i"
  shows "\<exists>s'. try_fit_data header_address sz page s = Some (header_address, s') \<and>
     load_u64 b s' = Some sz \<and> load_u64 (b + 8) s' = Some 0xc0dec0de \<and>
     load_u64 (b + (sz - 16)) s' = Some (v - (sz - 16)) \<and>
     load_u64 (b + (sz - 16) + 8) s' = load_u64 (b + 8) s \<and>
     node_heap s' = (node_heap s)(page \<mapsto> n\<lparr>node_data := unat (b + (sz - 16))\<rparr>)"
proof -
  define k where "k = unat sz - 16"
  have k: "16 \<le> k" "unat sz = 16 + k" using assms(8) by (simp_all add: k_def)
  have sz: "sz = of_nat (16 + k)" unfolding k(2) [symmetric] by simp
  have sz16: "sz - 16 = of_nat k" by (simp add: sz)
  note region = assms(9) [unfolded k(2)]
  have v: "get_u64 (memory s) i = v"
    using region_words(1) [OF assms(1) region, of 0 s] assms(6) by simp
  obtain s' where cut: "cut_block sz (In_Node page) b s = Some s'"
    "node_heap s' = (node_heap s)(page \<mapsto> n\<lparr>node_data := unat (b + of_nat k)\<rparr>)"
    "get_u64 (memory s') i = sz" "get_u64 (memory s') (i + 8) = 0xc0dec0de"
    "get_u64 (memory s') (i + k) = get_u64 (memory s) i - of_nat k"
    "get_u64 (memory s') (i + (k + 8)) = get_u64 (memory s) (i + 8)" "memory_base s' = memory_base s"
    by (rule cut_block_ok [OF assms(1) region k(1) assms(2,3), folded sz]) (rule that)
  have "try_fit_data header_address sz page s = Some (header_address, s')"
    using assms(2-7) cut(1) by (simp add: try_fit_data_def load_at_def try_fit_loop.simps [of _ _ _ b])
  moreover have "load_u64 b s' = Some sz" "load_u64 (b + 8) s' = Some 0xc0dec0de"
    "load_u64 (b + of_nat k) s' = Some (v - of_nat k)" "load_u64 (b + of_nat k + 8) s' = load_u64 (b + 8) s"
    using region_words(1) [OF assms(1) region, of 0 s'] region_words(1) [OF assms(1) region, of 8 s']
      region_words(1) [OF assms(1) region, of k s'] region_words(1) [OF assms(1) region, of "k + 8" s']
      region_words(1) [OF assms(1) region, of 8 s] cut(3-7) k(1) v by (simp_all add: add.assoc)
  ultimately show ?thesis using cut(2) unfolding sz16 by blast
qed

definition new_kmalloc :: kmalloc_state where
  "new_kmalloc = \<lparr>frames_allocated = 0, frames_available = 1024, frame_bitmap = (\<lambda>_. 0),
     memory = put_u64 (\<lambda>_. 0) 0 4072, memory_base = 0x10000, table_root = 0,
     linked_list = \<lparr>list_head = 1, list_tail = 1\<rparr>,
     node_heap = [1 \<mapsto> \<lparr>node_data = 0x10000, node_prev = 0, node_next = 0\<rparr>]\<rparr>"

lemma try_fit_cuts_first_block_example:
  "\<exists>s'. try_fit_data 0x7fff0000 116 1 new_kmalloc = Some (0x7fff0000, s') \<and> load_u64 0x10064 s' = Some 3972"
proof -
  have h: "memory_ok new_kmalloc" "node_heap new_kmalloc 1 = Some \<lparr>node_data = 0x10000, node_prev = 0, node_next = 0\<rparr>"
    "load_u64 0x10000 new_kmalloc = Some 4072" "offset_of (unat (116 :: u64)) 0x10000 new_kmalloc = Some 0"
    by (simp_all add: new_kmalloc_def memory_ok_def load_u64_def offset_of_def)
  show ?thesis
    using try_fit_cuts_first_block [OF h(1) _ h(2) _ _ h(3) _ _ h(4), of "0x7fff0000"] by auto
qed

text \<open>
  \<open>kfree\<close> takes the address of its parameter for the address of the chunk. As that lies
  outside of the array, \<open>kfree\<close> either returns with nothing changed, which it does when the
  second word of the page is an address above, or it is undefined.
\<close>
lemma kfree_frees_nothing:
  assumes "offset_of 8 (parameter_address - 128) s = None" "offset_of 8 (parameter_address - 120) s = None"
  shows "kfree parameter_address address s =
    do { i \<leftarrow> offset_of 0 address s;
         n \<leftarrow> load_u64 (frame_address s (i div 4096) + 8) s;
         guard (parameter_address - 128 \<le> n);
         Some s }"
  using kfree_loop_outside [OF assms(1)] assms(2) by (simp add: kfree_def)

lemma kfree_frees_nothing_example: "kfree 0x7fff0000 0x10010 new_kmalloc = None"
  using kfree_frees_nothing [where parameter_address = "0x7fff0000" and s = new_kmalloc and address = "0x10010"]
  by (simp add: new_kmalloc_def offset_of_def load_u64_def frame_address_def guard_def
    get_put_u64_other get_u64_zero)

text \<open>
  The first round of \<open>pfree\<close> unmaps and deallocates \<open>i\<close> pages, which are none.
\<close>

lemma pfree_one_page: "pfree page_of address 1 s = map_option (\<lambda>_. s) (vm_translate address s)"
  by (cases "vm_translate address s")
    (simp_all add: pfree_def vm_unmap_def deallocate_frame_def Let_def)

text \<open>
  \<open>pfree\<close> of a single page frees nothing, whatever the compiler makes of its macros: let
  a page be mapped as in \<open>palloc\<close>. Then \<open>pfree\<close> of any address of the page with the count 1
  succeeds and leaves the state as it was, with the page still mapped to its frame.
\<close>
lemma pfree_keeps_single_page:
  assumes "table_source new_node" "memory_ok s" "table_root s = 0" "4 \<le> free_frames s"
    "page \<noteq> 0" "unat page < 2 ^ 36" "unat frame < 2 ^ 40" "unat off < 2 ^ 12"
  shows "\<exists>s'. vm_map new_node page frame 1 0 s = Some (1, s') \<and>
    pfree page_of (push_bit 12 page OR off) 1 s' = Some s' \<and>
    vm_translate (push_bit 12 page OR off) s' = Some (push_bit 12 frame OR off)"
  using table_source.map_unmap_first [OF assms, of 0] by (auto simp: pfree_one_page)

lemma pfree_keeps_single_page_example:
  "\<exists>s'. vm_map make_node 5 5 1 0 new_vm = Some (1, s') \<and> pfree (\<lambda>p. p div 4096) (push_bit 12 5 OR 9) 1 s' = Some s'"
  using pfree_keeps_single_page [OF tables.table_source_axioms new_vm, of 5 5 9 "\<lambda>p. p div 4096"] by auto

end
