(* ===== verification/Free_List.thy ===== *)
theory Free_List imports Kmalloc_Properties begin

text \<open>
  The chains of free blocks that \<open>try_fit_data\<close> of \<open>HW3-skeleton/kmalloc.c\<close> searches, against
  lists of blocks with first fit: what is in the words of the array, which bytes a block
  covers, that cutting the first block that fits changes exactly that block, and that
  \<open>kmalloc\<close> on a list of pages with such chains is first fit on their blocks.
\<close>

section \<open>Words\<close>

text \<open>Two words do not overlap.\<close>
definition apart :: "u64 \<Rightarrow> u64 \<Rightarrow> bool" where
  "apart a b \<longleftrightarrow> unat a + 8 \<le> unat b \<or> unat b + 8 \<le> unat a"

lemma offset_of_base: "memory_base s' = memory_base s \<Longrightarrow> offset_of n a s' = offset_of n a s"
  by (simp add: offset_of_def)

lemma store_u64_ok:
  assumes "offset_of 8 a s \<noteq> None"
  obtains s' where "store_u64 a v s = Some s'"
  using assms by (auto simp: store_u64_def)

text \<open>Only the word that is stored changes.\<close>

lemma store_u64_laws:
  assumes "store_u64 a v s = Some s'"
  shows "memory_base s' = memory_base s" "load_u64 a s' = Some v" "apart a b \<Longrightarrow> load_u64 b s' = load_u64 b s"
    "offset_of n b s' = offset_of n b s"
proof -
  obtain i where i: "offset_of 8 a s = Some i" "s' = s\<lparr>memory := put_u64 (memory s) i v\<rparr>"
    using assms by (auto simp: store_u64_def)
  show base: "memory_base s' = memory_base s" using i by simp
  show "load_u64 a s' = Some v" using i offset_of_base [OF base, of 8 a] by (simp add: load_u64_def)
  show "offset_of n b s' = offset_of n b s" by (rule offset_of_base [OF base])
  show "load_u64 b s' = load_u64 b s" if "apart a b"
  proof (cases "offset_of 8 b s")
    case None
    with offset_of_base [OF base, of 8 b] show ?thesis by (simp add: load_u64_def)
  next
    case (Some j)
    then have "i + 8 \<le> j \<or> j + 8 \<le> i"
      using that i(1) by (auto simp: apart_def offset_of_def word_le_nat_alt split: if_splits)
    with Some offset_of_base [OF base, of 8 b] i(2) show ?thesis by (simp add: load_u64_def get_put_u64_other)
  qed
qed

lemma store_u64_kmalloc:
  assumes "store_u64 a v (s :: 'a kmalloc_state_scheme) = Some s'"
  shows "node_heap s' = node_heap s" "linked_list s' = linked_list s"
  using assms by (auto simp: store_u64_def)

section \<open>Blocks\<close>

text \<open>A free block: the address of its head of two words, and the size in the first of them.\<close>
type_synonym block = "u64 \<times> u64"

definition block_bytes :: "block \<Rightarrow> nat set" where
  "block_bytes b = {unat (fst b) ..< unat (fst b) + 16 + unat (snd b)}"

definition block_in :: "'a vm_state_scheme \<Rightarrow> block \<Rightarrow> bool" where
  "block_in s b \<longleftrightarrow> fst b \<noteq> 0 \<and> offset_of (16 + unat (snd b)) (fst b) s \<noteq> None"

primrec blocks_ok :: "'a vm_state_scheme \<Rightarrow> block list \<Rightarrow> bool" where
  "blocks_ok s [] \<longleftrightarrow> True"
| "blocks_ok s (b # bs) \<longleftrightarrow> block_in s b \<and> (\<forall>c \<in> set bs. block_bytes b \<inter> block_bytes c = {}) \<and> blocks_ok s bs"

text \<open>The chain that starts at an address: head words of size and successor, 0 at the end.\<close>
primrec free_chain :: "'a vm_state_scheme \<Rightarrow> u64 \<Rightarrow> block list \<Rightarrow> bool" where
  "free_chain s p [] \<longleftrightarrow> p = 0"
| "free_chain s p (b # bs) \<longleftrightarrow> p = fst b \<and> load_u64 p s = Some (snd b) \<and>
     (\<exists>q. load_u64 (p + 8) s = Some q \<and> free_chain s q bs)"

text \<open>First fit on a list of blocks, by the test and with the sizes of the code.\<close>
primrec cut_first :: "u64 \<Rightarrow> block list \<Rightarrow> block list option" where
  "cut_first sz [] = None"
| "cut_first sz (b # bs) =
     (if sz - 16 < snd b then Some ((fst b + (sz - 16), snd b - (sz - 16)) # bs)
      else map_option ((#) b) (cut_first sz bs))"

lemma unat_in_block:
  assumes "memory_ok s" "block_in s b" "k \<le> 16 + unat (snd b)"
  shows "unat (fst b + of_nat k) = unat (fst b) + k"
proof -
  have "unat (fst b) + k < 18446744073709551616"
    using assms by (auto simp: block_in_def offset_of_def memory_ok_def word_le_nat_alt split: if_splits)
  moreover have "fst b + of_nat k = of_nat (unat (fst b) + k)" by simp
  ultimately show ?thesis by (simp only: unat_of_nat_u64)
qed

lemma word_in_block:
  assumes "memory_ok s" "block_in s b" "k + 8 \<le> 16 + unat (snd b)"
  shows "offset_of 8 (fst b + of_nat k) s \<noteq> None"
proof -
  obtain i where "offset_of (16 + unat (snd b)) (fst b) s = Some i" using assms(2) by (auto simp: block_in_def)
  from offset_of_word [OF assms(1) this assms(3) refl] show ?thesis by simp
qed

text \<open>Words in the bytes of different blocks, and different words of a block, are apart.\<close>

lemma apart_in_block:
  assumes "memory_ok s" "block_in s b" "k + 8 \<le> j" "j \<le> 16 + unat (snd b)"
  shows "apart (fst b + of_nat k) (fst b + of_nat j)" "apart (fst b + of_nat j) (fst b + of_nat k)"
  using unat_in_block [OF assms(1,2), of k] unat_in_block [OF assms(1,2), of j] assms(3,4) by (simp_all add: apart_def)

lemma block_word_bytes:
  assumes "memory_ok s" "block_in s b" "k + 8 \<le> 16 + unat (snd b)"
  shows "{unat (fst b + of_nat k) ..< unat (fst b + of_nat k) + 8} \<subseteq> block_bytes b"
  using unat_in_block [OF assms(1,2), of k] assms(3) by (auto simp: block_bytes_def)

lemma apart_disjoint:
  assumes "{unat a ..< unat a + 8} \<inter> {unat b ..< unat b + 8} = {}"
  shows "apart a b"
proof (rule ccontr)
  assume "\<not> apart a b"
  then have "max (unat a) (unat b) \<in> {unat a ..< unat a + 8} \<inter> {unat b ..< unat b + 8}" by (auto simp: apart_def)
  with assms show False by blast
qed

lemma apart_blocks:
  assumes "memory_ok s" "block_in s b" "block_in s c" "block_bytes b \<inter> block_bytes c = {}"
    and "k + 8 \<le> 16 + unat (snd b)" "j + 8 \<le> 16 + unat (snd c)"
  shows "apart (fst b + of_nat k) (fst c + of_nat j)"
  by (rule apart_disjoint)
    (use block_word_bytes [OF assms(1,2,5)] block_word_bytes [OF assms(1,3,6)] assms(4) in blast)

section \<open>Cutting\<close>

text \<open>The four words that the cut of a block by \<open>k\<close> bytes writes.\<close>
definition cut_words :: "u64 \<Rightarrow> u64 \<Rightarrow> u64 set" where
  "cut_words a k = {a, a + 8, a + k, a + k + 8}"

lemma cut_words_apart:
  assumes "memory_ok s" "block_in s b" "16 \<le> k" "k < unat (snd b)"
  shows "apart (fst b) (fst b + 8)" "apart (fst b) (fst b + of_nat k)" "apart (fst b) (fst b + of_nat k + 8)"
    "apart (fst b + 8) (fst b + of_nat k)" "apart (fst b + 8) (fst b + of_nat k + 8)"
    "apart (fst b + of_nat k) (fst b + of_nat k + 8)"
  using apart_in_block(1) [OF assms(1,2), of 0 8] apart_in_block(1) [OF assms(1,2), of 0 k]
    apart_in_block(1) [OF assms(1,2), of 0 "k + 8"] apart_in_block(1) [OF assms(1,2), of 8 k]
    apart_in_block(1) [OF assms(1,2), of 8 "k + 8"] apart_in_block(1) [OF assms(1,2), of k "k + 8"] assms(3,4)
  by (simp_all add: add.assoc)

lemma apart_sym: "apart a b \<longleftrightarrow> apart b a"
  by (auto simp: apart_def)

text \<open>The cut up to the store through \<open>pred\<close>.\<close>

lemma cut_block_words:
  fixes s :: "'a kmalloc_state_scheme"
  assumes ok: "memory_ok s" and b: "block_in s (a, n)" and k: "sz = of_nat (16 + k)" "16 \<le> k" "k < unat n"
    and l: "load_u64 a s = Some n" "load_u64 (a + 8) s = Some q"
  obtains s' where "cut_block sz pred a s = store_place pred (a + of_nat k) s'" "memory_base s' = memory_base s"
    "node_heap s' = node_heap s" "linked_list s' = linked_list s" "load_u64 (a + of_nat k) s' = Some (n - of_nat k)" "load_u64 (a + of_nat k + 8) s' = Some q"
    "load_u64 a s' = Some sz" "load_u64 (a + 8) s' = Some 0xc0dec0de"
    "\<And>x. \<forall>y \<in> cut_words a (of_nat k). apart y x \<Longrightarrow> load_u64 x s' = load_u64 x s"
proof -
  have sz: "sz - 16 = of_nat k" using k(1) by simp
  note ap = cut_words_apart [OF ok b, of k, simplified, OF k(2,3)]
  have in_s: "offset_of 8 a s \<noteq> None" "offset_of 8 (a + 8) s \<noteq> None" "offset_of 8 (a + of_nat k) s \<noteq> None"
    "offset_of 8 (a + of_nat k + 8) s \<noteq> None"
    using word_in_block [OF ok b, of 0] word_in_block [OF ok b, of 8] word_in_block [OF ok b, of k]
      word_in_block [OF ok b, of "k + 8"] k by (simp_all add: add.assoc)
  obtain s1 where s1: "store_u64 (a + of_nat k) (n - of_nat k) s = Some s1" by (rule store_u64_ok [OF in_s(3)])
  note w1 = store_u64_laws [OF s1]
  have q1: "load_u64 (a + 8) s1 = Some q" using w1(3) [of "a + 8"] ap(4) l(2) by (simp add: apart_sym)
  obtain s2 where s2: "store_u64 (a + of_nat k + 8) q s1 = Some s2"
    by (rule store_u64_ok [of "a + of_nat k + 8" s1]) (use in_s(4) w1(4) in auto)
  note w2 = store_u64_laws [OF s2]
  obtain s3 where s3: "store_u64 a sz s2 = Some s3"
    by (rule store_u64_ok [of a s2]) (use in_s(1) w1(4) w2(4) in auto)
  note w3 = store_u64_laws [OF s3]
  obtain s4 where s4: "store_u64 (a + 8) 0xc0dec0de s3 = Some s4"
    by (rule store_u64_ok [of "a + 8" s3]) (use in_s(2) w1(4) w2(4) w3(4) in auto)
  note w4 = store_u64_laws [OF s4]
  have cut: "cut_block sz pred a s = store_place pred (a + of_nat k) s4"
    using s1 q1 s2 s3 s4 l(1) by (simp add: cut_block_def sz Let_def)
  have sym: "apart (a + 8) a" "apart (a + of_nat k + 8) (a + of_nat k)"
    using ap by (simp_all add: apart_sym)
  show thesis
  proof (rule that [OF cut])
    show "load_u64 (a + of_nat k) s4 = Some (n - of_nat k)" using w1(2) w2(3) w3(3) w4(3) ap sym by simp
    show "load_u64 (a + of_nat k + 8) s4 = Some q" using w2(2) w3(3) w4(3) ap by simp
    show "load_u64 a s4 = Some sz" using w3(2) w4(3) sym by simp
    show "load_u64 (a + 8) s4 = Some 0xc0dec0de" by (rule w4(2))
    show "load_u64 x s4 = load_u64 x s" if "\<forall>y \<in> cut_words a (of_nat k). apart y x" for x
      using that w1(3) w2(3) w3(3) w4(3) by (simp add: cut_words_def)
    show "memory_base s4 = memory_base s" by (simp add: w1(1) w2(1) w3(1) w4(1))
    show "node_heap s4 = node_heap s" "linked_list s4 = linked_list s"
      by (simp_all add: store_u64_kmalloc [OF s1] store_u64_kmalloc [OF s2] store_u64_kmalloc [OF s3] store_u64_kmalloc [OF s4])
  qed
qed

text \<open>The rest of a block is a block inside of it.\<close>

lemma rest_block:
  assumes "memory_ok s" "block_in s (a, n)" "k < unat n"
  shows "block_in s (a + of_nat k, n - of_nat k)" "block_bytes (a + of_nat k, n - of_nat k) \<subseteq> block_bytes (a, n)"
proof -
  have u: "unat (a + of_nat k) = unat a + k" using unat_in_block [OF assms(1,2), of k] assms(3) by simp
  have k: "unat (of_nat k :: u64) = k" using assms(3) unsigned_less [of n, where 'a = nat] by (intro unat_of_nat_u64) simp
  then have n: "unat (n - of_nat k) = unat n - k" using assms(3) by (simp add: unat_sub word_le_nat_alt)
  have "a + of_nat k \<noteq> 0"
  proof
    assume "a + of_nat k = 0"
    then have "unat a + k = 0" using u by simp
    then have "a = 0" by (simp add: unat_eq_0)
    then show False using assms(2) by (simp add: block_in_def)
  qed
  then show "block_in s (a + of_nat k, n - of_nat k)"
    using assms(2,3) u n by (auto simp: block_in_def offset_of_def word_le_nat_alt split: if_splits)
  show "block_bytes (a + of_nat k, n - of_nat k) \<subseteq> block_bytes (a, n)"
    using u n assms(3) by (auto simp: block_bytes_def)
qed

section \<open>Chains\<close>

lemma free_chain_cong:
  assumes "\<And>b. b \<in> set bs \<Longrightarrow> load_u64 (fst b) s' = load_u64 (fst b) s \<and> load_u64 (fst b + 8) s' = load_u64 (fst b + 8) s"
  shows "free_chain s' p bs = free_chain s p bs"
  using assms
proof (induction bs arbitrary: p)
  case (Cons b bs)
  have "free_chain s' q bs = free_chain s q bs" for q by (rule Cons.IH) (use Cons.prems in simp)
  moreover have "load_u64 (fst b) s' = load_u64 (fst b) s" "load_u64 (fst b + 8) s' = load_u64 (fst b + 8) s"
    using Cons.prems [of b] by simp_all
  ultimately show ?case by (cases "p = fst b") simp_all
qed simp

lemma free_chain_suffix: "free_chain s p (pre @ b # post) \<Longrightarrow> free_chain s (fst b) (b # post)"
  by (induction pre arbitrary: p) auto

text \<open>A chain whose tail is exchanged, by a store into the last head in front of it.\<close>

lemma free_chain_exchange:
  assumes "free_chain s p (pre @ post)" "free_chain s' p' post'"
    and "\<And>b. b \<in> set pre \<Longrightarrow> load_u64 (fst b) s' = load_u64 (fst b) s"
    and "\<And>b. b \<in> set (butlast pre) \<Longrightarrow> load_u64 (fst b + 8) s' = load_u64 (fst b + 8) s"
    and "pre \<noteq> [] \<Longrightarrow> load_u64 (fst (last pre) + 8) s' = Some p'"
  shows "free_chain s' (if pre = [] then p' else p) (pre @ post')"
  using assms
proof (induction pre arbitrary: p)
  case (Cons b pre)
  from Cons.prems(1) obtain q where q: "p = fst b" "load_u64 p s = Some (snd b)" "load_u64 (p + 8) s = Some q"
    "free_chain s q (pre @ post)" by auto
  have IH: "free_chain s' (if pre = [] then p' else q) (pre @ post')"
    by (rule Cons.IH [OF q(4) Cons.prems(2)]) (use Cons.prems(3-5) in \<open>auto split: if_splits\<close>)
  show ?case
  proof (cases "pre = []")
    case True
    with Cons.prems(3,5) q IH show ?thesis by simp
  next
    case False
    then have "load_u64 (p + 8) s' = Some q" using Cons.prems(4) [of b] q(1,3) by simp
    with Cons.prems(3) [of b] False q IH show ?thesis by auto
  qed
qed simp

lemma block_in_base: "memory_base s' = memory_base s \<Longrightarrow> block_in s' b = block_in s b"
  by (simp add: block_in_def offset_of_def)

lemma blocks_ok_base:
  assumes "memory_base s' = memory_base s"
  shows "blocks_ok s' bs = blocks_ok s bs"
  by (induction bs) (simp_all add: block_in_base [OF assms])

lemma blocks_ok_append:
  "blocks_ok s (as @ bs) \<longleftrightarrow> blocks_ok s as \<and> blocks_ok s bs \<and> (\<forall>a \<in> set as. \<forall>b \<in> set bs. block_bytes a \<inter> block_bytes b = {})"
  by (induction as) auto

lemma blocks_ok_in: "blocks_ok s bs \<Longrightarrow> b \<in> set bs \<Longrightarrow> block_in s b"
  by (induction bs) auto

text \<open>The search stops at the first block that fits, and cuts it.\<close>

lemma try_fit_loop_none:
  assumes "free_chain s p bs" "blocks_ok s bs" "cut_first sz bs = None"
  shows "try_fit_loop h sz pred p s = Some (0, s)"
  using assms
proof (induction bs arbitrary: p pred)
  case Nil
  then show ?case by (subst try_fit_loop.simps) simp
next
  case (Cons b bs)
  from Cons.prems(1) obtain q where q: "p = fst b" "load_u64 p s = Some (snd b)" "load_u64 (p + 8) s = Some q" "free_chain s q bs"
    by auto
  have p: "p \<noteq> 0" and ok: "blocks_ok s bs" using Cons.prems(2) q(1) by (simp_all add: block_in_def)
  have no: "\<not> sz - 16 < snd b" "cut_first sz bs = None" using Cons.prems(3) by (simp_all split: if_split_asm)
  have "try_fit_loop h sz (In_Memory (p + 8)) q s = Some (0, s)" by (rule Cons.IH [OF q(4) ok no(2)])
  then show ?case by (simp add: try_fit_loop.simps [of h sz pred p] p no(1) q(2,3))
qed

lemma try_fit_loop_some:
  assumes "free_chain s p bs" "blocks_ok s bs" "cut_first sz bs = Some bs'"
  obtains pre b post where "bs = pre @ b # post" "sz - 16 < snd b"
    "bs' = pre @ (fst b + (sz - 16), snd b - (sz - 16)) # post"
    "try_fit_loop h sz pred p s =
      map_option (Pair h) (cut_block sz (if pre = [] then pred else In_Memory (fst (last pre) + 8)) (fst b) s)"
  using assms
proof (induction bs arbitrary: p pred bs' thesis)
  case (Cons b bs)
  from Cons.prems(2) obtain q where q: "p = fst b" "load_u64 p s = Some (snd b)" "load_u64 (p + 8) s = Some q" "free_chain s q bs"
    by auto
  have p: "p \<noteq> 0" and ok: "blocks_ok s bs" using Cons.prems(3) q(1) by (simp_all add: block_in_def)
  show ?case
  proof (cases "sz - 16 < snd b")
    case True
    with Cons.prems(4) have "bs' = [] @ (fst b + (sz - 16), snd b - (sz - 16)) # bs" by simp
    moreover have "try_fit_loop h sz pred p s = map_option (Pair h) (cut_block sz pred (fst b) s)"
      by (subst try_fit_loop.simps) (use p True q in \<open>simp add: map_conv_bind_option comp_def\<close>)
    ultimately show ?thesis using Cons.prems(1) [of "[]" b bs] True by simp
  next
    case False
    with Cons.prems(4) obtain bs1 where bs1: "cut_first sz bs = Some bs1" "bs' = b # bs1" by auto
    obtain pre c post where IH: "bs = pre @ c # post" "sz - 16 < snd c" "bs1 = pre @ (fst c + (sz - 16), snd c - (sz - 16)) # post"
      "try_fit_loop h sz (In_Memory (p + 8)) q s =
        map_option (Pair h) (cut_block sz (if pre = [] then In_Memory (p + 8) else In_Memory (fst (last pre) + 8)) (fst c) s)"
      by (rule Cons.IH [OF _ q(4) ok bs1(1)])
    have "try_fit_loop h sz pred p s = try_fit_loop h sz (In_Memory (p + 8)) q s"
      by (subst try_fit_loop.simps) (use p False q in simp)
    with IH bs1(2) q(1) show ?thesis
      by (intro Cons.prems(1) [of "b # pre" c post]) auto
  qed
qed simp

section \<open>A request\<close>

lemma cut_words_other_block:
  assumes "memory_ok s" "block_in s b" "block_in s c" "block_bytes b \<inter> block_bytes c = {}" "k < unat (snd b)"
  shows "\<forall>y \<in> cut_words (fst b) (of_nat k). apart y (fst c)" "\<forall>y \<in> cut_words (fst b) (of_nat k). apart y (fst c + 8)"
proof -
  note ap = apart_blocks [OF assms(1-4)]
  have "apart (fst b + of_nat i) (fst c + of_nat j)" if "i \<in> {0, 8, k, k + 8}" "j \<in> {0, 8}" for i j
    by (rule ap) (use that assms(5) in auto)
  from this [of _ 0] this [of _ 8]
  show "\<forall>y \<in> cut_words (fst b) (of_nat k). apart y (fst c)" "\<forall>y \<in> cut_words (fst b) (of_nat k). apart y (fst c + 8)"
    by (force simp: cut_words_def add.assoc)+
qed

lemma memory_ok_base: "memory_base s' = memory_base s \<Longrightarrow> memory_ok s' = memory_ok s"
  by (simp add: memory_ok_def)

lemma node_heap_words [simp]:
  "load_u64 a (s\<lparr>node_heap := h\<rparr>) = load_u64 a s" "memory_base (s\<lparr>node_heap := h\<rparr>) = memory_base s"
  by (simp_all add: load_u64_def offset_of_def)

lemma free_chain_node_heap [simp]: "free_chain (s\<lparr>node_heap := h\<rparr>) p bs = free_chain s p bs"
  by (rule free_chain_cong) simp

lemma blocks_ok_rest:
  assumes "memory_ok s" "blocks_ok s (pre @ b # post)" "k < unat (snd b)"
  shows "blocks_ok s (pre @ (fst b + of_nat k, snd b - of_nat k) # post)"
proof -
  have "block_in s b" by (rule blocks_ok_in [OF assms(2)]) simp
  from rest_block [OF assms(1), of "fst b" "snd b" k] this assms(3)
  have "block_in s (fst b + of_nat k, snd b - of_nat k)" "block_bytes (fst b + of_nat k, snd b - of_nat k) \<subseteq> block_bytes b"
    by simp_all
  with assms(2) show ?thesis by (simp add: blocks_ok_append) blast
qed

text \<open>The two words of the head of a block have not changed.\<close>
definition same_head :: "'a vm_state_scheme \<Rightarrow> 'a vm_state_scheme \<Rightarrow> block \<Rightarrow> bool" where
  "same_head s s' c \<longleftrightarrow> load_u64 (fst c) s' = load_u64 (fst c) s \<and> load_u64 (fst c + 8) s' = load_u64 (fst c + 8) s"

text \<open>A block in the array that has no byte in common with some blocks.\<close>
definition other_block :: "'a vm_state_scheme \<Rightarrow> block list \<Rightarrow> block \<Rightarrow> bool" where
  "other_block s bs c \<longleftrightarrow> block_in s c \<and> (\<forall>b \<in> set bs. block_bytes b \<inter> block_bytes c = {})"

lemma cut_chain:
  fixes s :: "'a kmalloc_state_scheme"
  assumes ok: "memory_ok s" and chain: "free_chain s p (pre @ b # post)" and bs: "blocks_ok s (pre @ b # post)"
    and k: "sz = of_nat (16 + k)" "16 \<le> k" "k < unat (snd b)"
  obtains s' where "cut_block sz pred (fst b) s = store_place pred (fst b + of_nat k) s'" "memory_base s' = memory_base s"
    "node_heap s' = node_heap s" "linked_list s' = linked_list s"
    "free_chain s' (fst b + of_nat k) ((fst b + of_nat k, snd b - of_nat k) # post)"
    "\<And>c. other_block s [b] c \<Longrightarrow> same_head s s' c"
proof -
  have b: "block_in s (fst b, snd b)" using blocks_ok_in [OF bs, of b] by simp
  from free_chain_suffix [OF chain] obtain q where q: "load_u64 (fst b) s = Some (snd b)" "load_u64 (fst b + 8) s = Some q"
    "free_chain s q post" by auto
  obtain s' where s': "cut_block sz pred (fst b) s = store_place pred (fst b + of_nat k) s'" "memory_base s' = memory_base s"
    "node_heap s' = node_heap s" "linked_list s' = linked_list s" "load_u64 (fst b + of_nat k) s' = Some (snd b - of_nat k)"
    "load_u64 (fst b + of_nat k + 8) s' = Some q"
    "\<And>x. \<forall>y \<in> cut_words (fst b) (of_nat k). apart y x \<Longrightarrow> load_u64 x s' = load_u64 x s"
    by (rule cut_block_words [OF ok b k q(1,2)]) (rule that)
  have other: "same_head s s' c" if "other_block s [b] c" for c
    using cut_words_other_block [OF ok b [simplified], of c k] k(3) s'(7) that by (simp add: same_head_def other_block_def)
  have "free_chain s' q post"
  proof (subst free_chain_cong [where s = s])
    fix c assume c: "c \<in> set post"
    then have "other_block s [b] c" using bs blocks_ok_in [OF bs, of c] by (simp add: other_block_def blocks_ok_append)
    from other [OF this] show "load_u64 (fst c) s' = load_u64 (fst c) s \<and> load_u64 (fst c + 8) s' = load_u64 (fst c + 8) s"
      by (simp add: same_head_def)
  qed (rule q(3))
  with s'(5,6) have "free_chain s' (fst b + of_nat k) ((fst b + of_nat k, snd b - of_nat k) # post)" by simp
  then show thesis by (intro that [of s'] s'(1-4) other)
qed

text \<open>The last block in front of the cut one is linked to the rest of it.\<close>

lemma relink_chain:
  fixes s s' :: "'a kmalloc_state_scheme"
  assumes ok: "memory_ok s" and bs: "blocks_ok s (pre @ [l] @ c # post)" and base: "memory_base s' = memory_base s"
    and chain: "free_chain s p ((pre @ [l]) @ rest)" and tail: "free_chain s' (fst c) (c # post)"
    and same: "\<And>d. d \<in> set (pre @ [l]) \<Longrightarrow> same_head s s' d"
  obtains s2 where "store_u64 (fst l + 8) (fst c) s' = Some s2" "memory_base s2 = memory_base s"
    "node_heap s2 = node_heap s'" "linked_list s2 = linked_list s'" "free_chain s2 p ((pre @ [l]) @ c # post)"
    "\<And>d. other_block s [l] d \<Longrightarrow> same_head s' s2 d"
proof -
  have l: "block_in s l" by (rule blocks_ok_in [OF bs]) simp
  have "offset_of 8 (fst l + 8) s' \<noteq> None"
    using word_in_block [OF ok l, of 8] offset_of_base [OF base, of 8 "fst l + 8"] by simp
  then obtain s2 where s2: "store_u64 (fst l + 8) (fst c) s' = Some s2" by (rule store_u64_ok)
  note w = store_u64_laws [OF s2]
  have other: "same_head s' s2 d" if "other_block s [l] d" for d
  proof -
    have d: "block_in s d" "block_bytes l \<inter> block_bytes d = {}" using that by (simp_all add: other_block_def)
    have "apart (fst l + 8) (fst d)" "apart (fst l + 8) (fst d + 8)"
      using apart_blocks [OF ok l d, of 8 0] apart_blocks [OF ok l d, of 8 8] by simp_all
    then show ?thesis by (simp add: same_head_def w(3))
  qed
  have pre: "same_head s' s2 d" if "d \<in> set pre" for d
    using that bs blocks_ok_in [OF bs, of d] by (intro other) (auto simp: other_block_def blocks_ok_append)
  have post: "same_head s' s2 d" if "d \<in> set (c # post)" for d
    using that bs blocks_ok_in [OF bs, of d] by (intro other) (auto simp: other_block_def blocks_ok_append)
  have head: "load_u64 (fst l) s2 = load_u64 (fst l) s'"
    using apart_in_block(2) [OF ok l, of 0 8] by (simp add: w(3))
  have tail': "free_chain s2 (fst c) (c # post)"
    using tail free_chain_cong [of "c # post" s2 s' "fst c"] post by (simp add: same_head_def)
  have "free_chain s2 (if pre @ [l] = [] then fst c else p) ((pre @ [l]) @ c # post)"
    by (rule free_chain_exchange [OF chain tail']) (use pre same head w(2) in \<open>auto simp: same_head_def\<close>)
  then have "free_chain s2 p ((pre @ [l]) @ c # post)" by simp
  then show thesis
    by (intro that [of s2] s2 other store_u64_kmalloc [OF s2]) (simp_all add: w(1) base)
qed

text \<open>One request on a page: the blocks afterwards are those of first fit.\<close>

lemma other_block_mono: "other_block s bs c \<Longrightarrow> set as \<subseteq> set bs \<Longrightarrow> other_block s as c"
  by (auto simp: other_block_def)

lemma same_head_trans: "same_head s s' c \<Longrightarrow> same_head s' s2 c \<Longrightarrow> same_head s s2 c"
  by (simp add: same_head_def)

lemma same_head_node_heap [simp]: "same_head s (s'\<lparr>node_heap := h\<rparr>) c = same_head s s' c"
  by (simp add: same_head_def)

lemma request_words:
  fixes sz n :: u64
  assumes "32 \<le> unat sz" "sz - 16 < n"
  obtains k where "sz = of_nat (16 + k)" "16 \<le> k" "k < unat n" "sz - 16 = of_nat k"
proof -
  define k where "k = unat sz - 16"
  have k: "sz = of_nat (16 + k)" "16 \<le> k" using assms(1) by (simp_all add: k_def)
  then have sz16: "sz - 16 = of_nat k" by simp
  have "unat (of_nat k :: u64) = k" using k_def unsigned_less [of sz, where 'a = nat] by (intro unat_of_nat_u64) simp
  with assms(2) have "k < unat n" by (simp add: sz16 word_less_nat_alt)
  with k sz16 show thesis by (intro that)
qed

lemma try_fit_data_some:
  fixes s :: "'a kmalloc_state_scheme"
  assumes page: "page \<noteq> NULL" "node_heap s page = Some n" "memory_ok s" "blocks_ok s bs" "free_chain s (of_nat (node_data n)) bs"
    and sz: "32 \<le> unat sz" and fit: "cut_first sz bs = Some bs'"
  obtains s' d where "try_fit_data h sz page s = Some (h, s')" "memory_base s' = memory_base s"
    "node_heap s' = (node_heap s)(page \<mapsto> n\<lparr>node_data := d\<rparr>)" "linked_list s' = linked_list s"
    "free_chain s' (of_nat d) bs'" "\<And>c. other_block s bs c \<Longrightarrow> same_head s s' c"
proof -
  let ?p = "of_nat (node_data n) :: u64"
  obtain pre b post where split: "bs = pre @ b # post" "sz - 16 < snd b" "bs' = pre @ (fst b + (sz - 16), snd b - (sz - 16)) # post"
    "try_fit_loop h sz (In_Node page) ?p s =
      map_option (Pair h) (cut_block sz (if pre = [] then In_Node page else In_Memory (fst (last pre) + 8)) (fst b) s)"
    by (rule try_fit_loop_some [OF page(5,4) fit])
  obtain k where k: "sz = of_nat (16 + k)" "16 \<le> k" "k < unat (snd b)" "sz - 16 = of_nat k"
    by (rule request_words [OF sz split(2)])
  let ?pred = "if pre = [] then In_Node page else In_Memory (fst (last pre) + 8)"
  let ?c = "(fst b + of_nat k, snd b - of_nat k)"
  have bs': "bs' = pre @ ?c # post" by (simp add: split(3) k(4))
  obtain s1 where s1: "cut_block sz ?pred (fst b) s = store_place ?pred (fst b + of_nat k) s1" "memory_base s1 = memory_base s"
    "node_heap s1 = node_heap s" "linked_list s1 = linked_list s" "free_chain s1 (fst b + of_nat k) (?c # post)"
    "\<And>c. other_block s [b] c \<Longrightarrow> same_head s s1 c"
    by (rule cut_chain [OF page(3) page(5) [unfolded split(1)] page(4) [unfolded split(1)] k(1-3), of ?pred]) (rule that)
  have data: "try_fit_data h sz page s = map_option (Pair h) (store_place ?pred (fst b + of_nat k) s1)"
    using page(1,2) split(4) s1(1) by (simp add: try_fit_data_def load_at_def)
  have b: "set [b] \<subseteq> set bs" by (simp add: split(1))
  show thesis
  proof (cases pre rule: rev_cases)
    case Nil
    let ?d = "unat (fst b + of_nat k)"
    let ?s' = "s1\<lparr>node_heap := (node_heap s)(page \<mapsto> n\<lparr>node_data := ?d\<rparr>)\<rparr>"
    have "try_fit_data h sz page s = Some (h, ?s')"
      using data Nil page(1,2) s1(3) by (simp add: write_at_def load_at_def)
    then show thesis
      by (rule that [of ?s' ?d]) (use s1 bs' Nil other_block_mono [OF _ b, of s] in simp_all)
  next
    case (snoc pre' l)
    have ok': "blocks_ok s (pre' @ [l] @ ?c # post)"
      using blocks_ok_rest [OF page(3) page(4) [unfolded split(1)] k(3)] by (simp add: snoc)
    have l: "set [l] \<subseteq> set bs" by (simp add: split(1) snoc)
    have front: "same_head s s1 d" if "d \<in> set (pre' @ [l])" for d
      using that page(4) blocks_ok_in [OF page(4), of d]
      by (intro s1(6)) (auto simp: other_block_def split(1) snoc blocks_ok_append)
    obtain s2 where s2: "store_u64 (fst l + 8) (fst ?c) s1 = Some s2" "memory_base s2 = memory_base s"
      "node_heap s2 = node_heap s1" "linked_list s2 = linked_list s1" "free_chain s2 ?p ((pre' @ [l]) @ ?c # post)"
      "\<And>d. other_block s [l] d \<Longrightarrow> same_head s1 s2 d"
      by (rule relink_chain [OF page(3) ok' s1(2) page(5) [unfolded split(1) snoc] _ front])
        (use s1(5) that in simp_all)
    have "try_fit_data h sz page s = Some (h, s2)" using data snoc s2(1) by simp
    moreover have "n\<lparr>node_data := node_data n\<rparr> = n" by simp
    moreover have "same_head s s2 d" if "other_block s bs d" for d
      using same_head_trans [OF s1(6) [OF other_block_mono [OF that b]] s2(6) [OF other_block_mono [OF that l]]] .
    ultimately show thesis
      by (intro that [of s2 "node_data n"]) (use s1 s2 bs' snoc page(2) in \<open>simp_all add: fun_upd_idem\<close>)
  qed
qed

lemma try_fit_data_none:
  assumes "page \<noteq> NULL" "node_heap s page = Some n" "blocks_ok s bs" "free_chain s (of_nat (node_data n)) bs" "cut_first sz bs = None"
  shows "try_fit_data h sz page s = Some (0, s)"
  using try_fit_loop_none [OF assms(4,3,5)] assms(1,2) by (simp add: try_fit_data_def load_at_def)

section \<open>The pages\<close>

text \<open>A page: its node in the list of pages, and its free blocks.\<close>
type_synonym page = "ptr \<times> block list"

primrec page_list :: "'a kmalloc_state_scheme \<Rightarrow> ptr \<Rightarrow> page list \<Rightarrow> bool" where
  "page_list s p [] \<longleftrightarrow> p = NULL"
| "page_list s p (b # ps) \<longleftrightarrow> p = fst b \<and> p \<noteq> NULL \<and>
     (\<exists>n. node_heap s p = Some n \<and> free_chain s (of_nat (node_data n)) (snd b) \<and> page_list s (node_next n) ps)"

definition page_blocks :: "page list \<Rightarrow> block list" where
  "page_blocks ps = concat (map snd ps)"

lemma page_blocks_simps [simp]: "page_blocks [] = []" "page_blocks (b # ps) = snd b @ page_blocks ps"
  by (simp_all add: page_blocks_def)

text \<open>The state of the allocator holds the pages: different nodes, and no byte in two blocks.\<close>
definition free_pages :: "'a kmalloc_state_scheme \<Rightarrow> page list \<Rightarrow> bool" where
  "free_pages s ps \<longleftrightarrow> memory_ok s \<and> distinct (map fst ps) \<and> blocks_ok s (page_blocks ps) \<and>
     page_list s (list_head (linked_list s)) ps"

text \<open>First fit on the pages: the first page with a block that fits serves the request.\<close>
primrec first_fit :: "u64 \<Rightarrow> page list \<Rightarrow> page list option" where
  "first_fit sz [] = None"
| "first_fit sz (b # ps) =
     (case cut_first sz (snd b) of
        Some bs \<Rightarrow> Some ((fst b, bs) # ps)
      | None \<Rightarrow> map_option ((#) b) (first_fit sz ps))"

lemma first_fit_nodes: "first_fit sz ps = Some ps' \<Longrightarrow> map fst ps' = map fst ps"
  by (induction ps arbitrary: ps') (auto split: option.splits)

lemma cut_first_append:
  "cut_first sz (as @ bs) = (case cut_first sz as of Some as' \<Rightarrow> Some (as' @ bs) | None \<Rightarrow> map_option ((@) as) (cut_first sz bs))"
  by (induction as; cases "cut_first sz bs") (auto split: option.splits)

text \<open>It is first fit on the blocks of all pages in a row.\<close>

lemma first_fit_blocks: "map_option page_blocks (first_fit sz ps) = cut_first sz (page_blocks ps)"
proof (induction ps)
  case (Cons b ps)
  then show ?case by (cases "first_fit sz ps") (simp_all add: cut_first_append flip: Cons.IH split: option.split)
qed simp

lemma cut_first_split:
  assumes "cut_first sz bs = Some bs'"
  obtains pre b post where "bs = pre @ b # post" "sz - 16 < snd b" "bs' = pre @ (fst b + (sz - 16), snd b - (sz - 16)) # post"
  using assms
proof (induction bs arbitrary: bs' thesis)
  case (Cons b bs)
  show ?case
  proof (cases "sz - 16 < snd b")
    case True
    with Cons.prems show ?thesis by (intro Cons.prems(1) [of "[]" b bs]) simp_all
  next
    case False
    with Cons.prems(2) obtain bs1 where bs1: "cut_first sz bs = Some bs1" "bs' = b # bs1" by auto
    obtain pre c post where "bs = pre @ c # post" "sz - 16 < snd c" "bs1 = pre @ (fst c + (sz - 16), snd c - (sz - 16)) # post"
      by (rule Cons.IH [OF _ bs1(1)])
    with bs1(2) show ?thesis by (intro Cons.prems(1) [of "b # pre" c post]) simp_all
  qed
qed simp

lemma first_fit_blocks_ok:
  assumes "memory_ok s" "blocks_ok s (page_blocks ps)" "32 \<le> unat sz" "first_fit sz ps = Some ps'"
  shows "blocks_ok s (page_blocks ps')"
proof -
  have "cut_first sz (page_blocks ps) = Some (page_blocks ps')" by (simp add: assms(4) flip: first_fit_blocks)
  then obtain pre b post where cut: "page_blocks ps = pre @ b # post" "sz - 16 < snd b"
    "page_blocks ps' = pre @ (fst b + (sz - 16), snd b - (sz - 16)) # post"
    by (rule cut_first_split)
  obtain k where k: "k < unat (snd b)" "sz - 16 = of_nat k" by (rule request_words [OF assms(3) cut(2)]) (rule that)
  show ?thesis using blocks_ok_rest [OF assms(1) _ k(1)] assms(2) by (simp add: cut(1,3) k(2))
qed

lemma page_list_cong:
  assumes "page_list s p ps" "\<And>a. a \<in> set (map fst ps) \<Longrightarrow> node_heap s' a = node_heap s a"
    "\<And>c. c \<in> set (page_blocks ps) \<Longrightarrow> same_head s s' c"
  shows "page_list s' p ps"
  using assms
proof (induction ps arbitrary: p)
  case (Cons b ps)
  from Cons.prems(1) obtain n where n: "p = fst b" "p \<noteq> NULL" "node_heap s p = Some n"
    "free_chain s (of_nat (node_data n)) (snd b)" "page_list s (node_next n) ps" by auto
  have "page_list s' (node_next n) ps" by (rule Cons.IH [OF n(5)]) (use Cons.prems(2,3) in simp_all)
  moreover have "free_chain s' (of_nat (node_data n)) (snd b)"
    using n(4) free_chain_cong [of "snd b" s' s] Cons.prems(3) by (simp add: same_head_def)
  ultimately show ?case using n(1-3) Cons.prems(2) [of p] by simp
qed simp

text \<open>The search over the pages.\<close>

lemma kmalloc_loop_some:
  fixes s :: "'a kmalloc_state_scheme"
  assumes "memory_ok s" "page_list s p ps" "distinct (map fst ps)" "blocks_ok s (page_blocks ps)"
    and "32 \<le> unat sz" "h \<noteq> 0" "first_fit sz ps = Some ps'"
  obtains s' where "kmalloc_loop h sz p s = Some (h, s')" "memory_base s' = memory_base s" "linked_list s' = linked_list s"
    "page_list s' p ps'" "\<And>a. a \<notin> set (map fst ps) \<Longrightarrow> node_heap s' a = node_heap s a"
    "\<And>c. other_block s (page_blocks ps) c \<Longrightarrow> same_head s s' c"
  using assms
proof (induction ps arbitrary: p ps' thesis)
  case (Cons b ps)
  from Cons.prems(3) obtain n where n: "p = fst b" "p \<noteq> NULL" "node_heap s p = Some n"
    "free_chain s (of_nat (node_data n)) (snd b)" "page_list s (node_next n) ps" by auto
  have ok: "blocks_ok s (snd b)" "blocks_ok s (page_blocks ps)" "distinct (map fst ps)" "p \<notin> set (map fst ps)"
    using Cons.prems(4,5) n(1) by (simp_all add: blocks_ok_append)
  have apart_pages: "block_bytes c \<inter> block_bytes d = {}" if "c \<in> set (snd b)" "d \<in> set (page_blocks ps)" for c d
    using Cons.prems(5) that by (simp add: blocks_ok_append)
  show ?case
  proof (cases "cut_first sz (snd b)")
    case None
    then obtain ps1 where ps1: "first_fit sz ps = Some ps1" "ps' = b # ps1" using Cons.prems(8) by auto
    obtain s' where s': "kmalloc_loop h sz (node_next n) s = Some (h, s')" "memory_base s' = memory_base s"
      "linked_list s' = linked_list s" "page_list s' (node_next n) ps1" "\<And>a. a \<notin> set (map fst ps) \<Longrightarrow> node_heap s' a = node_heap s a"
      "\<And>c. other_block s (page_blocks ps) c \<Longrightarrow> same_head s s' c"
      by (rule Cons.IH [OF _ Cons.prems(2) n(5) ok(3,2) Cons.prems(6,7) ps1(1)]) (rule that)
    have "other_block s (page_blocks ps) c" if "c \<in> set (snd b)" for c
      using blocks_ok_in [OF ok(1) that] apart_pages [OF that] by (simp add: other_block_def Int_commute)
    then have "free_chain s' (of_nat (node_data n)) (snd b)"
      using n(4) free_chain_cong [of "snd b" s' s] s'(6) by (simp add: same_head_def)
    then have "page_list s' p ps'" using n(1-3) s'(4) s'(5) [OF ok(4)] ps1(2) by simp
    moreover have "kmalloc_loop h sz p s = Some (h, s')"
      using try_fit_data_none [OF n(2,3) ok(1) n(4) None] n(2,3) s'(1)
      by (simp add: kmalloc_loop.simps [of h sz p] load_at_def)
    moreover have "same_head s s' c" if "other_block s (page_blocks (b # ps)) c" for c
      by (rule s'(6)) (use that in \<open>simp add: other_block_def\<close>)
    ultimately show ?thesis by (intro Cons.prems(1) [of s']) (use s' in simp_all)
  next
    case (Some bs)
    obtain s' d where s': "try_fit_data h sz p s = Some (h, s')" "memory_base s' = memory_base s"
      "node_heap s' = (node_heap s)(p \<mapsto> n\<lparr>node_data := d\<rparr>)" "linked_list s' = linked_list s"
      "free_chain s' (of_nat d) bs" "\<And>c. other_block s (snd b) c \<Longrightarrow> same_head s s' c"
      by (rule try_fit_data_some [OF n(2,3) Cons.prems(2) ok(1) n(4) Cons.prems(6) Some]) (rule that)
    have "page_list s' (node_next n) ps"
    proof (rule page_list_cong [OF n(5)])
      show "node_heap s' a = node_heap s a" if "a \<in> set (map fst ps)" for a using that ok(4) s'(3) by auto
      show "same_head s s' c" if "c \<in> set (page_blocks ps)" for c
        using blocks_ok_in [OF ok(2) that] apart_pages [OF _ that] by (intro s'(6)) (simp add: other_block_def)
    qed
    then have "page_list s' p ps'" using n(1,2) s'(3,5) Some Cons.prems(8) by auto
    moreover have "kmalloc_loop h sz p s = Some (h, s')"
      using s'(1) n(2) Cons.prems(7) by (simp add: kmalloc_loop.simps [of h sz p])
    moreover have "same_head s s' c" if "other_block s (page_blocks (b # ps)) c" for c
      by (rule s'(6)) (use that in \<open>simp add: other_block_def\<close>)
    ultimately show ?thesis by (intro Cons.prems(1) [of s']) (use s' n(1) in simp_all)
  qed
qed simp

lemma kmalloc_loop_none:
  assumes "page_list s p ps" "blocks_ok s (page_blocks ps)" "first_fit sz ps = None"
  shows "kmalloc_loop h sz p s = Some (0, s)"
  using assms
proof (induction ps arbitrary: p)
  case Nil
  then show ?case by (subst kmalloc_loop.simps) simp
next
  case (Cons b ps)
  from Cons.prems(1) obtain n where n: "p = fst b" "p \<noteq> NULL" "node_heap s p = Some n"
    "free_chain s (of_nat (node_data n)) (snd b)" "page_list s (node_next n) ps" by auto
  have ok: "blocks_ok s (snd b)" "blocks_ok s (page_blocks ps)" using Cons.prems(2) by (simp_all add: blocks_ok_append)
  have none: "cut_first sz (snd b) = None" "first_fit sz ps = None" using Cons.prems(3) by (auto split: option.splits)
  show ?case
    using try_fit_data_none [OF n(2,3) ok(1) n(4) none(1), of h] Cons.IH [OF n(5) ok(2) none(2)] n(2,3)
    by (simp add: kmalloc_loop.simps [of h sz p] load_at_def)
qed

text \<open>\<open>kmalloc\<close> serves a request exactly when first fit does.\<close>

lemma kmalloc_some:
  fixes s :: "'a kmalloc_state_scheme"
  assumes "free_pages s ps" "32 \<le> unat sz" "header_address \<noteq> 0" "first_fit sz ps = Some ps'"
  obtains s' where "kmalloc new_node PAGE_ADDRESS header_address node sz s = Some (header_address, s')"
    "free_pages s' ps'"
proof -
  have s: "memory_ok s" "distinct (map fst ps)" "blocks_ok s (page_blocks ps)" "page_list s (list_head (linked_list s)) ps"
    using assms(1) by (simp_all add: free_pages_def)
  obtain s' where s': "kmalloc_loop header_address sz (list_head (linked_list s)) s = Some (header_address, s')"
    "memory_base s' = memory_base s" "linked_list s' = linked_list s" "page_list s' (list_head (linked_list s)) ps'"
    by (rule kmalloc_loop_some [OF s(1,4,2,3) assms(2-4)]) (rule that)
  have "blocks_ok s' (page_blocks ps')"
    using first_fit_blocks_ok [OF s(1,3) assms(2,4)] by (simp add: blocks_ok_base [OF s'(2)])
  then have "free_pages s' ps'"
    using s s' first_fit_nodes [OF assms(4)] by (simp add: free_pages_def memory_ok_base [OF s'(2)])
  then show thesis using s'(1,2) assms(3) by (intro that [of s']) (simp_all add: kmalloc_def)
qed

lemma kmalloc_none:
  assumes "free_pages s ps" "first_fit sz ps = None"
  shows "kmalloc new_node PAGE_ADDRESS header_address node sz s = None"
proof -
  have "memory_base s \<noteq> 0" using assms(1) by (auto simp: free_pages_def memory_ok_def)
  then show ?thesis using kmalloc_loop_none [of s "list_head (linked_list s)" ps sz header_address] assms
    by (simp add: free_pages_def kmalloc_def block_init_def palloc_undefined)
qed

section \<open>Requests\<close>

text \<open>A sequence of calls of \<open>kmalloc\<close>, and of requests served by first fit.\<close>

primrec kmallocs ::
    "('a kmalloc_state_scheme \<Rightarrow> (u64 \<times> 'a kmalloc_state_scheme) option) \<Rightarrow> (u64 \<Rightarrow> u64) \<Rightarrow> u64 \<Rightarrow> ptr \<Rightarrow> u64 list \<Rightarrow> 'a kmalloc_state_scheme \<Rightarrow> (u64 list \<times> 'a kmalloc_state_scheme) option" where
  "kmallocs new_node PAGE_ADDRESS header_address node [] s = Some ([], s)"
| "kmallocs new_node PAGE_ADDRESS header_address node (sz # szs) s =
     do {
       (p, s) \<leftarrow> kmalloc new_node PAGE_ADDRESS header_address node sz s;
       (rs, s) \<leftarrow> kmallocs new_node PAGE_ADDRESS header_address node szs s;
       Some (p # rs, s)
     }"

primrec serve_all :: "u64 list \<Rightarrow> page list \<Rightarrow> page list option" where
  "serve_all [] ps = Some ps"
| "serve_all (sz # szs) ps = do { ps \<leftarrow> first_fit sz ps; serve_all szs ps }"

text \<open>
  C20: \<open>kmalloc\<close> is first fit. Let every page in the list of the allocator hold a chain of
  free blocks, in the array and without a common byte. For every sequence of sizes of at
  least 32, the calls of \<open>kmalloc\<close> are defined exactly when the requests can be served one
  after the other by first fit, which takes the first block in the order of the pages that is
  larger than \<open>size - 16\<close> and keeps its rest behind the chunk as a free block; and then the pages hold
  the blocks that first fit leaves. Every call returns the
  address of the local variable \<open>header\<close>. A new page is never added, as \<open>block_init\<close> is undefined.
\<close>
theorem kmalloc_refines_first_fit:
  fixes s :: "'a kmalloc_state_scheme"
  assumes "free_pages s ps" "\<forall>sz \<in> set szs. 32 \<le> unat sz" "header_address \<noteq> 0"
  shows "case serve_all szs ps of
     Some ps' \<Rightarrow> \<exists>s'. kmallocs new_node PAGE_ADDRESS header_address node szs s =
       Some (replicate (length szs) header_address, s') \<and> free_pages s' ps'
   | None \<Rightarrow> kmallocs new_node PAGE_ADDRESS header_address node szs s = None"
  using assms
proof (induction szs arbitrary: s ps)
  case (Cons sz szs)
  show ?case
  proof (cases "first_fit sz ps")
    case None
    with kmalloc_none [OF Cons.prems(1) None] show ?thesis by simp
  next
    case (Some ps1)
    have "32 \<le> unat sz" using Cons.prems(2) by simp
    from Cons.prems(1) this Cons.prems(3) Some obtain s1 where s1: "kmalloc new_node PAGE_ADDRESS header_address node sz s = Some (header_address, s1)"
      "free_pages s1 ps1"
      by (rule kmalloc_some)
    with Cons.IH [OF s1(2) _ Cons.prems(3)] Cons.prems(2) Some s1(1) show ?thesis by (auto split: option.splits)
  qed
qed simp

definition two_pages :: kmalloc_state where
  "two_pages = new_kmalloc\<lparr>memory := put_u64 (put_u64 (\<lambda>_. 0) 0 100) 4096 4072,
     linked_list := \<lparr>list_head = 1, list_tail = 2\<rparr>,
     node_heap := [1 \<mapsto> \<lparr>node_data = 0x10000, node_prev = 0, node_next = 2\<rparr>,
       2 \<mapsto> \<lparr>node_data = 0x11000, node_prev = 1, node_next = 0\<rparr>]\<rparr>"

theorem kmalloc_refines_first_fit_witness:
  "\<exists>s'. kmallocs (\<lambda>s. Some (0, s)) (\<lambda>p. p) 0x7fff0000 3 [64, 200, 64] two_pages =
       Some ([0x7fff0000, 0x7fff0000, 0x7fff0000], s') \<and>
     free_pages s' [(1, [(0x10060, 4)]), (2, [(0x110b8, 3888)])]"
proof -
  have "free_pages two_pages [(1, [(0x10000, 100)]), (2, [(0x11000, 4072)])]"
    by (simp add: free_pages_def two_pages_def new_kmalloc_def memory_ok_def block_in_def block_bytes_def offset_of_def
      load_u64_def get_put_u64_other get_u64_zero)
  from kmalloc_refines_first_fit [OF this, of "[64, 200, 64]" "0x7fff0000" "\<lambda>s. Some (0, s)" "\<lambda>p. p" 3] show ?thesis
    by (simp add: numeral_3_eq_3)
qed

end
