(* ===== verification/Memory_Testers.thy ===== *)
theory Memory_Testers imports Kmalloc_Properties begin

text \<open>
  The programs \<open>tester1.c\<close> and \<open>tester2.c\<close> of \<open>HW3-skeleton\<close>, which allocate and free chunks of
  random sizes. The numbers that \<open>rand\<close> returns are an input, a sequence with the number of
  those already taken; so are the nodes that \<open>malloc\<close> returns for the lists, as a function
  of the heap, and what the allocator takes as parameters. The second program starts eight
  threads, which run \<open>threadFunction\<close> on the same memory in any order, here one at a time.
\<close>

text \<open>What both programs are given.\<close>
record environment =
  rand :: "nat \<Rightarrow> int"
  tables :: "kmalloc_state \<Rightarrow> (u64 \<times> kmalloc_state) option"
  page_address :: "u64 \<Rightarrow> u64"
  header_at :: u64
  parameter_at :: u64
  fresh_node :: "heap \<Rightarrow> ptr"

definition env_kmalloc :: "environment \<Rightarrow> int \<Rightarrow> kmalloc_state \<Rightarrow> (u64 \<times> kmalloc_state) option" where
  "env_kmalloc E n s = kmalloc (tables E) (page_address E) (header_at E) (fresh_node E (node_heap s)) (word_of_int n) s"

section \<open>The programs\<close>

text \<open>
  \<open>MIN(remaining_bytes, (rand() % 4096) + 1)\<close>: the macro evaluates its second argument once for
  the comparison, and a second time for the result. \<open>rand\<close> is not negative.
\<close>
definition next_chunk_size :: "environment \<Rightarrow> int \<Rightarrow> nat \<Rightarrow> int \<times> nat" where
  "next_chunk_size E remaining_bytes k =
     (if remaining_bytes < rand E k mod 4096 + 1 then (remaining_bytes, k + 1)
      else (rand E (k + 1) mod 4096 + 1, k + 2))"

text \<open>The loop that frees what a list of chunks holds.\<close>
partial_function (option) free_chunks :: "environment \<Rightarrow> ll_list \<Rightarrow> kmalloc_state \<Rightarrow> (ll_list \<times> kmalloc_state) option" where
  "free_chunks E chunks s =
     do {
       (first, chunks, h) \<leftarrow> ll_remove_head chunks (node_heap s);
       let s = s\<lparr>node_heap := h\<rparr>;
       (if first \<noteq> NULL then
          do {
            n \<leftarrow> load_at h first;
            s \<leftarrow> kfree (parameter_at E) (of_nat (node_data n)) s;
            free_chunks E chunks s
          }
        else Some (chunks, s))
     }"

text \<open>The allocation of one chunk: \<open>None\<close> for the new amount when the memory is full.\<close>
definition allocate_chunk ::
    "environment \<Rightarrow> nat \<Rightarrow> int \<Rightarrow> ll_list \<Rightarrow> kmalloc_state \<Rightarrow> (nat \<times> int option \<times> ll_list \<times> kmalloc_state) option" where
  "allocate_chunk E k remaining_bytes chunks s =
     do {
       let (chunk_size, k) = next_chunk_size E remaining_bytes k;
       (memory, s) \<leftarrow> env_kmalloc E chunk_size s;
       (if memory = 0 then Some (k, None, chunks, s)
        else do {
          (_, chunks, h) \<leftarrow> ll_insert_head (fresh_node E (node_heap s)) (unat memory) chunks (node_heap s);
          Some (k, Some (remaining_bytes - chunk_size), chunks, s\<lparr>node_heap := h\<rparr>)
        })
     }"

partial_function (option) allocate_chunks ::
    "environment \<Rightarrow> nat \<Rightarrow> int \<Rightarrow> ll_list \<Rightarrow> kmalloc_state \<Rightarrow> (ll_list \<times> kmalloc_state) option" where
  "allocate_chunks E k remaining_bytes chunks s =
     (if 0 < remaining_bytes then
        do {
          (k, remaining, chunks, s) \<leftarrow> allocate_chunk E k remaining_bytes chunks s;
          (case remaining of
             None \<Rightarrow> Some (chunks, s)
           | Some remaining_bytes \<Rightarrow> allocate_chunks E k remaining_bytes chunks s)
        }
      else Some (chunks, s))"

text \<open>\<open>main\<close> of the first program; \<open>chunks\<close> is the uninitialised list.\<close>
definition tester1 :: "environment \<Rightarrow> ll_list \<Rightarrow> kmalloc_state \<Rightarrow> kmalloc_state option" where
  "tester1 E chunks s =
     do {
       chunks \<leftarrow> ll_init (Some chunks);
       (chunks, s) \<leftarrow> allocate_chunks E 0 41960 chunks s;
       (chunks, s) \<leftarrow> free_chunks E chunks s;
       Some s
     }"

text \<open>The loop of \<open>threadFunction\<close>; nothing in it changes \<open>counter\<close>.\<close>
partial_function (option) thread_loop ::
    "environment \<Rightarrow> nat \<Rightarrow> int \<Rightarrow> int \<Rightarrow> ll_list \<Rightarrow> kmalloc_state \<Rightarrow> (ll_list \<times> kmalloc_state) option" where
  "thread_loop E k counter remaining_bytes chunks s =
     (if 0 < remaining_bytes then
        if counter mod 10 \<noteq> 0 then
          do {
            (first, chunks, h) \<leftarrow> ll_remove_head chunks (node_heap s);
            let s = s\<lparr>node_heap := h\<rparr>;
            s \<leftarrow> (if first \<noteq> NULL then do { n \<leftarrow> load_at h first; kfree (parameter_at E) (of_nat (node_data n)) s } else Some s);
            thread_loop E k counter remaining_bytes chunks s
          }
        else
          do {
            (k, remaining, chunks, s) \<leftarrow> allocate_chunk E k remaining_bytes chunks s;
            (case remaining of
               None \<Rightarrow> Some (chunks, s)
             | Some remaining_bytes \<Rightarrow> thread_loop E k counter remaining_bytes chunks s)
          }
      else Some (chunks, s))"

definition threadFunction :: "environment \<Rightarrow> ll_list \<Rightarrow> kmalloc_state \<Rightarrow> kmalloc_state option" where
  "threadFunction E chunks s =
     do {
       chunks \<leftarrow> ll_init (Some chunks);
       (chunks, s) \<leftarrow> thread_loop E 0 0 524288 chunks s;
       (chunks, s) \<leftarrow> free_chunks E chunks s;
       Some s
     }"

text \<open>
  \<open>main\<close> of the second program: where it is, how many threads it has started, which of them
  have returned, and the memory they share.
\<close>
datatype tester2_pc = Creating_thread nat | Joining_thread nat | Returned int

record tester2_run =
  tester2_at :: tester2_pc
  started_threads :: nat
  returned_threads :: "nat set"
  shared_memory :: kmalloc_state

definition tester2_start :: "kmalloc_state \<Rightarrow> tester2_run" where
  "tester2_start s = \<lparr>tester2_at = Creating_thread 0, started_threads = 0, returned_threads = {}, shared_memory = s\<rparr>"

text \<open>
  \<open>E t\<close> and \<open>chunks t\<close> are the inputs and the uninitialised list of thread \<open>t\<close>. Both \<open>pthread\<close>
  calls can fail; a join succeeds once its thread has returned.
\<close>
inductive tester2_step :: "(nat \<Rightarrow> environment) \<Rightarrow> (nat \<Rightarrow> ll_list) \<Rightarrow> tester2_run \<Rightarrow> tester2_run \<Rightarrow> bool" for E chunks where
  creates: "tester2_at r = Creating_thread i \<Longrightarrow> i < 8 \<Longrightarrow>
    tester2_step E chunks r (r\<lparr>tester2_at := Creating_thread (i + 1), started_threads := i + 1\<rparr>)"
| create_fails: "tester2_at r = Creating_thread i \<Longrightarrow> i < 8 \<Longrightarrow> tester2_step E chunks r (r\<lparr>tester2_at := Returned 1\<rparr>)"
| all_created: "tester2_at r = Creating_thread 8 \<Longrightarrow> tester2_step E chunks r (r\<lparr>tester2_at := Joining_thread 0\<rparr>)"
| thread_runs: "\<forall>n. tester2_at r \<noteq> Returned n \<Longrightarrow> t < started_threads r \<Longrightarrow> t \<notin> returned_threads r \<Longrightarrow>
    threadFunction (E t) (chunks t) (shared_memory r) = Some s \<Longrightarrow>
    tester2_step E chunks r (r\<lparr>returned_threads := insert t (returned_threads r), shared_memory := s\<rparr>)"
| joins: "tester2_at r = Joining_thread i \<Longrightarrow> i < 8 \<Longrightarrow> i \<in> returned_threads r \<Longrightarrow>
    tester2_step E chunks r (r\<lparr>tester2_at := Joining_thread (i + 1)\<rparr>)"
| join_fails: "tester2_at r = Joining_thread i \<Longrightarrow> i < 8 \<Longrightarrow> tester2_step E chunks r (r\<lparr>tester2_at := Returned 1\<rparr>)"
| all_joined: "tester2_at r = Joining_thread 8 \<Longrightarrow> tester2_step E chunks r (r\<lparr>tester2_at := Returned 0\<rparr>)"

inductive tester2_steps :: "(nat \<Rightarrow> environment) \<Rightarrow> (nat \<Rightarrow> ll_list) \<Rightarrow> tester2_run \<Rightarrow> tester2_run \<Rightarrow> bool" for E chunks r where
  tester2_refl: "tester2_steps E chunks r r"
| tester2_next: "tester2_steps E chunks r r1 \<Longrightarrow> tester2_step E chunks r1 r2 \<Longrightarrow> tester2_steps E chunks r r2"

section \<open>What they get\<close>

text \<open>A chunk is never empty; it may be larger than what remains, because the macro draws twice.\<close>

lemma next_chunk_size_bounds:
  assumes "0 < remaining_bytes"
  shows "0 < fst (next_chunk_size E remaining_bytes k)" "fst (next_chunk_size E remaining_bytes k) \<le> 4096"
proof -
  have "0 \<le> rand E j mod 4096" "rand E j mod 4096 < 4096" for j by simp_all
  with assms show "0 < fst (next_chunk_size E remaining_bytes k)" "fst (next_chunk_size E remaining_bytes k) \<le> 4096"
    by (auto simp: next_chunk_size_def add_nonneg_pos intro: less_imp_le [THEN order_trans] dest: order_less_le_trans)
qed

lemma env_kmalloc_undefined:
  assumes "memory_base s \<noteq> 0" "list_head (linked_list s) = NULL"
  shows "env_kmalloc E m s = None"
  using palloc_undefined [OF assms(1)] assms(2) by (simp add: env_kmalloc_def kmalloc_def kmalloc_loop.simps block_init_def)

lemma testers_undefined:
  assumes "memory_base s \<noteq> 0" "list_head (linked_list s) = NULL"
  shows "tester1 E chunks s = None" "threadFunction E chunks s = None"
proof -
  have chunk: "allocate_chunk E k r l s = None" for k r l
    using env_kmalloc_undefined [OF assms] by (simp add: allocate_chunk_def split: prod.split)
  show "tester1 E chunks s = None" by (simp add: tester1_def ll_init_def allocate_chunks.simps [of E 0 41960] chunk)
  show "threadFunction E chunks s = None" by (simp add: threadFunction_def ll_init_def thread_loop.simps [of E 0 0 524288] chunk)
qed

text \<open>No thread of the second program returns, so none is joined.\<close>

lemma tester2_invariant:
  assumes "memory_base s \<noteq> 0" "list_head (linked_list s) = NULL" and "tester2_steps E chunks (tester2_start s) r"
  shows "shared_memory r = s \<and> returned_threads r = {} \<and> (\<forall>i. tester2_at r = Joining_thread i \<longrightarrow> i = 0) \<and> tester2_at r \<noteq> Returned 0"
  using assms(3)
proof (induction rule: tester2_steps.induct)
  case (tester2_next r1 r2)
  from tester2_next.hyps(2) tester2_next.IH testers_undefined(2) [OF assms(1,2)] show ?case
    by (cases rule: tester2_step.cases) auto
qed (simp add: tester2_start_def)

text \<open>
  C40: no program gets any memory. \<open>palloc\<close> returns for no request, because \<open>vm_locate\<close> does
  not; \<open>kmalloc\<close> on the list without pages, as every program starts with, does not return
  either, whatever the size; so the first tester ends in its first allocation, and the second
  never returns \<open>EXIT_SUCCESS\<close>, however its eight threads are scheduled.
\<close>
theorem no_memory_is_allocated:
  assumes "memory_base s \<noteq> 0" "list_head (linked_list s) = NULL"
  shows "palloc (tables E) (page_address E) number s = None \<and> env_kmalloc E n s = None \<and> tester1 E chunks s = None \<and>
    (\<forall>r. tester2_steps Es cs (tester2_start s) r \<longrightarrow> returned_threads r = {} \<and> tester2_at r \<noteq> Returned 0)"
  using palloc_undefined [OF assms(1)] env_kmalloc_undefined [OF assms] testers_undefined(1) [OF assms]
    tester2_invariant [OF assms] by blast

theorem no_memory_is_allocated_witness:
  "let E = \<lparr>rand = (\<lambda>k. 17 * int k), tables = make_node, page_address = (\<lambda>p. p), header_at = 8, parameter_at = 16, fresh_node = (\<lambda>h. 5)\<rparr>;
       s = new_kmalloc\<lparr>linked_list := \<lparr>list_head = 0, list_tail = 0\<rparr>\<rparr>
    in tester1 E \<lparr>list_head = 3, list_tail = 4\<rparr> s = None \<and>
      (\<forall>r. tester2_steps (\<lambda>_. E) (\<lambda>_. \<lparr>list_head = 3, list_tail = 4\<rparr>) (tester2_start s) r \<longrightarrow> tester2_at r \<noteq> Returned 0)"
  using no_memory_is_allocated [of "new_kmalloc\<lparr>linked_list := \<lparr>list_head = 0, list_tail = 0\<rparr>\<rparr>"]
  by (simp add: new_kmalloc_def Let_def)

end
