(* ===== verification/Spec2Isabelle.thy ===== *)
theory Spec2Isabelle imports FS_Properties FS_Tester LL_Properties Frame_Properties Client_Properties Threads_Properties Synchronization_Properties Alarm Producer_Consumer_Properties Preemption Pool_Properties Server_Properties Statemachine_Server Fork_Properties Translation_Properties Kmalloc_Properties Free_List Memory_Testers begin

text \<open>
  Verification of four student projects in C on operating systems: a web server
  (\<open>HW1-skeleton\<close>), user-level threads (\<open>HW2-skeleton\<close>), a simulated memory with page tables
  and a kernel allocator (\<open>HW3-skeleton\<close>), and a filesystem (\<open>HW4-skeleton\<close>). Each project is
  a program of its own; they share the doubly linked list and the C types.

  \<^bold>\<open>How C is modelled.\<close> \<open>uint64_t\<close> is \<open>64 word\<close> with its wrap-around, \<open>int\<close> is the type of
  integers with a guard where an overflow is possible, a buffer is a function from offsets
  to bytes, structures are records, pointers into the heap are natural numbers with 0 as
  NULL. A function takes the state it uses and returns it updated. A result of type
  \<open>option\<close> is \<open>None\<close> where C leaves the behaviour undefined (NULL, an access out of range, a
  jump through an unsaved context) or a loop does not end; in the programs with several threads
  an undefined step is the absence of a step, so that the states of a run are those before
  it. The error codes of the programs are ordinary results. What \<open>malloc\<close> returns and what uninitialised memory holds are
  arguments. Loops with a known number of rounds are structural or have a measure; loops
  over lists and other loops that may run for ever are \<open>partial_function\<close>s, for which the
  theorems show that they return. No fuel is used.

  \<^bold>\<open>The theories.\<close>

  \<^item> \<open>C_Prelude\<close>: types, \<open>memcpy\<close>, \<open>memset\<close>, little-endian 64-bit fields, the counted loop
  with an early return (\<open>first_some\<close>). \<open>Allocator\<close>: the contract (locale) of a first-fit
  allocator of numbered units, which the block bitmap and the frame bitmap provide.
  \<open>Links\<close>: chains of nodes with two pointer fields (locale \<open>link_fields\<close>), provided by the
  nodes of the lists and by the clients of the server. \<open>Deque\<close>: the contract of a
  double-ended queue (locale \<open>node_deque\<close>), provided by the linked list.

  \<^item> Filesystem. \<open>Storage\<close> (\<open>storage.c\<close>): the device, one block at a time. \<open>Bitmap\<close>
  (\<open>bitmap.c\<close>): allocation of blocks on the bytes of the bitmap. \<open>Inode\<close> and \<open>Files\<close>
  (\<open>files.h\<close>, \<open>files.c\<close>): the on-disk structures and \<open>format\<close>, \<open>ifile_create\<close>, \<open>ifile_grow\<close>,
  \<open>ifile_read\<close>, \<open>ifile_write\<close>. \<open>File_Data\<close>, \<open>FS_Invariant\<close>, \<open>FS_Ops\<close>, \<open>FS_Write\<close>: a file as an
  array of bytes, the invariant of the device, and that every operation keeps it. \<open>FS_Spec\<close>:
  the abstract filesystem, a map from inode numbers to byte lists, which the operations
  refine, one by one and in sequences. \<open>FS_Properties\<close>; \<open>FS_Tester\<close> (\<open>tester.c\<close>): the whole
  test program, with the lines it prints.

  \<^item> Linked list. \<open>LL_Double\<close> (\<open>ll_double.c\<close> of \<open>HW2-skeleton\<close>, the same file in
  \<open>HW3-skeleton\<close>): all operations over a heap, as an implementation of the queue contract;
  \<open>LL_Properties\<close>.

  \<^item> Memory. \<open>Frame\<close> (\<open>frame.c\<close>): the frame allocator; \<open>Frame_Properties\<close>. \<open>Translation\<close>
  (\<open>translation.c\<close>): the page tables, byte for byte in the simulated memory;
  \<open>Translation_Map\<close>: mapping through tables that do not exist yet, for any source of new
  tables (locale \<open>table_source\<close>, provided by \<open>make_node\<close> over the frame allocator);
  \<open>Translation_Properties\<close>. \<open>Kmalloc\<close> (\<open>kmalloc.c\<close>): pages and blocks; \<open>Kmalloc_Properties\<close>;
  \<open>Free_List\<close>: the pages of the allocator as lists of free blocks, on which \<open>kmalloc\<close> is
  first fit; \<open>Memory_Testers\<close> (\<open>tester1.c\<close>, \<open>tester2.c\<close>): the programs that allocate at random.

  \<^item> Threads. \<open>Threads\<close> (\<open>threads.c\<close>): the table of contexts, with \<open>setjmp\<close> and \<open>longjmp\<close> as
  outcomes that say where control goes or that the program ends; \<open>Threads_Inv\<close>: the
  invariant of every state that a program reaches; \<open>Thread_Stacks\<close>: the signal stacks, which
  contexts have a buffer, and who can create threads; \<open>Threads_Properties\<close>. \<open>Mutex\<close> and \<open>Condition\<close> (\<open>synchronization.c\<close>): the
  spin lock, for one thread and as atomic steps of any number of threads, and the condition
  variables; \<open>Synchronization_Properties\<close>; \<open>Alarm\<close>: the alarm inside of the library.
  \<open>Producer_Consumer\<close> (\<open>producer-consumer1.c\<close>,
  \<open>producer-consumer2.c\<close>): both programs, round by round; \<open>Producer_Consumer_Properties\<close>. \<open>Preemption\<close>:
  the threads of the first program when they may be interrupted anywhere.

  \<^item> Web server. \<open>Sockets\<close>: what the servers use of the system; scripts say how the next
  reads and writes of each descriptor will go. \<open>Client\<close> (\<open>clients_common.c\<close>,
  \<open>clients_statemachine.c\<close>): one connection, blocking and as a state machine; \<open>Client_Reply\<close>,
  \<open>Client_Request\<close>: what both do for any split of the data into pieces; \<open>Client_List\<close>
  (\<open>clients_statemachine.c\<close>): the list of clients; \<open>Client_Safety\<close>: the handlers are defined
  unless the library rejects a header; \<open>Client_Properties\<close>. \<open>Server_Start\<close> (\<open>server_fork.c\<close>,
  \<open>server_statemachine.c\<close>): the arguments, the accept socket and the signal handlers of both
  servers. \<open>Server_Loop\<close> (\<open>server_statemachine.c\<close>): a round of the event server, with the
  sets of descriptors as \<open>select\<close> may leave them; \<open>Server_Properties\<close>; \<open>Statemachine_Server\<close>:
  the whole program, driven by a list of events. \<open>Request_Queue\<close> and \<open>Thread_Pool\<close>
  (\<open>ll_double.c\<close>, \<open>thread_pool.c\<close>): the request queue, and the pool as interleaved steps of its
  16 consumers and a thread that puts requests; \<open>Pool_Properties\<close>. \<open>Server_Fork\<close>
  (\<open>server_fork.c\<close>): the whole program of the other server, its thread, the pool and the
  signal handlers interleaved; \<open>Fork_Properties\<close>.

  \<^bold>\<open>What is shown.\<close> The filesystem refines the abstract one for all sequences of creations
  and writes it accepts, and reads return what was written; the list refines a double-ended queue; the frame allocator is first-fit for single frames;
  the first page that is mapped translates to its frame until it is unmapped; \<open>kmalloc\<close> refines first fit on
  the free blocks of its pages, once it has pages; the spin lock excludes, and
  producers and consumers that may be interrupted anywhere print the history of one queue;
  condition variables wake up in order of arrival; in every reachable
  state the threads library is defined for every request but a join of a context that was never
  created, where the platform keeps its promise (below); the event handlers serve a whole file;
  a run of the event server is undefined exactly when it meets one of three faults (an address
  handed to \<open>FD_SET\<close> that does not fit, an accepted descriptor that does not, a header that
  \<open>get_filename\<close> rejects); the two versions of the reply
  send the same bytes; the server with the thread pool serves its first client from the
  connection to the last byte (and then waits without its lock, which is undefined), and up to
  anything undefined it takes requests under its lock only; both servers exit with
  a failure when they cannot start. The other
  properties state exactly what the programs do where they do not do what they are meant
  to: blocks that are never released, a device end that is passed, a length that wraps around
  and lets a write to a file overwrite the inodes, a tester that reads behind the end of a
  string literal, frames handed out twice,
  page requests that overlap, \<open>kmalloc\<close> that never gets a page and returns the
  address of a local variable, threads without numbers (so that
  joins return at once, one thread starves the others, and wake-ups are lost), a thread that
  ends the program when it creates another on its own signal stack, alarms that
  meet a context without a buffer or leave two mutexes locked, requests
  lost by the queue, a consumer that locks itself and with it the whole server out, an event
  server that never accepts a client because \<open>nfds\<close> leaves its accept socket out, and what
  happens when a signal interrupts its \<open>select\<close>.

  \<^bold>\<open>Bounds.\<close> The device has 16384 blocks of 4096 bytes, 1024 inodes and at most 512 blocks
  per file; the memory has 1024 frames of 4096 bytes, and lies in the lower half of the
  address space behind its first 64 KiB (\<open>memory_ok\<close>); there are 128 contexts and 16
  consumers. These are the constants of the sources; theorems are for all states within them.

  \<^bold>\<open>Parameters.\<close> Code that is not in the sources: the HTTP functions of the networking
  library (\<open>lib\<close>), of which \<open>header_complete\<close> writes a NUL behind the bytes received, as its
  documentation says (\<open>header_end\<close>, undefined without room for it), and its \<open>create_server\<close>, the function \<open>new_node\<close> that \<open>vm_map\<close> calls, the
  macro \<open>PAGE_ADDRESS\<close>; what a compiler makes of the pointers to incompatible types that
  \<open>pfree\<close> subtracts (\<open>page_of\<close>); and the value \<open>as_int\<close> the compiler makes of the pointer that the event
  server hands to \<open>FD_SET\<close>. System calls follow POSIX: \<open>select\<close> looks at descriptors below
  \<open>nfds\<close> only and leaves the sets alone when it fails, \<open>FD_SET\<close> and \<open>FD_ISSET\<close> are undefined
  outside 0 to 1023, a mutex locked twice by its owner blocks, \<open>sigaltstack\<close> fails for a
  caller that runs on the registered stack, \<open>setitimer\<close> with small intervals does not fail.
  The threads library jumps into the frame of a signal handler that has returned, which ISO C
  leaves undefined: \<open>frames_kept\<close> says that the platform keeps this frame on the signal stack;
  it holds in \<open>zero_threads\<close>, and without it the first switch to a new thread is undefined.

  \<^bold>\<open>Not modelled.\<close> What the handlers of a connection print (the response and the
  buffer). Preemption by the alarm timer in the second producer-consumer program: there
  control changes hands at the calls of the library only (the timer is started by a
  \<open>thread_yield\<close> that is resumed, and the producers of the second program never yield, so no
  wait of its consumers is). Inside of the threads library an alarm is modelled at the two
  points of \<open>Alarm\<close>, and between the calls as a yield; not what \<open>longjmp\<close> out of a handler
  leaves of the signal mask, which POSIX does not say. A signal that arrives between the test
  of \<open>done\<close> and \<open>select\<close>: signals arrive while \<open>select\<close> waits or during the round behind it.
  Data races: single accesses of the threads to shared variables are atomic steps.
  The service of a client by a consumer and a run of \<open>threadFunction\<close> are single steps of the
  thread. The headers of the networking library declare functions only, and \<open>main.c\<close> calls
  \<open>server_fork\<close>.
\<close>

section \<open>Properties of both servers\<close>

text \<open>
  Both servers end with \<open>EXIT_FAILURE\<close> and a message before they do anything else when no
  port is given, when the accept socket cannot be made, or when the handler of \<open>SIGTERM\<close>
  cannot be installed.
\<close>
lemma servers_exit_early:
  assumes "length argv < 2 \<and> m = Usage_server_port \<or>
    2 \<le> length argv \<and> atoi (argv ! 1) = Some port \<and>
      (create_server E port = -1 \<and> m = Error_creating_server \<or>
       create_server E port \<noteq> -1 \<and> sigaction E SIGTERM = -1 \<and> m = Perror_sigaction)"
  shows "(\<exists>w'. server_statemachine L E as_int argv xs s w = Some (Some EXIT_FAILURE, s, w') \<and> messages w' = messages w @ [m]) \<and>
    (\<exists>w'. server_fork E argv l w = Some (Inl (EXIT_FAILURE, w')) \<and> messages w' = messages w @ [m])"
  using assms
  by (auto simp: server_statemachine_def server_fork_def open_port_def setupSignalHandler_def print_def make_nonblocking_def Let_def)

lemma servers_exit_early_example:
  "\<exists>w'. server_fork sample_env [[115]] \<lparr>list_head = 0, list_tail = 0\<rparr> sample_io = Some (Inl (1, w')) \<and>
    messages w' = [Usage_server_port]"
  using servers_exit_early [of "[[115]]" Usage_server_port 0 sample_env sample_lib int "[]" no_clients sample_io "\<lparr>list_head = 0, list_tail = 0\<rparr>"]
  by (auto simp: sample_io_def)

end
